(* ===== verification/Prelude.thy ===== *)
theory Prelude
  imports "HOL-Library.Word"
begin

text \<open>
  What every component of the development shares: the machine integers of the C sources, faults as
  values, arrays with checked access, the little-endian object representation of integers together
  with the network byte order functions of the C library, and generic lemmas about lists.

  A C function that can leave the memory it owns (an index past the end of an array, a
  \<open>memcpy\<close> past the end of an allocation), that uses a freed pointer, that hits an \<open>assert\<close> or that
  calls \<open>exit\<close> returns a value of type \<open>'a result\<close>: \<open>Inl\<close> with the fault, or \<open>Inr\<close> with the result.
  Nothing after a fault is modelled.
\<close>

unbundle bit_operations_syntax

section \<open>Machine integers and faults\<close>

type_synonym byte = "8 word"
type_synonym u16 = "16 word"
type_synonym u32 = "32 word"
type_synonym u64 = "64 word"

datatype fault =
    Out_Of_Bounds       \<comment> \<open>an access outside the array or allocation\<close>
  | Invalid_Pointer     \<comment> \<open>a use of memory that was freed or never allocated\<close>
  | Assertion_Failed    \<comment> \<open>an \<open>assert\<close> of the source that does not hold\<close>
  | Undefined           \<comment> \<open>an operation whose result the language leaves undefined\<close>
  | Exit int            \<comment> \<open>a call of \<open>exit\<close>, with its status\<close>

type_synonym 'a result = "fault + 'a"

named_theorems result_simps \<open>rules that run fault-propagating code symbolically\<close>
named_theorems mem_simps \<open>rules for checked array access\<close>
named_theorems frame \<open>fields and list lengths an operation leaves unchanged\<close>

definition bind_result :: "'a result \<Rightarrow> ('a \<Rightarrow> 'b result) \<Rightarrow> 'b result" where
  "bind_result m f = (case m of Inl e \<Rightarrow> Inl e | Inr x \<Rightarrow> f x)"

text \<open>A loop over a list whose body may fault; the loop stops at the first fault.\<close>

fun fold_result :: "('a \<Rightarrow> 's \<Rightarrow> 's result) \<Rightarrow> 'a list \<Rightarrow> 's \<Rightarrow> 's result" where
  "fold_result f [] s = Inr s"
| "fold_result f (x # xs) s = bind_result (f x s) (fold_result f xs)"

lemma bind_result_Inl [simp, result_simps]: "bind_result (Inl e) f = Inl e"
  by (simp add: bind_result_def)

lemma bind_result_Inr [simp, result_simps]: "bind_result (Inr x) f = f x"
  by (simp add: bind_result_def)

lemma bind_result_eq_Inr [result_simps]:
  "bind_result m f = Inr y \<longleftrightarrow> (\<exists>x. m = Inr x \<and> f x = Inr y)"
  by (auto simp: bind_result_def split: sum.splits)

lemma bind_result_eq_Inl [result_simps]:
  "bind_result m f = Inl e \<longleftrightarrow> m = Inl e \<or> (\<exists>x. m = Inr x \<and> f x = Inl e)"
  by (auto simp: bind_result_def split: sum.splits)

lemma bind_result_cong [fundef_cong]:
  "m = m' \<Longrightarrow> (\<And>x. m' = Inr x \<Longrightarrow> f x = f' x) \<Longrightarrow> bind_result m f = bind_result m' f'"
  by (cases m') auto

lemma fold_result_append:
  "fold_result f (xs @ ys) s = bind_result (fold_result f xs s) (fold_result f ys)"
  by (induction xs arbitrary: s) (auto simp: bind_result_def split: sum.splits)

lemma fold_result_snoc: "fold_result f (xs @ [x]) s = bind_result (fold_result f xs s) (f x)"
  by (induction xs arbitrary: s) (auto simp: bind_result_def split: sum.splits)

lemma fold_result_invariant:
  assumes "fold_result f xs s = Inr s'" and "P s"
    and "\<And>x s s'. x \<in> set xs \<Longrightarrow> P s \<Longrightarrow> f x s = Inr s' \<Longrightarrow> P s'"
  shows "P s'"
  using assms
proof (induction xs arbitrary: s)
  case (Cons x xs)
  then obtain t where "f x s = Inr t" and rest: "fold_result f xs t = Inr s'"
    by (auto simp: result_simps)
  with Cons.prems have "P t" by auto
  then show ?case using Cons.IH [OF rest] Cons.prems(3) by auto
qed simp

subsection \<open>Machines and their invariants\<close>

text \<open>
  A component that reacts to events: one step may fault, a run is the steps of a list of events in
  order. An invariant that every step keeps holds after every run that does not fault; if moreover
  a step on an admissible event cannot fault, a run of admissible events reaches its end.
\<close>

locale machine =
  fixes step :: "'e \<Rightarrow> 's \<Rightarrow> 's result" and inv :: "'s \<Rightarrow> bool"
  assumes step_inv: "inv s \<Longrightarrow> step e s = Inr s' \<Longrightarrow> inv s'"
begin

lemma run_inv: "fold_result step es s = Inr s' \<Longrightarrow> inv s \<Longrightarrow> inv s'"
  by (rule fold_result_invariant [where P = inv]) (auto intro: step_inv)

lemma run_keeps:
  assumes "fold_result step es s = Inr s'" and "inv s"
    and "\<And>e s s'. inv s \<Longrightarrow> step e s = Inr s' \<Longrightarrow> P s \<Longrightarrow> P s'" and "P s"
  shows "P s'"
proof -
  have "inv s' \<and> P s'"
    by (rule fold_result_invariant [OF assms(1), where P = "\<lambda>s. inv s \<and> P s"])
       (use assms in \<open>auto intro: step_inv\<close>)
  then show ?thesis ..
qed

end

locale total_machine = machine +
  fixes admissible :: "'a \<Rightarrow> 'b \<Rightarrow> bool"
  assumes step_total: "inv s \<Longrightarrow> admissible e s \<Longrightarrow> \<exists>s'. step e s = Inr s'"
begin

lemma run_total:
  assumes "inv s" and "\<And>e s. e \<in> set es \<Longrightarrow> inv s \<Longrightarrow> admissible e s"
  shows "\<exists>s'. fold_result step es s = Inr s' \<and> inv s'"
  using assms
proof (induction es arbitrary: s)
  case (Cons e es)
  then obtain t where t: "step e s = Inr t" using step_total by fastforce
  then have "inv t" using step_inv Cons.prems(1) by blast
  with Cons t show ?case by simp
qed simp

end

section \<open>Arrays with checked access\<close>

definition mem_read :: "'a list \<Rightarrow> nat \<Rightarrow> nat \<Rightarrow> 'a list result" where
  "mem_read a off n = (if off + n \<le> length a then Inr (take n (drop off a)) else Inl Out_Of_Bounds)"

definition mem_write :: "'a list \<Rightarrow> nat \<Rightarrow> 'a list \<Rightarrow> 'a list result" where
  "mem_write a off src =
     (if off + length src \<le> length a
      then Inr (take off a @ src @ drop (off + length src) a) else Inl Out_Of_Bounds)"

definition array_get :: "'a list \<Rightarrow> nat \<Rightarrow> 'a result" where
  "array_get a i = (if i < length a then Inr (a ! i) else Inl Out_Of_Bounds)"

definition array_set :: "'a list \<Rightarrow> nat \<Rightarrow> 'a \<Rightarrow> 'a list result" where
  "array_set a i x = (if i < length a then Inr (a[i := x]) else Inl Out_Of_Bounds)"

lemma mem_read_ok [mem_simps]: "off + n \<le> length a \<Longrightarrow> mem_read a off n = Inr (take n (drop off a))"
  by (simp add: mem_read_def)

lemma mem_write_ok [mem_simps]:
  "off + length src \<le> length a \<Longrightarrow>
   mem_write a off src = Inr (take off a @ src @ drop (off + length src) a)"
  by (simp add: mem_write_def)

lemma mem_read_eq_Inr [result_simps]:
  "mem_read a off n = Inr r \<longleftrightarrow> off + n \<le> length a \<and> r = take n (drop off a)"
  by (auto simp: mem_read_def)

lemma mem_write_eq_Inr [result_simps]:
  "mem_write a off src = Inr r \<longleftrightarrow>
   off + length src \<le> length a \<and> r = take off a @ src @ drop (off + length src) a"
  by (auto simp: mem_write_def)

lemma mem_write_length [frame]: "mem_write a off src = Inr b \<Longrightarrow> length b = length a"
  by (auto simp: result_simps)

lemma array_get_eq_Inr [result_simps]: "array_get a i = Inr x \<longleftrightarrow> i < length a \<and> x = a ! i"
  by (auto simp: array_get_def)

lemma array_set_eq_Inr [result_simps]: "array_set a i x = Inr b \<longleftrightarrow> i < length a \<and> b = a[i := x]"
  by (auto simp: array_set_def)

lemma mem_write_read_same:
  "mem_write a off src = Inr b \<Longrightarrow> mem_read b off (length src) = Inr src"
  by (auto simp: result_simps)

text \<open>Writing one part of an array after another is writing the concatenation, faults included.\<close>

lemma mem_write_append:
  "bind_result (mem_write a off xs) (\<lambda>b. mem_write b (off + length xs) ys) = mem_write a off (xs @ ys)"
  by (simp add: mem_write_def ac_simps)

lemma mem_write_append_bind:
  "off' = off + length xs \<Longrightarrow>
   bind_result (mem_write a off xs) (\<lambda>b. bind_result (mem_write b off' ys) f) =
   bind_result (mem_write a off (xs @ ys)) f"
  by (simp add: mem_write_append [symmetric] bind_result_def split: sum.splits)

lemma mem_write_zeros:
  "mem_write (replicate n z) 0 xs =
     (if length xs \<le> n then Inr (xs @ replicate (n - length xs) z) else Inl Out_Of_Bounds)"
  by (simp add: mem_write_def)

lemma mem_read_append:
  "off = length xs \<Longrightarrow> n = length ys \<Longrightarrow> mem_read (xs @ ys @ zs) off n = Inr ys"
  by (simp add: mem_read_def)

lemma mem_read_part:
  "off \<le> length a \<Longrightarrow> mem_read a off (length (take k (drop off a))) = Inr (take k (drop off a))"
  by (auto simp: mem_read_def min_def)

text \<open>A loop over the first \<open>n\<close> indices of an array is a loop over its first \<open>n\<close> elements.\<close>

lemma fold_result_array:
  "n \<le> length xs \<Longrightarrow>
   fold_result (\<lambda>i s. bind_result (array_get xs i) (\<lambda>x. f x s)) [0..<n] s = fold_result f (take n xs) s"
proof (induction n)
  case (Suc n)
  then show ?case by (simp add: fold_result_snoc take_Suc_conv_app_nth array_get_def)
qed simp

lemma length_concat_rows: "(\<And>h. h \<in> set hs \<Longrightarrow> length h = k) \<Longrightarrow> length (concat hs) = length hs * k"
  by (induction hs) auto

lemma length_concat_take:
  "(\<And>h. h \<in> set hs \<Longrightarrow> length h = k) \<Longrightarrow> n \<le> length hs \<Longrightarrow> length (concat (take n hs)) = n * k"
  by (subst length_concat_rows [where k = k]) (auto dest: in_set_takeD)

section \<open>Object representation and network byte order\<close>

text \<open>
  The program is built for a little-endian host (\<open>WORDS_BIGENDIAN\<close> is not defined in the
  Makefile): \<open>memcpy\<close> of an integer object copies its least significant byte first.
\<close>

definition bytes_of_u16 :: "u16 \<Rightarrow> byte list" where
  "bytes_of_u16 x = [ucast x, ucast (drop_bit 8 x)]"

definition u16_of_bytes :: "byte list \<Rightarrow> u16" where
  "u16_of_bytes bs = ucast (bs ! 0) OR push_bit 8 (ucast (bs ! 1))"

definition bytes_of_u32 :: "u32 \<Rightarrow> byte list" where
  "bytes_of_u32 x =
     [ucast x, ucast (drop_bit 8 x), ucast (drop_bit 16 x), ucast (drop_bit 24 x)]"

definition u32_of_bytes :: "byte list \<Rightarrow> u32" where
  "u32_of_bytes bs =
     ucast (bs ! 0) OR push_bit 8 (ucast (bs ! 1)) OR
     push_bit 16 (ucast (bs ! 2)) OR push_bit 24 (ucast (bs ! 3))"

text \<open>The C library's conversions between host and network order reverse the bytes.\<close>

definition htons :: "u16 \<Rightarrow> u16" where
  "htons x = u16_of_bytes (rev (bytes_of_u16 x))"

definition ntohs :: "u16 \<Rightarrow> u16" where
  "ntohs x = u16_of_bytes (rev (bytes_of_u16 x))"

definition htonl :: "u32 \<Rightarrow> u32" where
  "htonl x = u32_of_bytes (rev (bytes_of_u32 x))"

definition ntohl :: "u32 \<Rightarrow> u32" where
  "ntohl x = u32_of_bytes (rev (bytes_of_u32 x))"

lemma bit_byte_ge: "8 \<le> n \<Longrightarrow> \<not> bit (b :: byte) n"
  using bit_imp_le_length [of b n] by auto

lemma length_bytes_of [simp]:
  "length (bytes_of_u16 x) = 2" "length (bytes_of_u32 y) = 4"
  by (simp_all add: bytes_of_u16_def bytes_of_u32_def)

lemma u16_of_bytes_of_u16 [simp]: "u16_of_bytes (bytes_of_u16 x) = x"
  by (auto simp: u16_of_bytes_def bytes_of_u16_def bit_eq_iff bit_simps)

lemma u32_of_bytes_of_u32 [simp]: "u32_of_bytes (bytes_of_u32 x) = x"
proof (rule bit_word_eqI)
  fix n assume "n < LENGTH(32)"
  then consider "n < 8" | "8 \<le> n" "n < 16" | "16 \<le> n" "n < 24" | "24 \<le> n" "n < 32"
    by force
  then show "bit (u32_of_bytes (bytes_of_u32 x)) n = bit x n"
    by cases (auto simp: u32_of_bytes_def bytes_of_u32_def bit_simps)
qed

lemma bytes_of_u16_of_pair [simp]: "bytes_of_u16 (u16_of_bytes [a, b]) = [a, b]"
  by (auto simp: u16_of_bytes_def bytes_of_u16_def bit_simps bit_byte_ge intro!: bit_word_eqI)

lemma bytes_of_u32_of_quad [simp]: "bytes_of_u32 (u32_of_bytes [a, b, c, d]) = [a, b, c, d]"
  by (auto simp: u32_of_bytes_def bytes_of_u32_def bit_simps bit_byte_ge intro!: bit_word_eqI)

lemma u16_bytes_rev: "bytes_of_u16 (u16_of_bytes (rev (bytes_of_u16 x))) = rev (bytes_of_u16 x)"
  by (simp add: bytes_of_u16_def [of x])

lemma u32_bytes_rev: "bytes_of_u32 (u32_of_bytes (rev (bytes_of_u32 x))) = rev (bytes_of_u32 x)"
  by (simp add: bytes_of_u32_def [of x])

text \<open>Widening and narrowing between the 32-bit and 64-bit integers.\<close>

lemma unat_ucast_u64: "unat (ucast (x :: u32) :: u64) = unat x"
proof -
  have "unat x < 2 ^ 32" using unsigned_less [of x] by simp
  then show ?thesis by (simp add: unsigned_ucast_eq take_bit_nat_eq_self)
qed

lemma unat_ucast_u32: "unat (x :: u64) < 2 ^ 32 \<Longrightarrow> unat (ucast x :: u32) = unat x"
  by (simp add: unsigned_ucast_eq take_bit_nat_eq_self)

subsection \<open>Fields of a wire format\<close>

text \<open>
  What the packet code relies on for every integer it puts on the wire: the field has a fixed
  width and reading it back gives the integer that was written.
\<close>

locale net_field =
  fixes put :: "'a \<Rightarrow> byte list" and get :: "byte list \<Rightarrow> 'a" and width :: nat
  assumes length_put [simp]: "length (put x) = width"
    and get_put [simp]: "get (put x) = x"
begin

lemma get_at:
  assumes "length pre = off"
  shows "get (take width (drop off (pre @ put x @ rest))) = x"
proof -
  have "take width (drop off (pre @ put x @ rest)) = put x"
    using assms by simp
  then show ?thesis by simp
qed

lemma read_back:
  "mem_write a off (put x) = Inr b \<Longrightarrow>
   bind_result (mem_read b off width) (\<lambda>bs. Inr (get bs)) = Inr x"
  using mem_write_read_same [of a off "put x" b] by simp

lemma put_inj: "put x = put y \<Longrightarrow> x = y"
  by (metis get_put)

end

lemma ntohs_htons [simp]: "ntohs (htons x) = x"
  by (metis ntohs_def htons_def u16_bytes_rev rev_rev_ident u16_of_bytes_of_u16)

lemma ntohl_htonl [simp]: "ntohl (htonl x) = x"
  by (metis ntohl_def htonl_def u32_bytes_rev rev_rev_ident u32_of_bytes_of_u32)

text \<open>\<open>v = htons(x); memcpy(p, &v, 2)\<close> and \<open>memcpy(&v, p, 2); x = ntohs(v)\<close>, and the 4-byte pair.\<close>

definition put_u16 :: "u16 \<Rightarrow> byte list" where
  "put_u16 x = bytes_of_u16 (htons x)"

definition get_u16 :: "byte list \<Rightarrow> u16" where
  "get_u16 bs = ntohs (u16_of_bytes bs)"

definition put_u32 :: "u32 \<Rightarrow> byte list" where
  "put_u32 x = bytes_of_u32 (htonl x)"

definition get_u32 :: "byte list \<Rightarrow> u32" where
  "get_u32 bs = ntohl (u32_of_bytes bs)"

interpretation net16: net_field put_u16 get_u16 2
  by unfold_locales (simp_all add: put_u16_def get_u16_def htons_def ntohs_def u16_bytes_rev)

interpretation net32: net_field put_u32 get_u32 4
  by unfold_locales (simp_all add: put_u32_def get_u32_def htonl_def ntohl_def u32_bytes_rev)

text \<open>The most significant byte goes first on the wire.\<close>

lemma put_u16_eq: "put_u16 x = [ucast (drop_bit 8 x), ucast x]"
  by (simp add: put_u16_def htons_def u16_bytes_rev) (simp add: bytes_of_u16_def)

lemma put_u32_eq:
  "put_u32 x = [ucast (drop_bit 24 x), ucast (drop_bit 16 x), ucast (drop_bit 8 x), ucast x]"
  by (simp add: put_u32_def htonl_def u32_bytes_rev) (simp add: bytes_of_u32_def)

end
