(* ===== verification/Sha1.thy ===== *)
theory Sha1
  imports Prelude
begin

text \<open>
  The SHA-1 implementation of \<^verbatim>\<open>src/code/sha.c\<close>, with the configuration the Makefile
  builds (a little-endian host, no \<open>SHA1_FAST_COPY\<close>, \<open>SHA1_UNROLL\<close> 20), and its equivalence
  with the hash function as the Secure Hash Standard defines it.

  A pointer and a length are the list of the bytes they delimit. The 64-byte buffer is the byte
  view of the union; its word view is \<open>words_of_buffer\<close>. \<open>burnStack\<close> only overwrites dead stack
  memory and has no counterpart here.
\<close>

section \<open>The code\<close>

record SHA1Context =
  totalLength :: u64
  sha_hash :: "u32 list"
  bufferLength :: u32
  sha_buffer :: "byte list"

definition ROTL :: "u32 \<Rightarrow> nat \<Rightarrow> u32" where
  "ROTL x n = push_bit n x OR drop_bit (32 - n) x"

definition ROTR :: "u32 \<Rightarrow> nat \<Rightarrow> u32" where
  "ROTR x n = drop_bit n x OR push_bit (32 - n) x"

definition F_0_19 :: "u32 \<Rightarrow> u32 \<Rightarrow> u32 \<Rightarrow> u32" where
  "F_0_19 x y z = z XOR (x AND (y XOR z))"

definition F_20_39 :: "u32 \<Rightarrow> u32 \<Rightarrow> u32 \<Rightarrow> u32" where
  "F_20_39 x y z = x XOR y XOR z"

definition F_40_59 :: "u32 \<Rightarrow> u32 \<Rightarrow> u32 \<Rightarrow> u32" where
  "F_40_59 x y z = (x AND (y OR z)) OR (y AND z)"

definition F_60_79 :: "u32 \<Rightarrow> u32 \<Rightarrow> u32 \<Rightarrow> u32" where
  "F_60_79 x y z = x XOR y XOR z"

type_synonym round_state = "u32 \<times> u32 \<times> u32 \<times> u32 \<times> u32"

fun DO_ROUND :: "(u32 \<Rightarrow> u32 \<Rightarrow> u32 \<Rightarrow> u32) \<Rightarrow> u32 \<Rightarrow> u32 \<Rightarrow> round_state \<Rightarrow> round_state" where
  "DO_ROUND F K w (a, b, c, d, e) = (ROTL a 5 + F b c d + e + w + K, a, ROTL b 30, c, d)"

definition K_0_19 :: u32 where "K_0_19 = 0x5a827999"
definition K_20_39 :: u32 where "K_20_39 = 0x6ed9eba1"
definition K_40_59 :: u32 where "K_40_59 = 0x8f1bbcdc"
definition K_60_79 :: u32 where "K_60_79 = 0xca62c1d6"

definition BYTESWAP :: "u32 \<Rightarrow> u32" where
  "BYTESWAP x = (ROTR x 8 AND 0xff00ff00) OR (ROTL x 8 AND 0x00ff00ff)"

definition byteswap64 :: "u64 \<Rightarrow> u64" where
  "byteswap64 x =
     (let a = ucast (drop_bit 32 x) :: u32; b = ucast x :: u32
      in push_bit 32 (ucast (BYTESWAP b)) OR ucast (BYTESWAP a))"

definition padding :: "byte list" where
  "padding = 0x80 # replicate 63 0"

text \<open>\<open>SHA1Init\<close> sets every field but the buffer, which keeps its content.\<close>

definition SHA1Init :: "SHA1Context \<Rightarrow> SHA1Context" where
  "SHA1Init sc = sc\<lparr>totalLength := 0,
     sha_hash := [0x67452301, 0xefcdab89, 0x98badcfe, 0x10325476, 0xc3d2e1f0],
     bufferLength := 0\<rparr>"

definition words_of_buffer :: "byte list \<Rightarrow> u32 list" where
  "words_of_buffer bs = map (\<lambda>i. u32_of_bytes (take 4 (drop (4 * i) bs))) [0..<16]"

text \<open>The message schedule: \<open>W\<close> is the part of \<open>buf\<close> written so far, \<open>n\<close> words are missing.\<close>

fun expand_schedule :: "nat \<Rightarrow> u32 list \<Rightarrow> u32 list" where
  "expand_schedule 0 W = W"
| "expand_schedule (Suc n) W =
     expand_schedule n (W @ [ROTL (W ! (length W - 3) XOR W ! (length W - 8) XOR
                                   W ! (length W - 14) XOR W ! (length W - 16)) 1])"

definition SHA1Guts :: "SHA1Context \<Rightarrow> u32 list \<Rightarrow> SHA1Context" where
  "SHA1Guts sc cbuf =
     (let W = expand_schedule 64 (map BYTESWAP cbuf);
          s0 = (sha_hash sc ! 0, sha_hash sc ! 1, sha_hash sc ! 2, sha_hash sc ! 3, sha_hash sc ! 4);
          s1 = fold (DO_ROUND F_0_19 K_0_19) (take 20 W) s0;
          s2 = fold (DO_ROUND F_20_39 K_20_39) (take 20 (drop 20 W)) s1;
          s3 = fold (DO_ROUND F_40_59 K_40_59) (take 20 (drop 40 W)) s2;
          (a, b, c, d, e) = fold (DO_ROUND F_60_79 K_60_79) (take 20 (drop 60 W)) s3
      in sc\<lparr>sha_hash := [sha_hash sc ! 0 + a, sha_hash sc ! 1 + b, sha_hash sc ! 2 + c,
                         sha_hash sc ! 3 + d, sha_hash sc ! 4 + e]\<rparr>)"

text \<open>
  The \<open>while (len)\<close> loop: fill the buffer, and hash it each time it is full. The argument \<open>len\<close> of the C
  function is a \<open>uint32_t\<close>, so a call passes a list of fewer than \<open>2^32\<close> bytes; on these the two agree.
\<close>

function SHA1Update :: "SHA1Context \<Rightarrow> byte list \<Rightarrow> SHA1Context result" where
  "SHA1Update sc data =
     (if data = [] then Inr sc
      else
        let bufferBytesLeft = unat (64 - bufferLength sc);
            bytesToCopy = min bufferBytesLeft (length data)
        in bind_result
             (mem_write (sha_buffer sc) (unat (bufferLength sc)) (take bytesToCopy data))
             (\<lambda>buf.
                let sc1 = sc\<lparr>sha_buffer := buf,
                             totalLength := totalLength sc + of_nat bytesToCopy * 8,
                             bufferLength := bufferLength sc + of_nat bytesToCopy\<rparr>;
                    sc2 = (if bufferLength sc1 = 64
                           then (SHA1Guts sc1 (words_of_buffer (sha_buffer sc1)))\<lparr>bufferLength := 0\<rparr>
                           else sc1)
                in SHA1Update sc2 (drop bytesToCopy data)))"
  by pat_completeness auto
termination
proof (relation "measures [\<lambda>(sc, data). length data, \<lambda>(sc, data). if bufferLength sc = 64 then 1 else 0]",
    goal_cases)
  case 1
  then show ?case by simp
next
  case (2 sc data left n buf sc1 sc2)
  show ?case
  proof (cases "bufferLength sc = 64")
    case True
    then show ?thesis using 2 by (auto simp: Let_def)
  next
    case False
    then have "64 - bufferLength sc \<noteq> 0" by simp
    then have "0 < left" using 2 by (simp add: unat_gt_0)
    then show ?thesis using 2 by auto
  qed
qed

declare SHA1Update.simps [simp del]

definition bytes_of_u64 :: "u64 \<Rightarrow> byte list" where
  "bytes_of_u64 x = map (\<lambda>i. ucast (drop_bit (8 * i) x)) [0..<8]"

definition hash_bytes :: "u32 \<Rightarrow> byte list" where
  "hash_bytes h = [ucast (drop_bit 24 h), ucast (drop_bit 16 h), ucast (drop_bit 8 h), ucast h]"

text \<open>The padding and the length, fed to the context by \<open>SHA1Update\<close>, of which a build chooses one version.\<close>

definition final_pad :: "(SHA1Context \<Rightarrow> byte list \<Rightarrow> SHA1Context result) \<Rightarrow> SHA1Context \<Rightarrow> SHA1Context result" where
  "final_pad update sc =
     (let pad = unat (120 - bufferLength sc);
          bytesToPad = (if pad > 64 then pad - 64 else pad);
          lengthPad = byteswap64 (totalLength sc)
      in bind_result (mem_read padding 0 bytesToPad) (\<lambda>ps.
         bind_result (update sc ps) (\<lambda>sc1. update sc1 (bytes_of_u64 lengthPad))))"

definition SHA1Final :: "SHA1Context \<Rightarrow> (SHA1Context \<times> byte list) result" where
  "SHA1Final sc =
     bind_result (final_pad SHA1Update sc) (\<lambda>sc.
       Inr (sc, concat (map (\<lambda>i. hash_bytes (sha_hash sc ! i)) [0..<5])))"

section \<open>The Secure Hash Standard\<close>

definition Ch :: "u32 \<Rightarrow> u32 \<Rightarrow> u32 \<Rightarrow> u32" where
  "Ch x y z = (x AND y) XOR (NOT x AND z)"

definition Parity :: "u32 \<Rightarrow> u32 \<Rightarrow> u32 \<Rightarrow> u32" where
  "Parity x y z = x XOR y XOR z"

definition Maj :: "u32 \<Rightarrow> u32 \<Rightarrow> u32 \<Rightarrow> u32" where
  "Maj x y z = (x AND y) XOR (x AND z) XOR (y AND z)"

definition fips_f :: "nat \<Rightarrow> u32 \<Rightarrow> u32 \<Rightarrow> u32 \<Rightarrow> u32" where
  "fips_f t = (if t < 20 then Ch else if t < 40 then Parity else if t < 60 then Maj else Parity)"

definition fips_K :: "nat \<Rightarrow> u32" where
  "fips_K t = (if t < 20 then 0x5a827999 else if t < 40 then 0x6ed9eba1
               else if t < 60 then 0x8f1bbcdc else 0xca62c1d6)"

fun fips_W :: "u32 list \<Rightarrow> nat \<Rightarrow> u32" where
  "fips_W M t =
     (if t < 16 then M ! t
      else word_rotl 1 (fips_W M (t - 3) XOR fips_W M (t - 8) XOR
                        fips_W M (t - 14) XOR fips_W M (t - 16)))"

declare fips_W.simps [simp del]

primrec fips_rounds :: "u32 list \<Rightarrow> nat \<Rightarrow> round_state \<Rightarrow> round_state" where
  "fips_rounds M 0 s = s"
| "fips_rounds M (Suc t) s =
     (case fips_rounds M t s of (a, b, c, d, e) \<Rightarrow>
        (word_rotl 5 a + fips_f t b c d + e + fips_K t + fips_W M t, a, word_rotl 30 b, c, d))"

definition fips_block :: "u32 list \<Rightarrow> byte list \<Rightarrow> u32 list" where
  "fips_block H blk =
     (let M = map (\<lambda>i. get_u32 (take 4 (drop (4 * i) blk))) [0..<16];
          (a, b, c, d, e) = fips_rounds M 80 (H ! 0, H ! 1, H ! 2, H ! 3, H ! 4)
      in [H ! 0 + a, H ! 1 + b, H ! 2 + c, H ! 3 + d, H ! 4 + e])"

fun fips_hash :: "u32 list \<Rightarrow> byte list \<Rightarrow> u32 list" where
  "fips_hash H bs = (if length bs < 64 then H else fips_hash (fips_block H (take 64 bs)) (drop 64 bs))"

declare fips_hash.simps [simp del]

definition fips_H0 :: "u32 list" where
  "fips_H0 = [0x67452301, 0xefcdab89, 0x98badcfe, 0x10325476, 0xc3d2e1f0]"

definition fips_pad :: "byte list \<Rightarrow> byte list" where
  "fips_pad m = m @ 0x80 # replicate ((119 - length m mod 64) mod 64) 0 @
     put_u32 (of_nat (8 * length m div 2 ^ 32)) @ put_u32 (of_nat (8 * length m))"

definition fips_sha1 :: "byte list \<Rightarrow> byte list" where
  "fips_sha1 m = concat (map put_u32 (fips_hash fips_H0 (fips_pad m)))"

section \<open>Equivalence\<close>

lemma ROTL_rotl: "n \<le> 32 \<Longrightarrow> 0 < n \<Longrightarrow> ROTL x n = word_rotl n x"
proof (rule bit_word_eqI)
  fix k assume *: "k < LENGTH(32)" "n \<le> 32" "0 < n"
  then have "\<not> bit x (32 + (k - n))" if "n \<le> k" using bit_imp_le_length by fastforce
  show "bit (ROTL x n) k = bit (word_rotl n x) k"
  proof (cases "n \<le> k")
    case True
    then have "(k + (32 - n mod 32)) mod 32 = k - n" using * by (cases "n = 32") (auto simp: mod_if)
    then show ?thesis using * True by (auto simp: ROTL_def bit_simps dest: bit_imp_le_length)
  next
    case False
    then have "(k + (32 - n mod 32)) mod 32 = 32 - n + k" using * by (cases "n = 32") (auto simp: mod_if)
    then show ?thesis using * False by (auto simp: ROTL_def bit_simps)
  qed
qed

lemma F_Ch: "F_0_19 = Ch" and F_Parity: "F_20_39 = Parity" "F_60_79 = Parity" and F_Maj: "F_40_59 = Maj"
  by (auto simp: fun_eq_iff F_0_19_def Ch_def F_20_39_def Parity_def F_60_79_def F_40_59_def Maj_def
      bit_simps intro!: bit_word_eqI)

lemma bit_u32_ge: "32 \<le> n \<Longrightarrow> \<not> bit (x :: u32) n"
  using bit_imp_le_length [of x n] by auto

lemma BYTESWAP_masks:
  "(0xff00ff00 :: u32) = push_bit 8 (mask 8) OR push_bit 24 (mask 8)"
  "(0x00ff00ff :: u32) = mask 8 OR push_bit 16 (mask 8)"
  by (simp_all add: mask_eq_exp_minus_1)

lemma BYTESWAP_ntohl: "BYTESWAP x = ntohl x"
proof (rule bit_word_eqI)
  fix n assume "n < LENGTH(32)"
  then consider "n < 8" | "8 \<le> n" "n < 16" | "16 \<le> n" "n < 24" | "24 \<le> n" "n < 32"
    by force
  then show "bit (BYTESWAP x) n = bit (ntohl x) n"
    by cases (auto simp: BYTESWAP_def BYTESWAP_masks ntohl_def ROTL_def ROTR_def u32_of_bytes_def
        bytes_of_u32_def bit_simps bit_u32_ge add.commute)
qed

lemma length_expand [simp]: "length (expand_schedule n W) = n + length W"
  by (induction n W rule: expand_schedule.induct) auto

lemma expand_schedule_prefix: "i < length W \<Longrightarrow> expand_schedule n W ! i = W ! i"
  by (induction n W rule: expand_schedule.induct) (auto simp: nth_append)

lemma expand_schedule_fips:
  assumes "length M = 16" and "16 \<le> length W" and "\<And>t. t < length W \<Longrightarrow> W ! t = fips_W M t"
    and "t < n + length W"
  shows "expand_schedule n W ! t = fips_W M t"
  using assms(2-4)
proof (induction n W rule: expand_schedule.induct)
  case (2 n W)
  let ?w = "ROTL (W ! (length W - 3) XOR W ! (length W - 8) XOR W ! (length W - 14) XOR W ! (length W - 16)) 1"
  have "?w = fips_W M (length W)"
    using "2.prems"(1,2) by (subst fips_W.simps) (simp add: ROTL_rotl)
  then have "(W @ [?w]) ! t = fips_W M t" if "t < length (W @ [?w])" for t
    using "2.prems"(2) that by (auto simp: nth_append less_Suc_eq)
  then show ?case using "2.IH" "2.prems" by simp
qed simp


lemma fips_rounds_add:
  assumes "\<And>t. t < k \<Longrightarrow> fips_f (i + t) = F" and "\<And>t. t < k \<Longrightarrow> fips_K (i + t) = K"
  shows "fips_rounds M (i + k) s = fold (DO_ROUND F K) (map (fips_W M) [i..<i + k]) (fips_rounds M i s)"
  using assms
proof (induction k)
  case (Suc k)
  have "fips_f (i + k) = F" "fips_K (i + k) = K" using Suc.prems by simp_all
  moreover have "fips_rounds M (i + k) s =
      fold (DO_ROUND F K) (map (fips_W M) [i..<i + k]) (fips_rounds M i s)"
    using Suc by simp
  moreover obtain a b c d e where
    "fold (DO_ROUND F K) (map (fips_W M) [i..<i + k]) (fips_rounds M i s) = (a, b, c, d, e)"
    by (metis prod.exhaust)
  ultimately show ?case by (simp add: ROTL_rotl)
qed simp

lemma take_drop_map: 
  assumes "W = map f [0..<80]" and "i + 20 \<le> 80"
  shows "take 20 (drop i W) = map f [i..<i + 20]"
  using assms by (simp add: drop_map take_map take_upt)

lemma fips_rounds_80:
  assumes "W = map (fips_W M) [0..<80]"
  shows "fold (DO_ROUND F_60_79 K_60_79) (take 20 (drop 60 W))
           (fold (DO_ROUND F_40_59 K_40_59) (take 20 (drop 40 W))
             (fold (DO_ROUND F_20_39 K_20_39) (take 20 (drop 20 W))
               (fold (DO_ROUND F_0_19 K_0_19) (take 20 W) s))) = fips_rounds M 80 s"
proof -
  note part = fips_rounds_add [where M = M and s = s and k = 20]
  have "fips_rounds M 20 s = fold (DO_ROUND F_0_19 K_0_19) (take 20 W) s"
    using part [of 0 F_0_19 K_0_19] take_drop_map [OF assms, of 0]
    by (simp add: fips_f_def fips_K_def K_0_19_def F_Ch)
  moreover have "fips_rounds M 40 s = fold (DO_ROUND F_20_39 K_20_39) (take 20 (drop 20 W)) (fips_rounds M 20 s)"
    using part [of 20 F_20_39 K_20_39] take_drop_map [OF assms, of 20]
    by (simp add: fips_f_def fips_K_def K_20_39_def F_Parity)
  moreover have "fips_rounds M 60 s = fold (DO_ROUND F_40_59 K_40_59) (take 20 (drop 40 W)) (fips_rounds M 40 s)"
    using part [of 40 F_40_59 K_40_59] take_drop_map [OF assms, of 40]
    by (simp add: fips_f_def fips_K_def K_40_59_def F_Maj)
  moreover have "fips_rounds M 80 s = fold (DO_ROUND F_60_79 K_60_79) (take 20 (drop 60 W)) (fips_rounds M 60 s)"
    using part [of 60 F_60_79 K_60_79] take_drop_map [OF assms, of 60]
    by (simp add: fips_f_def fips_K_def K_60_79_def F_Parity)
  ultimately show ?thesis by simp
qed

text \<open>One call of the compression function is one block of the standard.\<close>

lemma SHA1Guts_fips: "SHA1Guts sc (words_of_buffer blk) = sc\<lparr>sha_hash := fips_block (sha_hash sc) blk\<rparr>"
proof -
  let ?M = "map (\<lambda>i. get_u32 (take 4 (drop (4 * i) blk))) [0..<16]"
  have M: "map BYTESWAP (words_of_buffer blk) = ?M"
    by (simp add: words_of_buffer_def get_u32_def BYTESWAP_ntohl comp_def)
  have "expand_schedule 64 ?M ! t = fips_W ?M t" if "t < 80" for t
    by (rule expand_schedule_fips) (use that in \<open>auto simp: fips_W.simps\<close>)
  then have "expand_schedule 64 ?M = map (fips_W ?M) [0..<80]"
    by (intro nth_equalityI) auto
  note rounds = fips_rounds_80 [OF this]
  obtain a b c d e where
    "fips_rounds ?M 80 (sha_hash sc ! 0, sha_hash sc ! 1, sha_hash sc ! 2, sha_hash sc ! 3, sha_hash sc ! 4)
     = (a, b, c, d, e)" by (metis prod.exhaust)
  then show ?thesis
    unfolding SHA1Guts_def M fips_block_def Let_def rounds by simp
qed


text \<open>
  The context after the bytes \<open>m\<close> were fed to it: the full blocks are hashed, the rest waits in
  the buffer, and the bit count is kept modulo \<open>2^64\<close>.
\<close>

definition absorbed :: "SHA1Context \<Rightarrow> byte list \<Rightarrow> bool" where
  "absorbed sc m \<longleftrightarrow>
     (\<exists>whole rest. m = whole @ rest \<and> length whole mod 64 = 0 \<and> length rest < 64 \<and>
        length (sha_buffer sc) = 64 \<and>
        sha_hash sc = fips_hash fips_H0 whole \<and>
        unat (bufferLength sc) = length rest \<and>
        take (length rest) (sha_buffer sc) = rest \<and>
        totalLength sc = of_nat (8 * length m))"

lemma fips_hash_short: "length bs < 64 \<Longrightarrow> fips_hash H bs = H"
  by (simp add: fips_hash.simps)

lemma fips_hash_append:
  "length xs mod 64 = 0 \<Longrightarrow> fips_hash H (xs @ ys) = fips_hash (fips_hash H xs) ys"
proof (induction "length xs" arbitrary: xs H rule: less_induct)
  case less
  show ?case
  proof (cases "xs = []")
    case True
    then show ?thesis by (simp add: fips_hash_short)
  next
    case False
    with less.prems have "64 \<le> length xs" by (metis length_0_conv mod_less not_le)
    moreover have "length (drop 64 xs) mod 64 = 0"
      using less.prems calculation by (simp add: le_mod_geq)
    ultimately show ?thesis
      using less.hyps [of "drop 64 xs" "fips_block H (take 64 xs)"]
      by (simp add: fips_hash.simps [of H])
  qed
qed

lemma absorbed_init: "length (sha_buffer sc) = 64 \<Longrightarrow> absorbed (SHA1Init sc) []"
  by (simp add: absorbed_def SHA1Init_def fips_hash_short fips_H0_def)

text \<open>One turn of the loop: \<open>xs\<close> fits into the buffer.\<close>

lemma absorbed_step:
  assumes "absorbed sc m" and fits: "length xs \<le> 64 - unat (bufferLength sc)"
    and buf: "mem_write (sha_buffer sc) (unat (bufferLength sc)) xs = Inr buf"
    and sc1: "sc1 = sc\<lparr>sha_buffer := buf, totalLength := totalLength sc + of_nat (length xs) * 8,
                       bufferLength := bufferLength sc + of_nat (length xs)\<rparr>"
  shows "absorbed (if bufferLength sc1 = 64
                   then (SHA1Guts sc1 (words_of_buffer (sha_buffer sc1)))\<lparr>bufferLength := 0\<rparr>
                   else sc1) (m @ xs)"
proof -
  from assms(1) obtain whole rest where m: "m = whole @ rest" "length whole mod 64 = 0" "length rest < 64"
    and sc: "length (sha_buffer sc) = 64" "sha_hash sc = fips_hash fips_H0 whole"
    "unat (bufferLength sc) = length rest" "take (length rest) (sha_buffer sc) = rest"
    "totalLength sc = of_nat (8 * length m)"
    by (auto simp: absorbed_def)
  have bl: "unat (bufferLength sc1) = length rest + length xs"
    using fits m(3) sc(3) by (simp add: sc1 unat_word_ariths unat_of_nat)
  have buf': "sha_buffer sc1 = rest @ xs @ drop (length rest + length xs) (sha_buffer sc)"
    using buf sc(3,4) by (simp add: sc1 result_simps)
  have total: "totalLength sc1 = of_nat (8 * length (m @ xs))"
    using sc(5) by (simp add: sc1 algebra_simps)
  have len: "length (sha_buffer sc1) = 64" using buf sc(1) sc1 by (simp add: mem_write_length)
  show ?thesis
  proof (cases "bufferLength sc1 = 64")
    case True
    then have full: "length rest + length xs = 64" using bl by simp
    then have "sha_buffer sc1 = rest @ xs" using buf' sc(1) by simp
    moreover have "fips_block (sha_hash sc) (rest @ xs) = fips_hash fips_H0 (whole @ rest @ xs)"
      using fips_hash_append [OF m(2), of fips_H0 "rest @ xs"] sc(2) full
      by (simp add: fips_hash.simps [of _ "rest @ xs"] fips_hash_short)
    ultimately show ?thesis
      unfolding absorbed_def using True total len full m(1,2)
      by (intro exI [of _ "whole @ rest @ xs"] exI [of _ "[]"]) (auto simp: SHA1Guts_fips sc1 mod_add_eq [symmetric])
  next
    case False
    then have "length rest + length xs \<noteq> 64" using bl by (auto simp: word_unat_eq_iff)
    then have "length (rest @ xs) < 64" using fits sc(3) m(3) by simp
    then show ?thesis
      unfolding absorbed_def using False total len bl buf' m(1,2) sc(2)
      by (intro exI [of _ whole] exI [of _ "rest @ xs"]) (simp add: sc1)
  qed
qed

lemma SHA1Update_absorbed: "absorbed sc m \<Longrightarrow> \<exists>sc'. SHA1Update sc data = Inr sc' \<and> absorbed sc' (m @ data)"
proof (induction sc data arbitrary: m rule: SHA1Update.induct)
  case (1 sc data)
  show ?case
  proof (cases "data = []")
    case True
    then show ?thesis using 1 by (auto simp: SHA1Update.simps)
  next
    case False
    let ?left = "unat (64 - bufferLength sc)"
    let ?n = "min ?left (length data)"
    let ?xs = "take ?n data"
    from "1.prems" have bl: "unat (bufferLength sc) < 64" "length (sha_buffer sc) = 64"
      by (auto simp: absorbed_def)
    then have left: "?left = 64 - unat (bufferLength sc)"
      by (subst unat_sub) (auto simp: word_le_nat_alt)
    have len: "length ?xs = ?n" by simp
    have "unat (bufferLength sc) + length ?xs \<le> length (sha_buffer sc)"
      using bl left by simp
    then obtain buf where buf: "mem_write (sha_buffer sc) (unat (bufferLength sc)) ?xs = Inr buf"
      by (simp add: mem_write_def)
    define sc1 where "sc1 = sc\<lparr>sha_buffer := buf, totalLength := totalLength sc + of_nat ?n * 8,
                       bufferLength := bufferLength sc + of_nat ?n\<rparr>"
    define sc2 where "sc2 = (if bufferLength sc1 = 64
                   then (SHA1Guts sc1 (words_of_buffer (sha_buffer sc1)))\<lparr>bufferLength := 0\<rparr> else sc1)"
    have "absorbed sc2 (m @ ?xs)"
      unfolding sc2_def
      by (rule absorbed_step [OF "1.prems" _ buf]) (use left len in \<open>simp_all add: sc1_def\<close>)
    from "1.IH" [OF False refl refl buf sc1_def sc2_def this]
    obtain sc' where "SHA1Update sc2 (drop ?n data) = Inr sc'" "absorbed sc' ((m @ ?xs) @ drop ?n data)"
      by blast
    moreover have "SHA1Update sc data = SHA1Update sc2 (drop ?n data)"
      using False buf by (subst SHA1Update.simps) (simp add: Let_def sc2_def sc1_def)
    ultimately show ?thesis by simp
  qed
qed


lemma bytes_of_u64_swap:
  "bytes_of_u64 (byteswap64 x) = put_u32 (ucast (drop_bit 32 x)) @ put_u32 (ucast x)"
proof -
  have split: "bytes_of_u64 (push_bit 32 (ucast b) OR ucast a) = bytes_of_u32 a @ bytes_of_u32 b"
    for a b :: u32
    by (auto simp: bytes_of_u64_def bytes_of_u32_def upt_rec bit_simps bit_u32_ge intro!: bit_word_eqI)
  show ?thesis
    by (simp add: byteswap64_def Let_def split put_u32_def BYTESWAP_ntohl htonl_def ntohl_def)
qed

lemma length_field_words:
  "ucast (of_nat n :: u64) = (of_nat n :: u32)"
  "ucast (drop_bit 32 (of_nat n :: u64)) = (of_nat (n div 2 ^ 32) :: u32)"
  unfolding drop_bit_eq_div [of 32 n, symmetric] by (auto simp: bit_simps intro!: bit_word_eqI)

lemma pad_bytes:
  assumes "b < 64" and "n = (if 120 - b > 64 then 120 - b - 64 else 120 - b)"
  shows "take n padding = 0x80 # replicate ((119 - b) mod 64) 0" and "n \<le> 64"
proof -
  have "n = Suc ((119 - b) mod 64)"
    using assms by (auto simp: mod_if)
  then show "take n padding = 0x80 # replicate ((119 - b) mod 64) 0" and "n \<le> 64"
    by (auto simp: padding_def min_def)
qed

lemma length_fips_pad: "length (fips_pad m) mod 64 = 0"
proof -
  have "\<And>k :: nat. k < 64 \<Longrightarrow> (k + (9 + (119 - k) mod 64)) mod 64 = 0"
    by (auto simp: mod_if)
  from this [of "length m mod 64"] have "(length m + (9 + (119 - length m mod 64) mod 64)) mod 64 = 0"
    by (simp add: mod_add_left_eq)
  then show ?thesis by (simp add: fips_pad_def ac_simps)
qed

lemma fips_block_length [simp]: "length (fips_block H blk) = 5"
  by (simp add: fips_block_def Let_def split: prod.splits)

lemma fips_hash_length: "length H = 5 \<Longrightarrow> length (fips_hash H bs) = 5"
  by (induction H bs rule: fips_hash.induct) (subst fips_hash.simps, simp)

text \<open>
  Any \<open>update\<close> that absorbs its data gives the digest of the standard, whatever the sizes of the pieces.
\<close>

locale sha1_update =
  fixes update :: "SHA1Context \<Rightarrow> byte list \<Rightarrow> SHA1Context result"
  assumes absorbs: "absorbed sc m \<Longrightarrow> \<exists>sc'. update sc data = Inr sc' \<and> absorbed sc' (m @ data)"
begin

lemma feed:
  "absorbed sc m \<Longrightarrow> \<exists>sc'. fold_result (\<lambda>piece sc. update sc piece) parts sc = Inr sc' \<and> absorbed sc' (m @ concat parts)"
proof (induction parts arbitrary: sc m)
  case (Cons x xs)
  then show ?case using absorbs [OF Cons.prems, of x] by fastforce
qed simp

lemma pad_and_length:
  assumes "absorbed sc m"
  shows "\<exists>sc'. final_pad update sc = Inr sc' \<and> sha_hash sc' = fips_hash fips_H0 (fips_pad m)"
proof -
  define n where "n = (if unat (120 - bufferLength sc) > 64 then unat (120 - bufferLength sc) - 64
                       else unat (120 - bufferLength sc))"
  let ?b = "length m mod 64"
  from assms obtain whole rest where w: "m = whole @ rest" "length whole mod 64 = 0" "length rest < 64"
    "unat (bufferLength sc) = length rest" "totalLength sc = of_nat (8 * length m)"
    by (auto simp: absorbed_def)
  then have b: "unat (bufferLength sc) = ?b" by (simp add: mod_add_eq [symmetric])
  have "unat (120 - bufferLength sc) = 120 - ?b"
    using b by (subst unat_sub) (auto simp: word_le_nat_alt)
  with n_def have n: "n = (if 120 - ?b > 64 then 120 - ?b - 64 else 120 - ?b)" by simp
  have "?b < 64" by simp
  note pad = pad_bytes [OF this n]
  have read: "mem_read padding 0 n = Inr (take n padding)"
    using pad(2) by (simp add: mem_read_def padding_def)
  from absorbs [OF assms, of "take n padding"] obtain sc1 where
    sc1: "update sc (take n padding) = Inr sc1" "absorbed sc1 (m @ take n padding)" by blast
  let ?len = "bytes_of_u64 (byteswap64 (totalLength sc))"
  from absorbs [OF sc1(2), of ?len] obtain sc2 where
    sc2: "update sc1 ?len = Inr sc2" "absorbed sc2 ((m @ take n padding) @ ?len)" by blast
  have "(m @ take n padding) @ ?len = fips_pad m"
    unfolding pad(1) fips_pad_def bytes_of_u64_swap w(5) length_field_words by simp
  with sc2(2) obtain w2 r2 where "fips_pad m = w2 @ r2" "length w2 mod 64 = 0" "length r2 < 64"
    "sha_hash sc2 = fips_hash fips_H0 w2" by (auto simp: absorbed_def)
  moreover from this have "r2 = []" using length_fips_pad [of m] by (simp add: mod_add_eq [symmetric])
  ultimately have hash: "sha_hash sc2 = fips_hash fips_H0 (fips_pad m)" by simp
  then show ?thesis
    using read sc1(1) sc2(1) by (simp add: final_pad_def Let_def n_def [symmetric])
qed

lemma digest:
  assumes "length (sha_buffer sc) = 64" and store: "\<And>h. store h = put_u32 h"
  shows "bind_result (fold_result (\<lambda>piece sc. update sc piece) parts (SHA1Init sc)) (\<lambda>sc.
      bind_result (final_pad update sc) (\<lambda>sc. Inr (concat (map (\<lambda>i. store (sha_hash sc ! i)) [0..<5])))) =
    Inr (fips_sha1 (concat parts))"
proof -
  obtain sc1 where sc1: "fold_result (\<lambda>piece sc. update sc piece) parts (SHA1Init sc) = Inr sc1" "absorbed sc1 (concat parts)"
    using feed [OF absorbed_init [OF assms(1)], of parts] by auto
  obtain sc2 where sc2: "final_pad update sc1 = Inr sc2" "sha_hash sc2 = fips_hash fips_H0 (fips_pad (concat parts))"
    using pad_and_length [OF sc1(2)] by blast
  then have "length (sha_hash sc2) = 5" by (simp add: fips_hash_length fips_H0_def)
  then have "map (\<lambda>i. store (sha_hash sc2 ! i)) [0..<5] = map put_u32 (sha_hash sc2)"
    by (intro nth_equalityI) (auto simp: store)
  then show ?thesis using sc1(1) sc2 by (simp add: fips_sha1_def)
qed

end

interpretation standard: sha1_update SHA1Update
  by unfold_locales (rule SHA1Update_absorbed)

lemma hash_bytes_put: "hash_bytes h = put_u32 h"
  by (simp add: hash_bytes_def put_u32_eq)

lemma SHA1Final_absorbed:
  assumes "absorbed sc m"
  shows "\<exists>sc'. SHA1Final sc = Inr (sc', fips_sha1 m)"
proof -
  obtain sc' where "final_pad SHA1Update sc = Inr sc'" "sha_hash sc' = fips_hash fips_H0 (fips_pad m)"
    using standard.pad_and_length [OF assms] by blast
  moreover from this have "length (sha_hash sc') = 5" by (simp add: fips_hash_length fips_H0_def)
  then have "map (\<lambda>i. put_u32 (sha_hash sc' ! i)) [0..<5] = map put_u32 (sha_hash sc')"
    by (intro nth_equalityI) auto
  ultimately show ?thesis by (simp add: SHA1Final_def fips_sha1_def hash_bytes_put)
qed

section \<open>Properties\<close>


text \<open>
  Claim C16. A message may be fed to \<open>SHA1Update\<close> in any number of pieces of any sizes, on a context
  whose buffer holds anything: none of the calls leaves the context's buffer and \<open>SHA1Final\<close>
  returns the digest that the standard defines for the whole message.
\<close>

theorem sha1_incremental:
  assumes "length (sha_buffer sc) = 64"
  shows "bind_result (fold_result (\<lambda>piece sc. SHA1Update sc piece) parts (SHA1Init sc))
           (\<lambda>sc. bind_result (SHA1Final sc) (\<lambda>r. Inr (snd r))) = Inr (fips_sha1 (concat parts))"
  using standard.digest [OF assms hash_bytes_put, of parts] by (auto simp: SHA1Final_def bind_result_eq_Inr)

theorem sha1_incremental_witness:
  "bind_result (fold_result (\<lambda>piece sc. SHA1Update sc piece) [[1, 2], [], [3]]
       (SHA1Init \<lparr>totalLength = 7, sha_hash = [], bufferLength = 9, sha_buffer = replicate 64 255\<rparr>))
     (\<lambda>sc. bind_result (SHA1Final sc) (\<lambda>r. Inr (snd r))) = Inr (fips_sha1 [1, 2, 3])"
  using sha1_incremental [of "\<lparr>totalLength = 7, sha_hash = [], bufferLength = 9, sha_buffer = replicate 64 255\<rparr>"
      "[[1, 2], [], [3]]"] by simp

end
