(* ===== verification/Sha1_Variants.thy ===== *)
theory Sha1_Variants
  imports Sha1
begin

text \<open>
  The other builds of \<^verbatim>\<open>src/code/sha.c\<close>, which preprocessor symbols choose: the rounds in
  loops with \<open>SHA1_UNROLL\<close> of them in the body, blocks hashed in place with \<open>SHA1_FAST_COPY\<close>, and the
  byte order found out at run time with \<open>RUNTIME_ENDIAN\<close>. The machine is little endian. All of them
  compute what the default build computes.

  With \<open>SHA1_FAST_COPY\<close> the source passes its byte pointer to \<open>SHA1Guts\<close>, which takes a pointer to
  words, without a cast: a compiler warns about it, and the flag \<open>-Werror\<close> of the Makefile makes that
  an error. The model is what the build does where the conversion is accepted and reading words at any
  address is allowed.
\<close>

section \<open>Unrolled rounds\<close>

text \<open>\<open>n\<close> turns of a loop whose body has \<open>u\<close> rounds; each round takes the next word of the schedule.\<close>

fun round_loop :: "nat \<Rightarrow> nat \<Rightarrow> (u32 \<Rightarrow> u32 \<Rightarrow> u32 \<Rightarrow> u32) \<Rightarrow> u32 \<Rightarrow> u32 list \<times> round_state \<Rightarrow> u32 list \<times> round_state" where
  "round_loop u 0 F K ws = ws"
| "round_loop u (Suc n) F K (W, s) = round_loop u n F K (drop u W, fold (DO_ROUND F K) (take u W) s)"

text \<open>The number of turns for each \<open>SHA1_UNROLL\<close> of the source; other values do not compile.\<close>

fun unroll_turns :: "nat \<Rightarrow> nat option" where
  "unroll_turns u =
     (if u = 1 then Some 20 else if u = 2 then Some 10 else if u = 4 then Some 5
      else if u = 5 then Some 4 else if u = 10 then Some 2 else if u = 20 then Some 1 else None)"

definition SHA1Guts_unroll :: "nat \<Rightarrow> nat \<Rightarrow> SHA1Context \<Rightarrow> u32 list \<Rightarrow> SHA1Context" where
  "SHA1Guts_unroll u n sc cbuf =
     (let W = expand_schedule 64 (map BYTESWAP cbuf);
          s0 = (sha_hash sc ! 0, sha_hash sc ! 1, sha_hash sc ! 2, sha_hash sc ! 3, sha_hash sc ! 4);
          ws = round_loop u n F_0_19 K_0_19 (W, s0);
          ws = round_loop u n F_20_39 K_20_39 ws;
          ws = round_loop u n F_40_59 K_40_59 ws;
          (a, b, c, d, e) = snd (round_loop u n F_60_79 K_60_79 ws)
      in sc\<lparr>sha_hash := [sha_hash sc ! 0 + a, sha_hash sc ! 1 + b, sha_hash sc ! 2 + c,
                         sha_hash sc ! 3 + d, sha_hash sc ! 4 + e]\<rparr>)"

lemma round_loop_fold:
  "round_loop u n F K (W, s) = (drop (n * u) W, fold (DO_ROUND F K) (take (n * u) W) s)"
proof (induction n arbitrary: W s)
  case (Suc n)
  have "take (Suc n * u) W = take u W @ take (n * u) (drop u W)" by (simp add: take_add)
  then show ?case by (simp add: Suc add.commute)
qed simp

lemma SHA1Guts_unroll_eq:
  assumes "unroll_turns u = Some n"
  shows "SHA1Guts_unroll u n = SHA1Guts"
proof -
  have "n * u = 20" using assms by (auto split: if_splits)
  then show ?thesis
    by (intro ext) (simp add: SHA1Guts_unroll_def SHA1Guts_def round_loop_fold Let_def)
qed

section \<open>Byte order at run time\<close>

text \<open>The bytes of the word 1 in memory.\<close>

definition setEndian :: bool where
  "setEndian \<longleftrightarrow> bytes_of_u32 1 ! 0 \<noteq> 0"

definition byteswap_runtime :: "bool \<Rightarrow> u32 \<Rightarrow> u32" where
  "byteswap_runtime littleEndian x = (if \<not> littleEndian then x else BYTESWAP x)"

definition byteswap64_runtime :: "bool \<Rightarrow> u64 \<Rightarrow> u64" where
  "byteswap64_runtime littleEndian x = (if \<not> littleEndian then x else byteswap64 x)"

lemma setEndian_little: setEndian
  by (simp add: setEndian_def bytes_of_u32_def)

lemma runtime_byteswap: "byteswap_runtime setEndian = BYTESWAP" "byteswap64_runtime setEndian = byteswap64"
  by (simp_all add: byteswap_runtime_def byteswap64_runtime_def setEndian_little fun_eq_iff)

section \<open>Blocks in place\<close>

text \<open>Filling up a buffer that is not empty.\<close>

definition fast_fill :: "SHA1Context \<Rightarrow> byte list \<Rightarrow> (SHA1Context \<times> byte list) result" where
  "fast_fill sc data =
     (if bufferLength sc \<noteq> 0 then
        let bufferBytesLeft = unat (64 - bufferLength sc);
            bytesToCopy = min bufferBytesLeft (length data)
        in bind_result (mem_write (sha_buffer sc) (unat (bufferLength sc)) (take bytesToCopy data)) (\<lambda>buf.
             let sc1 = sc\<lparr>sha_buffer := buf, totalLength := totalLength sc + of_nat bytesToCopy * 8,
                          bufferLength := bufferLength sc + of_nat bytesToCopy\<rparr>;
                 sc2 = (if bufferLength sc1 = 64
                        then (SHA1Guts sc1 (words_of_buffer (sha_buffer sc1)))\<lparr>bufferLength := 0\<rparr> else sc1)
             in Inr (sc2, drop bytesToCopy data))
      else Inr (sc, data))"

text \<open>Whole blocks of the data.\<close>

function fast_blocks :: "SHA1Context \<Rightarrow> byte list \<Rightarrow> SHA1Context \<times> byte list" where
  "fast_blocks sc data =
     (if 63 < length data then
        fast_blocks (SHA1Guts (sc\<lparr>totalLength := totalLength sc + 512\<rparr>) (words_of_buffer data)) (drop 64 data)
      else (sc, data))"
  by pat_completeness auto
termination by (relation "measure (\<lambda>(sc, data). length data)") auto

declare fast_blocks.simps [simp del]

definition SHA1Update_fast :: "SHA1Context \<Rightarrow> byte list \<Rightarrow> SHA1Context result" where
  "SHA1Update_fast sc data =
     bind_result (fast_fill sc data) (\<lambda>(sc, data).
       let (sc, data) = fast_blocks sc data
       in if data \<noteq> [] then
            bind_result (mem_write (sha_buffer sc) (unat (bufferLength sc)) data) (\<lambda>buf.
              Inr (sc\<lparr>sha_buffer := buf, totalLength := totalLength sc + of_nat (length data) * 8,
                      bufferLength := bufferLength sc + of_nat (length data)\<rparr>))
          else Inr sc)"

text \<open>A word of the digest is stored at once.\<close>

definition SHA1Final_fast :: "SHA1Context \<Rightarrow> (SHA1Context \<times> byte list) result" where
  "SHA1Final_fast sc =
     bind_result (final_pad SHA1Update_fast sc) (\<lambda>sc.
       Inr (sc, concat (map (\<lambda>i. bytes_of_u32 (BYTESWAP (sha_hash sc ! i))) [0..<5])))"

section \<open>The fast build absorbs its data\<close>

lemma words_of_block: "64 \<le> length data \<Longrightarrow> words_of_buffer data = words_of_buffer (take 64 data)"
  by (simp add: words_of_buffer_def drop_take min_def)

lemma absorbed_block:
  assumes "absorbed sc m" and "bufferLength sc = 0" and "63 < length data"
  shows "absorbed (SHA1Guts (sc\<lparr>totalLength := totalLength sc + 512\<rparr>) (words_of_buffer data)) (m @ take 64 data)"
    and "bufferLength (SHA1Guts (sc\<lparr>totalLength := totalLength sc + 512\<rparr>) (words_of_buffer data)) = 0"
proof -
  let ?blk = "take 64 data"
  have blk: "length ?blk = 64" using assms(3) by simp
  from assms(1,2) have m: "length m mod 64 = 0" "length (sha_buffer sc) = 64" "sha_hash sc = fips_hash fips_H0 m"
    "totalLength sc = of_nat (8 * length m)" by (auto simp: absorbed_def)
  have sc': "SHA1Guts (sc\<lparr>totalLength := totalLength sc + 512\<rparr>) (words_of_buffer data) =
      sc\<lparr>totalLength := totalLength sc + 512, sha_hash := fips_block (sha_hash sc) ?blk\<rparr>"
    using assms(3) by (subst words_of_block) (simp_all add: SHA1Guts_fips)
  have "fips_block (sha_hash sc) ?blk = fips_hash fips_H0 (m @ ?blk)"
    using fips_hash_append [OF m(1), of fips_H0 ?blk] blk m(3)
    by (simp add: fips_hash.simps [of _ ?blk] fips_hash_short)
  then show "absorbed (SHA1Guts (sc\<lparr>totalLength := totalLength sc + 512\<rparr>) (words_of_buffer data)) (m @ ?blk)"
    unfolding sc' absorbed_def using m assms(2) blk
    by (intro exI [of _ "m @ ?blk"] exI [of _ "[]"]) (auto simp: mod_add_eq [symmetric])
  show "bufferLength (SHA1Guts (sc\<lparr>totalLength := totalLength sc + 512\<rparr>) (words_of_buffer data)) = 0"
    unfolding sc' using assms(2) by simp
qed

lemma fast_blocks_absorbed:
  assumes "absorbed sc m" and "bufferLength sc = 0"
  shows "\<exists>sc' part rest. fast_blocks sc data = (sc', rest) \<and> data = part @ rest \<and> length rest < 64 \<and>
    absorbed sc' (m @ part) \<and> bufferLength sc' = 0"
  using assms
proof (induction sc data arbitrary: m rule: fast_blocks.induct)
  case (1 sc data)
  show ?case
  proof (cases "63 < length data")
    case True
    let ?sc = "SHA1Guts (sc\<lparr>totalLength := totalLength sc + 512\<rparr>) (words_of_buffer data)"
    note blk = absorbed_block [OF "1.prems" True]
    from "1.IH" [OF True blk] obtain sc' part rest where r: "fast_blocks ?sc (drop 64 data) = (sc', rest)"
      "drop 64 data = part @ rest" "length rest < 64" "absorbed sc' ((m @ take 64 data) @ part)" "bufferLength sc' = 0" by blast
    have "data = (take 64 data @ part) @ rest" using r(2) append_take_drop_id [of 64 data] by simp
    moreover have "fast_blocks sc data = (sc', rest)" using r(1) True by (simp add: fast_blocks.simps [of sc data])
    moreover have "absorbed sc' (m @ (take 64 data @ part))" using r(4) by simp
    ultimately show ?thesis using r(3,5) by blast
  next
    case False
    then show ?thesis using "1.prems" by (simp add: fast_blocks.simps [of sc data])
  qed
qed

lemma fast_fill_absorbed:
  assumes "absorbed sc m"
  shows "\<exists>sc' part rest. fast_fill sc data = Inr (sc', rest) \<and> data = part @ rest \<and> absorbed sc' (m @ part) \<and>
    (rest = [] \<or> bufferLength sc' = 0)"
proof (cases "bufferLength sc = 0")
  case True
  then show ?thesis using assms by (simp add: fast_fill_def)
next
  case False
  let ?left = "unat (64 - bufferLength sc)"
  let ?n = "min ?left (length data)"
  from assms have bl: "unat (bufferLength sc) < 64" "length (sha_buffer sc) = 64" by (auto simp: absorbed_def)
  then have left: "?left = 64 - unat (bufferLength sc)" by (subst unat_sub) (auto simp: word_le_nat_alt)
  have "unat (bufferLength sc) + length (take ?n data) \<le> length (sha_buffer sc)" using bl left by simp
  then obtain buf where buf: "mem_write (sha_buffer sc) (unat (bufferLength sc)) (take ?n data) = Inr buf"
    by (simp add: mem_write_def)
  define sc1 where "sc1 = sc\<lparr>sha_buffer := buf, totalLength := totalLength sc + of_nat ?n * 8,
                     bufferLength := bufferLength sc + of_nat ?n\<rparr>"
  define sc2 where "sc2 = (if bufferLength sc1 = 64
                 then (SHA1Guts sc1 (words_of_buffer (sha_buffer sc1)))\<lparr>bufferLength := 0\<rparr> else sc1)"
  have "absorbed sc2 (m @ take ?n data)"
    unfolding sc2_def by (rule absorbed_step [OF assms _ buf]) (use left in \<open>simp_all add: sc1_def\<close>)
  moreover have "drop ?n data = [] \<or> bufferLength sc2 = 0"
  proof (cases "?left \<le> length data")
    case True
    then have "unat (bufferLength sc1) = 64" using bl left by (simp add: sc1_def unat_word_ariths unat_of_nat)
    then have "bufferLength sc1 = 64" by (simp add: word_unat_eq_iff)
    then show ?thesis by (simp add: sc2_def)
  qed simp
  moreover have "fast_fill sc data = Inr (sc2, drop ?n data)"
    using False buf by (simp add: fast_fill_def Let_def sc2_def sc1_def)
  ultimately show ?thesis by (metis append_take_drop_id)
qed

lemma SHA1Update_fast_absorbed:
  assumes "absorbed sc m"
  shows "\<exists>sc'. SHA1Update_fast sc data = Inr sc' \<and> absorbed sc' (m @ data)"
proof -
  obtain sc1 p1 r1 where fill: "fast_fill sc data = Inr (sc1, r1)" "data = p1 @ r1" "absorbed sc1 (m @ p1)"
    "r1 = [] \<or> bufferLength sc1 = 0" using fast_fill_absorbed [OF assms] by blast
  show ?thesis
  proof (cases "r1 = []")
    case True
    then show ?thesis using fill by (simp add: SHA1Update_fast_def fast_blocks.simps)
  next
    case False
    then obtain sc2 p2 r2 where blocks: "fast_blocks sc1 r1 = (sc2, r2)" "r1 = p2 @ r2" "length r2 < 64"
      "absorbed sc2 ((m @ p1) @ p2)" "bufferLength sc2 = 0" using fast_blocks_absorbed [OF fill(3)] fill(4) by blast
    have len: "length (sha_buffer sc2) = 64" using blocks(4) by (auto simp: absorbed_def)
    then obtain buf where buf: "mem_write (sha_buffer sc2) (unat (bufferLength sc2)) r2 = Inr buf"
      using blocks(3,5) by (simp add: mem_write_def)
    define sc3 where "sc3 = sc2\<lparr>sha_buffer := buf, totalLength := totalLength sc2 + of_nat (length r2) * 8,
                       bufferLength := bufferLength sc2 + of_nat (length r2)\<rparr>"
    have "unat (bufferLength sc3) \<noteq> 64" using blocks(3,5) by (simp add: sc3_def unat_of_nat)
    then have "bufferLength sc3 \<noteq> 64" by auto
    then have "absorbed sc3 (((m @ p1) @ p2) @ r2)"
      using absorbed_step [OF blocks(4) _ buf sc3_def] blocks(3,5) by simp
    then show ?thesis
      using fill(1,2) blocks(1,2) buf sc3_def blocks(4) by (cases "r2 = []") (auto simp: SHA1Update_fast_def)
  qed
qed

interpretation fast: sha1_update SHA1Update_fast
  by unfold_locales (rule SHA1Update_fast_absorbed)

section \<open>Properties\<close>

text \<open>
  Claim C17. Every way to build the hash computes SHA-1: with \<open>SHA1_UNROLL\<close> set to 1, 2, 4, 5, 10 or
  20 the compression function is that of the default build, the byte order found at run time on a
  little endian machine gives the same byte swaps, and \<open>SHA1_FAST_COPY\<close>, fed a message in pieces of
  any sizes, returns the digest that the standard defines for it.
\<close>

theorem build_variants_agree:
  assumes "length (sha_buffer sc) = 64" and "unroll_turns u = Some n"
  shows "SHA1Guts_unroll u n = SHA1Guts \<and> byteswap_runtime setEndian = BYTESWAP \<and> byteswap64_runtime setEndian = byteswap64 \<and>
    bind_result (fold_result (\<lambda>piece sc. SHA1Update_fast sc piece) parts (SHA1Init sc))
      (\<lambda>sc. bind_result (SHA1Final_fast sc) (\<lambda>r. Inr (snd r))) = Inr (fips_sha1 (concat parts))"
proof -
  have store: "bytes_of_u32 (BYTESWAP h) = put_u32 h" for h
    by (simp add: BYTESWAP_ntohl put_u32_def htonl_def ntohl_def)
  show ?thesis
    using fast.digest [OF assms(1) store, of parts] SHA1Guts_unroll_eq [OF assms(2)] runtime_byteswap
    by (auto simp: SHA1Final_fast_def bind_result_eq_Inr)
qed

theorem build_variants_agree_witness:
  "SHA1Guts_unroll 5 4 = SHA1Guts \<and>
   bind_result (fold_result (\<lambda>piece sc. SHA1Update_fast sc piece) [[1, 2], [], [3]]
       (SHA1Init \<lparr>totalLength = 7, sha_hash = [], bufferLength = 9, sha_buffer = replicate 64 255\<rparr>))
     (\<lambda>sc. bind_result (SHA1Final_fast sc) (\<lambda>r. Inr (snd r))) = Inr (fips_sha1 [1, 2, 3])"
  using build_variants_agree [of "\<lparr>totalLength = 7, sha_hash = [], bufferLength = 9, sha_buffer = replicate 64 255\<rparr>" 5 4
      "[[1, 2], [], [3]]"] by simp

end
