(* ===== verification/Bt_Parse.thy ===== *)
theory Bt_Parse
  imports Prelude
begin

text \<open>
  The peer table: the structures of \<^verbatim>\<open>src/code/bt_parse.h\<close>, the lookup by identity of
  \<^verbatim>\<open>src/code/bt_parse.c\<close> and the lookup by address of \<^verbatim>\<open>src/code/peer.c\<close>.

  Peers are allocated once, when the peer list is read, and are shared by the configuration, the
  chunks and the transfers. A pointer to one is an address (\<open>pptr\<close>) into a heap of peers; the
  \<open>next\<close> chain that starts at \<open>config->peers\<close> is the list \<open>config_peers\<close>.
\<close>

type_synonym pptr = nat

record sockaddr_in =
  sin_family :: u16
  sin_port :: u16       \<comment> \<open>network byte order\<close>
  sin_addr :: u32       \<comment> \<open>network byte order\<close>

record bt_peer_t =
  peer_timer :: u64
  peer_id :: "16 word"  \<comment> \<open>\<open>short id\<close>\<close>
  available :: u32
  peer_timeout_count :: u32
  peer_addr :: sockaddr_in

record bt_config_t =
  chunk_file :: string
  has_chunk_file :: string
  output_file :: string
  peer_list_file :: string
  max_conn :: int
  identity :: "16 word"
  myport :: u16
  config_peers :: "pptr list"

type_synonym peer_heap = "pptr \<Rightarrow> bt_peer_t"

section \<open>Lookup by identity\<close>

text \<open>\<open>p->id == peer_id\<close> compares the \<open>short\<close>, promoted to \<open>int\<close>, with an \<open>int\<close>.\<close>

fun bt_peer_info :: "peer_heap \<Rightarrow> pptr list \<Rightarrow> int \<Rightarrow> pptr option" where
  "bt_peer_info h [] i = None"
| "bt_peer_info h (p # ps) i = (if sint (peer_id (h p)) = i then Some p else bt_peer_info h ps i)"

section \<open>Lookup by address\<close>

text \<open>Decimal text of a byte, and the dotted text \<open>inet_ntoa\<close> writes for the four bytes in memory.\<close>

definition dec_digits :: "nat \<Rightarrow> string" where
  "dec_digits n =
     (let digit = (\<lambda>d. char_of (48 + d :: nat))
      in if n < 10 then [digit n]
         else if n < 100 then [digit (n div 10), digit (n mod 10)]
         else [digit (n div 100), digit (n div 10 mod 10), digit (n mod 10)])"

definition dotted :: "u32 \<Rightarrow> string" where
  "dotted a =
     (case bytes_of_u32 a of
        [b0, b1, b2, b3] \<Rightarrow> dec_digits (unat b0) @ ''.'' @ dec_digits (unat b1) @ ''.'' @
                            dec_digits (unat b2) @ ''.'' @ dec_digits (unat b3)
      | _ \<Rightarrow> '''')"

text \<open>
  \<open>inet_ntoa\<close> writes into one static buffer and returns its address. The model keeps that buffer
  explicit: a call returns the pointer \<open>Static_Buffer\<close> and the new content, and a string
  comparison reads the content through the pointer.
\<close>

datatype char_ptr = Static_Buffer

definition inet_ntoa :: "u32 \<Rightarrow> string \<Rightarrow> char_ptr \<times> string" where
  "inet_ntoa a buf = (Static_Buffer, dotted a)"

definition read_string :: "string \<Rightarrow> char_ptr \<Rightarrow> string" where
  "read_string buf p = (case p of Static_Buffer \<Rightarrow> buf)"

definition compare_peer_addr :: "sockaddr_in \<Rightarrow> sockaddr_in \<Rightarrow> bool" where
  "compare_peer_addr p1_addr p2_addr \<longleftrightarrow>
     ntohs (sin_port p1_addr) = ntohs (sin_port p2_addr) \<and>
     (let (s1, buf1) = inet_ntoa (sin_addr p1_addr) [];
          (s2, buf2) = inet_ntoa (sin_addr p2_addr) buf1
      in read_string buf2 s1 = read_string buf2 s2)"

fun find_peer_in :: "peer_heap \<Rightarrow> pptr list \<Rightarrow> sockaddr_in \<Rightarrow> pptr option" where
  "find_peer_in h [] a = None"
| "find_peer_in h (p # ps) a =
     (if compare_peer_addr (peer_addr (h p)) a then Some p else find_peer_in h ps a)"

definition find_peer :: "peer_heap \<Rightarrow> bt_config_t \<Rightarrow> sockaddr_in \<Rightarrow> pptr option" where
  "find_peer h config a = find_peer_in h (config_peers config) a"

section \<open>What the lookups find\<close>

lemma ntohs_inject: "ntohs x = ntohs y \<longleftrightarrow> x = y"
proof
  assume "ntohs x = ntohs y"
  then have "bytes_of_u16 (ntohs x) = bytes_of_u16 (ntohs y)" by simp
  then have "bytes_of_u16 x = bytes_of_u16 y" by (simp add: ntohs_def u16_bytes_rev)
  then show "x = y" by (metis u16_of_bytes_of_u16)
qed simp

text \<open>Both \<open>inet_ntoa\<close> calls name the same buffer, so the host addresses are never compared.\<close>

lemma compare_peer_addr_port: "compare_peer_addr a b \<longleftrightarrow> sin_port a = sin_port b"
  by (simp add: compare_peer_addr_def inet_ntoa_def ntohs_inject Let_def)

lemma bt_peer_info_find: "bt_peer_info h ps i = find (\<lambda>p. sint (peer_id (h p)) = i) ps"
  by (induction ps) auto

lemma find_peer_find: "find_peer h config a = find (\<lambda>p. sin_port (peer_addr (h p)) = sin_port a) (config_peers config)"
proof -
  have "find_peer_in h ps a = find (\<lambda>p. sin_port (peer_addr (h p)) = sin_port a) ps" for ps
    by (induction ps) (auto simp: compare_peer_addr_port)
  then show ?thesis by (simp add: find_peer_def)
qed

lemma find_peer_in_config: "find_peer h config a = Some p \<Longrightarrow> p \<in> set (config_peers config)"
  by (auto simp: find_peer_find find_Some_iff)

section \<open>Properties\<close>


text \<open>
  \<open>compare_peer_addr\<close> is true of any two addresses with the same port, also if the hosts
  differ: both calls of \<open>inet_ntoa\<close> return the same static buffer. \<open>find_peer\<close> therefore takes a datagram
  for one of the first listed peer with the sender's port.
\<close>

lemma compare_peer_addr_ignores_host:
  "compare_peer_addr a (b\<lparr>sin_port := sin_port a\<rparr>) \<and>
   find_peer h config a = find (\<lambda>p. sin_port (peer_addr (h p)) = sin_port a) (config_peers config)"
  by (simp add: compare_peer_addr_port find_peer_find)

end
