(* ===== verification/Text_Io.thy ===== *)
theory Text_Io
  imports Prelude
begin

text \<open>
  What the sources use of the C library to read text: \<open>fgets\<close>, the conversions of \<open>sscanf\<close> that
  occur in the format strings, \<open>atoi\<close>, \<open>strcpy\<close> into a fixed array, and the decimal output of
  \<open>printf\<close>. Text is a list of bytes; a string in an array ends at its first NUL.

  \<open>sscanf\<close> is a parser on the rest of the input: each conversion skips white space, then reads as much
  as it can. A \<open>%d\<close> whose value does not fit an \<open>int\<close> is undefined behaviour of the C standard.
\<close>

section \<open>Characters and strings\<close>

definition isspace :: "byte \<Rightarrow> bool" where
  "isspace b \<longleftrightarrow> b = 32 \<or> 9 \<le> b \<and> b \<le> 13"

definition isdigit :: "byte \<Rightarrow> bool" where
  "isdigit b \<longleftrightarrow> 48 \<le> b \<and> b \<le> 57"

definition c_string :: "byte list \<Rightarrow> byte list" where
  "c_string = takeWhile (\<lambda>b. b \<noteq> 0)"

text \<open>A string literal, and a string as the name of a file.\<close>

definition bytes_of_string :: "string \<Rightarrow> byte list" where
  "bytes_of_string = map (\<lambda>c. of_nat (of_char c))"

definition string_of_bytes :: "byte list \<Rightarrow> string" where
  "string_of_bytes = map (\<lambda>b. char_of (unat b))"

text \<open>A string of \<open>n\<close> characters needs an array of \<open>n + 1\<close>.\<close>

definition strcpy_fits :: "nat \<Rightarrow> string \<Rightarrow> string result" where
  "strcpy_fits n s = (if length s < n then Inr s else Inl Out_Of_Bounds)"

section \<open>Lines\<close>

text \<open>
  \<open>fgets\<close> with an array of \<open>n\<close> bytes stores at most \<open>n - 1\<close> and stops after a newline; the result is
  the line and the rest of the file, or \<open>None\<close> at its end.
\<close>

definition fgets :: "nat \<Rightarrow> byte list \<Rightarrow> (byte list \<times> byte list) option" where
  "fgets n f =
     (let upto = takeWhile (\<lambda>b. b \<noteq> 10) f;
          line = take (n - 1) (if length upto < length f then upto @ [10] else upto)
      in if f = [] then None else Some (line, drop (length line) f))"

lemma fgets_shorter: "fgets n f = Some (line, rest) \<Longrightarrow> 2 \<le> n \<Longrightarrow> length rest < length f"
  by (cases f) (auto simp: fgets_def Let_def split: if_splits)

lemma fgets_Nil [simp]: "fgets n [] = None"
  by (simp add: fgets_def)

lemma fgets_line:
  assumes "10 \<notin> set l" and "length l + 1 < n"
  shows "fgets n (l @ 10 # rest) = Some (l @ [10], rest)"
proof -
  have "takeWhile (\<lambda>b. b \<noteq> 10) (l @ 10 # rest) = l" using assms(1) by (subst takeWhile_append2) auto
  then show ?thesis using assms(2) by (simp add: fgets_def Let_def)
qed

section \<open>Conversions\<close>

definition scan_space :: "byte list \<Rightarrow> byte list" where
  "scan_space = dropWhile isspace"

definition digits_value :: "byte list \<Rightarrow> nat" where
  "digits_value ds = fold (\<lambda>d n. n * 10 + (unat d - 48)) ds 0"

text \<open>\<open>%d\<close>: an optional sign and at least one digit.\<close>

definition scan_int :: "byte list \<Rightarrow> (int \<times> byte list) option" where
  "scan_int s =
     (let s = scan_space s;
          neg = (take 1 s = [45]);
          s = (if take 1 s = [45] \<or> take 1 s = [43] then drop 1 s else s);
          ds = takeWhile isdigit s
      in if ds = [] then None
         else Some (if neg then - int (digits_value ds) else int (digits_value ds), drop (length ds) s))"

text \<open>\<open>%s\<close> with a maximal width (\<open>None\<close> if there is none): at least one character.\<close>

definition scan_word :: "nat option \<Rightarrow> byte list \<Rightarrow> (byte list \<times> byte list) option" where
  "scan_word width s =
     (let s = scan_space s;
          u = takeWhile (\<lambda>b. \<not> isspace b) s;
          u = (case width of None \<Rightarrow> u | Some n \<Rightarrow> take n u)
      in if u = [] then None else Some (u, drop (length u) s))"

text \<open>The characters of the format themselves.\<close>

definition scan_lit :: "byte list \<Rightarrow> byte list \<Rightarrow> byte list option" where
  "scan_lit l s = (if take (length l) s = l then Some (drop (length l) s) else None)"

text \<open>The \<open>int\<close> a conversion stores.\<close>

definition int_value :: "int \<Rightarrow> u32 result" where
  "int_value i = (if - (2 ^ 31) \<le> i \<and> i < 2 ^ 31 then Inr (word_of_int i) else Inl Undefined)"

text \<open>What \<open>sscanf\<close> returns when the first conversion fails: the end of the input counts as an error.\<close>

definition scan_failure :: "byte list \<Rightarrow> int" where
  "scan_failure s = (if scan_space s = [] then -1 else 0)"

text \<open>
  \<open>sscanf(s, "%d %s\n", &id, hash)\<close>: the return value, and the new contents of the variable and of
  the array, which keep their values where nothing is stored.
\<close>

definition sscanf_int_word :: "byte list \<Rightarrow> u32 \<times> byte list \<Rightarrow> (int \<times> u32 \<times> byte list) result" where
  "sscanf_int_word s vars =
     (case vars of (n, buf) \<Rightarrow>
        case scan_int s of
          None \<Rightarrow> Inr (scan_failure s, n, buf)
        | Some (i, s) \<Rightarrow>
            bind_result (int_value i) (\<lambda>n.
              case scan_word None s of
                None \<Rightarrow> Inr (1, n, buf)
              | Some (u, s) \<Rightarrow> bind_result (mem_write buf 0 (u @ [0])) (\<lambda>buf. Inr (2, n, buf))))"

text \<open>\<open>atoi\<close>: 0 if there is no number.\<close>

definition atoi :: "byte list \<Rightarrow> u32 result" where
  "atoi s = (case scan_int s of None \<Rightarrow> Inr 0 | Some (i, rest) \<Rightarrow> int_value i)"

section \<open>Decimal output\<close>

fun dec_bytes :: "nat \<Rightarrow> byte list" where
  "dec_bytes n = (if n < 10 then [] else dec_bytes (n div 10)) @ [of_nat (48 + n mod 10)]"

declare dec_bytes.simps [simp del]

text \<open>\<open>%d\<close> of \<open>printf\<close>.\<close>

definition print_int :: "int \<Rightarrow> byte list" where
  "print_int i = (if i < 0 then 45 # dec_bytes (nat (- i)) else dec_bytes (nat i))"

section \<open>Reading back what was printed\<close>

lemma unat_digit: "d < 10 \<Longrightarrow> unat (of_nat (48 + d) :: byte) = 48 + d"
  by (simp add: unat_of_nat del: of_nat_add)

lemma isdigit_digit: "d < 10 \<Longrightarrow> isdigit (of_nat (48 + d))"
  using unat_digit [of d] by (simp add: isdigit_def word_le_nat_alt del: of_nat_add)

lemma dec_bytes_digits: "b \<in> set (dec_bytes n) \<Longrightarrow> isdigit b"
proof (induction n rule: dec_bytes.induct)
  case (1 n)
  then show ?case using isdigit_digit [of "n mod 10"] by (auto simp: dec_bytes.simps [of n] split: if_splits)
qed

lemma dec_bytes_nonempty [simp]: "dec_bytes n \<noteq> []"
  by (simp add: dec_bytes.simps [of n])

lemma digits_value_dec_bytes: "digits_value (dec_bytes n) = n"
proof (induction n rule: dec_bytes.induct)
  case (1 n)
  have "unat (of_nat (48 + n mod 10) :: byte) = 48 + n mod 10"
    by (rule unat_digit) simp
  with 1 show ?case by (simp add: dec_bytes.simps [of n] digits_value_def del: of_nat_add)
qed

lemma length_dec_bytes: "n < 10 ^ k \<Longrightarrow> 0 < k \<Longrightarrow> length (dec_bytes n) \<le> k"
proof (induction n arbitrary: k rule: dec_bytes.induct)
  case (1 n)
  show ?case
  proof (cases "n < 10")
    case False
    then have "k \<noteq> 1" using 1(2) by (intro notI) simp
    then obtain j where k: "k = Suc j" "0 < j" using 1(3) by (metis One_nat_def Suc_pred bot_nat_0.not_eq_extremum)
    then have "n div 10 < 10 ^ j" using 1(2) by (simp add: less_mult_imp_div_less mult.commute)
    then have "length (dec_bytes (n div 10)) \<le> j" using 1(1) False k(2) by blast
    then show ?thesis using False k by (simp add: dec_bytes.simps [of n])
  qed (use 1(3) in \<open>simp add: dec_bytes.simps [of n]\<close>)
qed

lemma dec_bytes_ge: "10 ^ k \<le> n \<Longrightarrow> k < length (dec_bytes n)"
proof (induction k arbitrary: n)
  case (Suc k)
  then have "10 ^ k \<le> n div 10" by (simp add: div_le_mono [of "10 * 10 ^ k" n 10, simplified])
  then have "k < length (dec_bytes (n div 10))" by (rule Suc.IH)
  moreover have "1 \<le> (10 :: nat) ^ k" by (rule one_le_power) simp
  then have "\<not> n < 10" using Suc.prems unfolding power_Suc by linarith
  ultimately show ?case by (simp add: dec_bytes.simps [of n])
qed (simp add: dec_bytes.simps [of n])

lemma isdigit_not_space: "isdigit b \<Longrightarrow> \<not> isspace b"
  by (auto simp: isdigit_def isspace_def word_le_nat_alt)

lemma isdigit_cases: "isdigit b \<Longrightarrow> b \<noteq> 45 \<and> b \<noteq> 43 \<and> b \<noteq> 0 \<and> b \<noteq> 10"
  by (auto simp: isdigit_def word_le_nat_alt)

lemma scan_int_dec_bytes:
  assumes "rest = [] \<or> \<not> isdigit (hd rest)"
  shows "scan_int (dec_bytes n @ rest) = Some (int n, rest)"
proof -
  obtain d ds where ds: "dec_bytes n = d # ds" using dec_bytes_nonempty [of n] by (meson neq_Nil_conv)
  then have d: "isdigit d" using dec_bytes_digits [of d n] by simp
  have "takeWhile isdigit (dec_bytes n @ rest) = dec_bytes n"
    using assms dec_bytes_digits [of _ n] by (subst takeWhile_append2) (auto simp: takeWhile_eq_Nil_iff)
  then show ?thesis
    using d isdigit_not_space [OF d] isdigit_cases [OF d] digits_value_dec_bytes [of n]
    by (simp add: scan_int_def scan_space_def ds Let_def)
qed

lemma scan_word_spaced:
  assumes "u \<noteq> []" and "\<And>b. b \<in> set u \<Longrightarrow> \<not> isspace b" and "rest = [] \<or> isspace (hd rest)" and "isspace sp"
  shows "scan_word None (sp # u @ rest) = Some (u, rest)"
proof -
  have "takeWhile (\<lambda>b. \<not> isspace b) (u @ rest) = u"
    using assms(2,3) by (subst takeWhile_append2) (auto simp: takeWhile_eq_Nil_iff)
  moreover have "dropWhile isspace (u @ rest) = u @ rest" using assms(1,2) by (cases u) auto
  ultimately show ?thesis using assms(1,4) by (simp add: scan_word_def scan_space_def Let_def)
qed

lemma int_value_nat: "n < 2 ^ 31 \<Longrightarrow> int_value (int n) = Inr (of_nat n)"
  by (simp add: int_value_def)

text \<open>A line with a number and a word is read completely, if the array has room for the word and its NUL.\<close>

lemma sscanf_int_word_line:
  assumes "n < 2 ^ 31" and "u \<noteq> []" and "\<And>b. b \<in> set u \<Longrightarrow> \<not> isspace b"
    and "rest = [] \<or> isspace (hd rest)" and "length u < length buf"
  shows "sscanf_int_word (dec_bytes n @ 32 # u @ rest) (i, buf) = Inr (2, of_nat n, u @ 0 # drop (Suc (length u)) buf)"
proof -
  have sp: "isspace 32" "\<not> isdigit 32" by (simp_all add: isspace_def isdigit_def)
  have "scan_int (dec_bytes n @ 32 # u @ rest) = Some (int n, 32 # u @ rest)"
    by (rule scan_int_dec_bytes) (simp add: sp)
  then show ?thesis
    using assms int_value_nat [OF assms(1)] scan_word_spaced [OF assms(2,3,4) sp(1)]
    by (simp add: sscanf_int_word_def mem_write_def)
qed

lemma sscanf_int_word_overflow:
  assumes "n < 2 ^ 31" and "u \<noteq> []" and "\<And>b. b \<in> set u \<Longrightarrow> \<not> isspace b"
    and "rest = [] \<or> isspace (hd rest)" and "length buf \<le> length u"
  shows "sscanf_int_word (dec_bytes n @ 32 # u @ rest) (i, buf) = Inl Out_Of_Bounds"
proof -
  have sp: "isspace 32" "\<not> isdigit 32" by (simp_all add: isspace_def isdigit_def)
  have "scan_int (dec_bytes n @ 32 # u @ rest) = Some (int n, 32 # u @ rest)"
    by (rule scan_int_dec_bytes) (simp add: sp)
  then show ?thesis
    using assms int_value_nat [OF assms(1)] scan_word_spaced [OF assms(2,3,4) sp(1)]
    by (simp add: sscanf_int_word_def mem_write_def)
qed

end
