(* ===== verification/Debug.thy ===== *)
theory Debug
  imports Text_Io
begin

text \<open>
  The debug mask of \<^verbatim>\<open>src/code/debug.c\<close> and \<^verbatim>\<open>src/code/debug.h\<close>, and the name of
  the log file of \<^verbatim>\<open>src/code/log.c\<close>. What is printed is modelled in \<open>Console\<close>.
\<close>

definition DEBUG_NONE :: u32 where "DEBUG_NONE = 0x00"
definition DEBUG_ERRS :: u32 where "DEBUG_ERRS = 0x01"
definition DEBUG_INIT :: u32 where "DEBUG_INIT = 0x02"
definition DEBUG_SOCKETS :: u32 where "DEBUG_SOCKETS = 0x04"
definition DEBUG_PROCESSES :: u32 where "DEBUG_PROCESSES = 0x08"
definition DEBUG_SPIFFY :: u32 where "DEBUG_SPIFFY = 0x10"

text \<open>The return value and the new mask; \<open>None\<close> is the null pointer.\<close>

definition set_debug :: "byte list option \<Rightarrow> u32 \<Rightarrow> (int \<times> u32) result" where
  "set_debug arg debug =
     (case arg of
        None \<Rightarrow> Inr (- 1, debug)
      | Some s \<Rightarrow>
          if s = [] then Inr (- 1, debug)
          else if hd s = 63 \<or> s = bytes_of_string ''list'' then Inr (- 1, debug)
          else if isdigit (hd s) then bind_result (atoi s) (\<lambda>n. Inr (0, debug OR n))
          else Inr (0, debug))"

definition FILENAME_LEN :: nat where "FILENAME_LEN = 13"

text \<open>The array \<open>filename\<close> after \<open>sprintf\<close>, for the identity of the peer as an \<open>int\<close>.\<close>

definition log_filename :: "int \<Rightarrow> byte list result" where
  "log_filename identity =
     mem_write (replicate FILENAME_LEN 0) 0
       (bytes_of_string ''peer'' @ print_int identity @ bytes_of_string ''.log'' @ [0])"

text \<open>\<open>fopen\<close> with mode \<open>w+\<close> creates or empties the file; \<open>can_open\<close> says whether it succeeds.\<close>

definition setup_logging :: "(string \<Rightarrow> bool) \<Rightarrow> int \<Rightarrow> (string \<rightharpoonup> byte list) \<Rightarrow> (string option \<times> (string \<rightharpoonup> byte list)) result" where
  "setup_logging can_open identity disk =
     bind_result (log_filename identity) (\<lambda>filename.
       let name = string_of_bytes (c_string filename)
       in if can_open name then Inr (Some name, disk(name \<mapsto> [])) else Inr (None, disk))"

section \<open>What fits\<close>

lemma length_bytes_of_string [simp]: "length (bytes_of_string s) = length s"
  by (simp add: bytes_of_string_def)

lemma log_filename_fits: "(\<exists>f. log_filename i = Inr f) \<longleftrightarrow> length (print_int i) \<le> 4"
  by (simp add: log_filename_def mem_write_def FILENAME_LEN_def)

text \<open>
  The name of the log file fits its array of 13 bytes exactly if the identity of the peer
  has at most four characters: \<open>setup_logging\<close> writes past the array for an identity of 10000 or more.
\<close>

lemma log_name_fits: "(\<exists>f. log_filename i = Inr f) \<longleftrightarrow> - 999 \<le> i \<and> i \<le> 9999"
proof (cases "i < 0")
  case True
  have "length (dec_bytes (nat (- i))) \<le> 3 \<longleftrightarrow> nat (- i) < 1000"
    using length_dec_bytes [of "nat (- i)" 3] dec_bytes_ge [of 3 "nat (- i)"] by (cases "nat (- i) < 1000") simp_all
  then show ?thesis using True by (simp add: log_filename_fits print_int_def) linarith
next
  case False
  have "length (dec_bytes (nat i)) \<le> 4 \<longleftrightarrow> nat i < 10000"
    using length_dec_bytes [of "nat i" 4] dec_bytes_ge [of 4 "nat i"] by (cases "nat i < 10000") simp_all
  then show ?thesis using False by (simp add: log_filename_fits print_int_def) linarith
qed

end
