(* ===== verification/Configuration.thy ===== *)
theory Configuration
  imports Bt_Parse Debug
begin

text \<open>
  Start-up configuration: \<open>bt_init\<close>, \<open>bt_parse_command_line\<close> and \<open>bt_parse_peer_list\<close> of
  \<^verbatim>\<open>src/code/bt_parse.c\<close>.

  \<open>getopt\<close> and \<open>gethostbyname\<close> are not part of the sources. The command line is the list of the
  options that \<open>getopt\<close> returns, each with its argument, and the resolver is a parameter: the address
  of a host name in network byte order, or \<open>None\<close>. The disk is the map of the files by name. Peers are
  allocated at successive addresses of the heap of peers, from \<open>free\<close> on.
\<close>

section \<open>The code\<close>

definition BT_FILENAME_LEN :: nat where "BT_FILENAME_LEN = 255"
definition AF_INET :: u16 where "AF_INET = 2"

text \<open>\<open>output.dat\<close> and \<open>nodes.map\<close> fit their arrays; everything else is zeroed.\<close>

definition bt_init :: bt_config_t where
  "bt_init = \<lparr>chunk_file = [], has_chunk_file = [], output_file = ''output.dat'', peer_list_file = ''nodes.map'',
     max_conn = 0, identity = 0, myport = 0, config_peers = []\<rparr>"

text \<open>The variables \<open>nodeid\<close>, \<open>hostname\<close> and \<open>port\<close> of \<open>bt_parse_peer_list\<close>.\<close>

type_synonym peer_vars = "u32 \<times> byte list \<times> u32"

text \<open>\<open>sscanf(line, "%d %s %d", &nodeid, hostname, &port)\<close>.\<close>

definition sscanf_peer :: "byte list \<Rightarrow> peer_vars \<Rightarrow> (int \<times> peer_vars) result" where
  "sscanf_peer s vars =
     (case vars of (nodeid, hostname, port) \<Rightarrow>
        case scan_int s of
          None \<Rightarrow> Inr (scan_failure s, nodeid, hostname, port)
        | Some (i, s) \<Rightarrow>
            bind_result (int_value i) (\<lambda>nodeid.
              case scan_word None s of
                None \<Rightarrow> Inr (1, nodeid, hostname, port)
              | Some (u, s) \<Rightarrow>
                  bind_result (mem_write hostname 0 (u @ [0])) (\<lambda>hostname.
                    case scan_int s of
                      None \<Rightarrow> Inr (2, nodeid, hostname, port)
                    | Some (j, s) \<Rightarrow> bind_result (int_value j) (\<lambda>port. Inr (3, nodeid, hostname, port)))))"

text \<open>The configuration, the heap of peers and its next free address.\<close>

type_synonym peers_state = "bt_config_t \<times> peer_heap \<times> pptr"

definition add_peer :: "u32 \<Rightarrow> u32 \<Rightarrow> u32 \<Rightarrow> peers_state \<Rightarrow> peers_state" where
  "add_peer nodeid host port st =
     (case st of (config, h, free) \<Rightarrow>
        (config\<lparr>config_peers := free # config_peers config\<rparr>,
         h(free := \<lparr>peer_timer = 0, peer_id = ucast nodeid, available = 1, peer_timeout_count = 0,
           peer_addr = \<lparr>sin_family = AF_INET, sin_port = htons (ucast port), sin_addr = host\<rparr>\<rparr>),
         Suc free))"

text \<open>The loop over the lines; the variables keep their values where \<open>sscanf\<close> stores nothing.\<close>

function parse_peers :: "(byte list \<Rightarrow> u32 option) \<Rightarrow> peer_vars \<Rightarrow> byte list \<Rightarrow> peers_state \<Rightarrow> peers_state result" where
  "parse_peers gethostbyname vars text st =
     (case fgets BT_FILENAME_LEN text of
        None \<Rightarrow> Inr st
      | Some (line, rest) \<Rightarrow>
          if take 1 line = [35] then parse_peers gethostbyname vars rest st
          else
            bind_result (sscanf_peer (c_string line) vars) (\<lambda>(n, vars).
              if n = 0 then Inl Assertion_Failed
              else
                case gethostbyname (c_string (fst (snd vars))) of
                  None \<Rightarrow> Inl Assertion_Failed
                | Some host \<Rightarrow> parse_peers gethostbyname vars rest (add_peer (fst vars) host (snd (snd vars)) st)))"
  by pat_completeness auto
termination
  by (relation "measure (\<lambda>(g, vars, text, st). length text)")
     (auto simp: BT_FILENAME_LEN_def dest: fgets_shorter)

declare parse_peers.simps [simp del]

definition bt_parse_peer_list ::
  "(byte list \<Rightarrow> u32 option) \<Rightarrow> peer_vars \<Rightarrow> (string \<rightharpoonup> byte list) \<Rightarrow> peers_state \<Rightarrow> peers_state result" where
  "bt_parse_peer_list gethostbyname vars disk st =
     (case disk (peer_list_file (fst st)) of
        None \<Rightarrow> Inl Assertion_Failed
      | Some text \<Rightarrow> parse_peers gethostbyname vars text st)"

text \<open>One option: the configuration and the debug mask.\<close>

definition bt_option :: "char \<times> string \<Rightarrow> bt_config_t \<times> u32 \<Rightarrow> (bt_config_t \<times> u32) result" where
  "bt_option opt st =
     (case opt of (c, optarg) \<Rightarrow> case st of (config, debug) \<Rightarrow>
        if c = CHR ''h'' then Inl (Exit 0)
        else if c = CHR ''d'' then
          bind_result (set_debug (Some (bytes_of_string optarg)) debug) (\<lambda>(r, debug).
            if r = - 1 then Inl (Exit (- 1)) else Inr (config, debug))
        else if c = CHR ''p'' then
          bind_result (strcpy_fits BT_FILENAME_LEN optarg) (\<lambda>s. Inr (config\<lparr>peer_list_file := s\<rparr>, debug))
        else if c = CHR ''c'' then
          bind_result (strcpy_fits BT_FILENAME_LEN optarg) (\<lambda>s. Inr (config\<lparr>has_chunk_file := s\<rparr>, debug))
        else if c = CHR ''f'' then
          bind_result (strcpy_fits BT_FILENAME_LEN optarg) (\<lambda>s. Inr (config\<lparr>chunk_file := s\<rparr>, debug))
        else if c = CHR ''m'' then
          bind_result (atoi (bytes_of_string optarg)) (\<lambda>n. Inr (config\<lparr>max_conn := sint n\<rparr>, debug))
        else if c = CHR ''i'' then
          bind_result (atoi (bytes_of_string optarg)) (\<lambda>n. Inr (config\<lparr>identity := ucast n\<rparr>, debug))
        else Inl (Exit (- 1)))"

text \<open>The checks after the peer list has been read.\<close>

definition bt_check :: "peers_state \<Rightarrow> peers_state result" where
  "bt_check st =
     (case st of (config, h, free) \<Rightarrow>
        if identity config = 0 then Inl (Exit (- 1))
        else
          case bt_peer_info h (config_peers config) (sint (identity config)) of
            None \<Rightarrow> Inl (Exit (- 1))
          | Some p \<Rightarrow>
              let config = config\<lparr>myport := ntohs (sin_port (peer_addr (h p)))\<rparr>
              in if chunk_file config = [] \<or> has_chunk_file config = [] then Inl Assertion_Failed
                 else Inr (config, h, free))"

definition bt_parse_command_line ::
  "(byte list \<Rightarrow> u32 option) \<Rightarrow> peer_vars \<Rightarrow> (string \<rightharpoonup> byte list) \<Rightarrow> (char \<times> string) list \<Rightarrow>
     u32 \<Rightarrow> peers_state \<Rightarrow> (u32 \<times> peers_state) result" where
  "bt_parse_command_line gethostbyname vars disk opts debug st =
     (case st of (config, h, free) \<Rightarrow>
        bind_result (fold_result bt_option opts (config, debug)) (\<lambda>(config, debug).
        bind_result (bt_parse_peer_list gethostbyname vars disk (config, h, free)) (\<lambda>st.
        bind_result (bt_check st) (\<lambda>st. Inr (debug, st)))))"

section \<open>The peer list\<close>

text \<open>Every peer of the list is below \<open>free\<close>, once, and free.\<close>

definition peers_ok :: "peers_state \<Rightarrow> bool" where
  "peers_ok st \<longleftrightarrow> (case st of (config, h, free) \<Rightarrow>
     distinct (config_peers config) \<and>
     (\<forall>p \<in> set (config_peers config). p < free \<and> available (h p) = 1 \<and> sin_family (peer_addr (h p)) = AF_INET))"

lemma peers_ok_add: "peers_ok st \<Longrightarrow> peers_ok (add_peer i host port st)"
  by (cases st) (auto simp: peers_ok_def add_peer_def)

lemma parse_peers_ok: "parse_peers g vars inp st = Inr st' \<Longrightarrow> peers_ok st \<Longrightarrow> peers_ok st'"
proof (induction g vars inp st rule: parse_peers.induct)
  case (1 g vars inp st)
  then show ?case
    by (fastforce simp: parse_peers.simps [of g vars inp st] bind_result_eq_Inr peers_ok_add
        split: option.splits if_splits prod.splits)
qed

text \<open>The fields that the peer list leaves alone.\<close>

lemma add_peer_config: "fst (add_peer i host port st) = (fst st)\<lparr>config_peers := snd (snd st) # config_peers (fst st)\<rparr>"
  by (cases st) (simp add: add_peer_def)

text \<open>The text of one entry of the peer list, with the text in front of it if it is a comment.\<close>

definition peer_line :: "nat \<times> byte list \<times> nat \<Rightarrow> byte list" where
  "peer_line e = (case e of (i, host, port) \<Rightarrow> dec_bytes i @ 32 # host @ 32 # dec_bytes port @ [10])"

definition entry_ok :: "(byte list \<Rightarrow> u32 option) \<Rightarrow> nat \<times> byte list \<times> nat \<Rightarrow> bool" where
  "entry_ok gethostbyname e \<longleftrightarrow> (case e of (i, host, port) \<Rightarrow>
     i < 2 ^ 15 \<and> port < 2 ^ 16 \<and> host \<noteq> [] \<and> length host \<le> 200 \<and>
     (\<forall>b \<in> set host. \<not> isspace b \<and> b \<noteq> 0) \<and> gethostbyname host \<noteq> None)"

definition add_entry :: "(byte list \<Rightarrow> u32 option) \<Rightarrow> nat \<times> byte list \<times> nat \<Rightarrow> peers_state \<Rightarrow> peers_state" where
  "add_entry gethostbyname e st =
     (case e of (i, host, port) \<Rightarrow> add_peer (of_nat i) (the (gethostbyname host)) (of_nat port) st)"

lemma sscanf_peer_line:
  assumes "entry_ok g (i, host, port)" and "length vhost = BT_FILENAME_LEN"
  shows "sscanf_peer (peer_line (i, host, port)) (vi, vhost, vport) =
    Inr (3, of_nat i, host @ 0 # drop (Suc (length host)) vhost, of_nat port)"
proof -
  have h: "\<And>b. b \<in> set host \<Longrightarrow> \<not> isspace b" "host \<noteq> []" using assms(1) by (auto simp: entry_ok_def)
  have sp: "isspace 32" "isspace 10" "\<not> isdigit 32" "\<not> isdigit 10" by (simp_all add: isspace_def isdigit_def)
  have "scan_int (peer_line (i, host, port)) = Some (int i, 32 # host @ 32 # dec_bytes port @ [10])"
    unfolding peer_line_def by (simp add: scan_int_dec_bytes sp)
  moreover have "scan_word None (32 # host @ 32 # dec_bytes port @ [10]) = Some (host, 32 # dec_bytes port @ [10])"
    by (rule scan_word_spaced) (auto simp: h sp)
  moreover have "scan_int (32 # dec_bytes port @ [10]) = scan_int (dec_bytes port @ [10])"
    by (simp add: scan_int_def scan_space_def sp)
  then have "scan_int (32 # dec_bytes port @ [10]) = Some (int port, [10])"
    by (simp add: scan_int_dec_bytes sp)
  ultimately show ?thesis
    using assms int_value_nat [of i] int_value_nat [of port]
    by (simp add: sscanf_peer_def entry_ok_def mem_write_def BT_FILENAME_LEN_def)
qed

lemma fgets_peer_line:
  assumes "entry_ok g e"
  shows "fgets BT_FILENAME_LEN (peer_line e @ rest) = Some (peer_line e, rest)"
    and "c_string (peer_line e) = peer_line e" and "take 1 (peer_line e) \<noteq> [35]"
proof -
  obtain i host port where e: "e = (i, host, port)" by (cases e) auto
  let ?t = "dec_bytes i @ 32 # host @ 32 # dec_bytes port"
  have d: "b \<noteq> 10 \<and> b \<noteq> 0 \<and> b \<noteq> 35" if "b \<in> set (dec_bytes n)" for b n
    using dec_bytes_digits [OF that] by (auto simp: isdigit_def word_le_nat_alt)
  have no: "10 \<notin> set ?t" "0 \<notin> set ?t"
    using assms d by (fastforce simp: e entry_ok_def isspace_def)+
  have "i < 10 ^ 5" "port < 10 ^ 5" using assms by (simp_all add: e entry_ok_def)
  then have "length (dec_bytes i) \<le> 5" "length (dec_bytes port) \<le> 5" by (simp_all add: length_dec_bytes)
  then have "length ?t + 1 < BT_FILENAME_LEN" using assms by (simp add: e entry_ok_def BT_FILENAME_LEN_def)
  from fgets_line [OF no(1) this] show "fgets BT_FILENAME_LEN (peer_line e @ rest) = Some (peer_line e, rest)"
    by (simp add: e peer_line_def)
  show "c_string (peer_line e) = peer_line e"
    using no(2) by (auto simp: e c_string_def peer_line_def takeWhile_eq_all_conv)
  obtain b bs where "dec_bytes i = b # bs" using dec_bytes_nonempty [of i] by (meson neq_Nil_conv)
  then show "take 1 (peer_line e) \<noteq> [35]" using d [of b i] by (auto simp: e peer_line_def)
qed

lemma parse_peers_text:
  assumes "\<And>e. e \<in> set es \<Longrightarrow> entry_ok g e" and "length (fst (snd vars)) = BT_FILENAME_LEN"
  shows "parse_peers g vars (concat (map peer_line es)) st = Inr (fold (add_entry g) es st)"
  using assms
proof (induction es arbitrary: vars st)
  case Nil
  then show ?case by (simp add: parse_peers.simps)
next
  case (Cons e es)
  obtain i host port where e: "e = (i, host, port)" by (cases e) auto
  have ok: "entry_ok g e" using Cons.prems by simp
  let ?h = "host @ 0 # drop (Suc (length host)) (fst (snd vars))"
  have scan: "sscanf_peer (peer_line e) vars = Inr (3, of_nat i, ?h, of_nat port)"
    using sscanf_peer_line [of g i host port "fst (snd vars)" "fst vars" "snd (snd vars)"] ok Cons.prems(2) by (simp add: e)
  have "length ?h = BT_FILENAME_LEN"
    using ok Cons.prems(2) by (simp add: e entry_ok_def BT_FILENAME_LEN_def)
  then have IH: "parse_peers g (of_nat i, ?h, of_nat port) (concat (map peer_line es)) st' = Inr (fold (add_entry g) es st')" for st'
    using Cons.IH [of "(of_nat i, ?h, of_nat port)" st'] Cons.prems(1) by simp
  have name: "c_string ?h = host"
    using ok by (subst c_string_def) (subst takeWhile_append2, auto simp: e entry_ok_def)
  obtain a where "g host = Some a" using ok by (auto simp: e entry_ok_def)
  then show ?case
    using fgets_peer_line [OF ok] scan IH name
    by (simp add: parse_peers.simps [of g vars] add_entry_def [of g "(i, host, port)"] e)
qed

section \<open>The command line\<close>

lemma bt_option_peers: "bt_option opt (config, debug) = Inr (config', debug') \<Longrightarrow> config_peers config' = config_peers config"
  by (auto simp: bt_option_def result_simps split: prod.splits if_splits)

lemma bt_options_peers:
  "fold_result bt_option opts (config, debug) = Inr (config', debug') \<Longrightarrow> config_peers config' = config_peers config"
proof (induction opts arbitrary: config debug)
  case (Cons opt opts)
  then obtain c d where "bt_option opt (config, debug) = Inr (c, d)" "fold_result bt_option opts (c, d) = Inr (config', debug')"
    by (auto simp: bind_result_eq_Inr)
  then show ?case using Cons.IH bt_option_peers by metis
qed simp

lemma sint_inject_short: "sint (a :: 16 word) = sint b \<longleftrightarrow> a = b"
  by (auto intro: signed_word_eqI)

lemma unat_short: "n < 2 ^ 16 \<Longrightarrow> unat (ucast (of_nat n :: u32) :: u16) = n"
  by (simp add: unsigned_ucast_eq unsigned_of_nat take_bit_eq_mod)

lemma add_entries_result:
  assumes "fold (add_entry g) es (config, h, free) = (config', h', free')"
    and "\<And>e. e \<in> set es \<Longrightarrow> entry_ok g e"
  shows "free' = free + length es \<and> config' = config\<lparr>config_peers := rev [free..<free + length es] @ config_peers config\<rparr> \<and>
    map (\<lambda>p. (unat (peer_id (h' p)), sin_addr (peer_addr (h' p)), unat (ntohs (sin_port (peer_addr (h' p))))))
           [free..<free + length es] = map (\<lambda>(i, host, port). (i, the (g host), port)) es"
  using assms
proof (induction es arbitrary: config' h' free' rule: rev_induct)
  case (snoc e es)
  obtain i host port where e: "e = (i, host, port)" by (cases e) auto
  obtain c1 h1 f1 where v: "fold (add_entry g) es (config, h, free) = (c1, h1, f1)" by (cases "fold (add_entry g) es (config, h, free)") auto
  have IH: "f1 = free + length es" "c1 = config\<lparr>config_peers := rev [free..<free + length es] @ config_peers config\<rparr>"
    "map (\<lambda>p. (unat (peer_id (h1 p)), sin_addr (peer_addr (h1 p)), unat (ntohs (sin_port (peer_addr (h1 p))))))
           [free..<free + length es] = map (\<lambda>(i, host, port). (i, the (g host), port)) es"
    using snoc.IH [OF v] snoc.prems(2) by auto
  have r: "(config', h', free') = add_entry g e (c1, h1, f1)" using snoc.prems(1) v by simp
  have ok: "i < 2 ^ 15" "port < 2 ^ 16" using snoc.prems(2) [of e] by (auto simp: e entry_ok_def)
  let ?n = "\<lparr>peer_timer = 0, peer_id = ucast (of_nat i :: u32), available = 1, peer_timeout_count = 0,
      peer_addr = \<lparr>sin_family = AF_INET, sin_port = htons (ucast (of_nat port :: u32)), sin_addr = the (g host)\<rparr>\<rparr>"
  have h': "h' = h1(f1 := ?n)" using r by (simp add: e add_entry_def add_peer_def)
  let ?f = "\<lambda>h p. (unat (peer_id (h p)), sin_addr (peer_addr (h p)), unat (ntohs (sin_port (peer_addr (h p)))))"
  have "map (?f h') [free..<free + length es] = map (?f h1) [free..<free + length es]"
    by (rule map_cong [OF refl]) (auto simp: h' IH(1))
  then have old: "map (?f h') [free..<free + length es] = map (\<lambda>(i, host, port). (i, the (g host), port)) es"
    using IH(3) by (rule trans)
  have new: "?f h' f1 = (i, the (g host), port)"
    using ok unat_short [of i] unat_short [of port] by (simp add: h')
  have "[free..<free + length (es @ [e])] = [free..<free + length es] @ [f1]" by (simp add: IH(1))
  then have m: "map (?f h') [free..<free + length (es @ [e])] = map (\<lambda>(i, host, port). (i, the (g host), port)) (es @ [e])"
    by (simp only: map_append list.map old new e prod.case)
  show ?case using r IH(1,2) m by (simp add: e add_entry_def add_peer_def)
qed auto

section \<open>Properties\<close>

text \<open>The heap of peers before the peer list is read.\<close>

definition no_peers :: peer_heap where
  "no_peers = (\<lambda>_. \<lparr>peer_timer = 0, peer_id = 0, available = 0, peer_timeout_count = 0,
     peer_addr = \<lparr>sin_family = 0, sin_port = 0, sin_addr = 0\<rparr>\<rparr>)"

text \<open>
  A peer list file with one line for each peer (identity, host name, port) is read
  completely: no line is lost or invented, the last line comes first in the list, and each peer has the
  identity of its line, the address its host name resolves to and its port, in network byte order.
\<close>

lemma peer_list_is_read:
  assumes "disk (peer_list_file config) = Some (concat (map peer_line es))"
    and "\<And>e. e \<in> set es \<Longrightarrow> entry_ok gethostbyname e" and "length (fst (snd vars)) = BT_FILENAME_LEN"
  shows "\<exists>h'. bt_parse_peer_list gethostbyname vars disk (config, h, free) =
      Inr (config\<lparr>config_peers := rev [free..<free + length es] @ config_peers config\<rparr>, h', free + length es) \<and>
    map (\<lambda>p. (unat (peer_id (h' p)), sin_addr (peer_addr (h' p)), unat (ntohs (sin_port (peer_addr (h' p))))))
      [free..<free + length es] = map (\<lambda>(i, host, port). (i, the (gethostbyname host), port)) es"
proof -
  obtain c' h' f' where r: "fold (add_entry gethostbyname) es (config, h, free) = (c', h', f')"
    by (cases "fold (add_entry gethostbyname) es (config, h, free)") auto
  show ?thesis
    using add_entries_result [OF r] parse_peers_text [of es gethostbyname vars "(config, h, free)"] assms r
    by (auto simp: bt_parse_peer_list_def)
qed

text \<open>
  Claim C28. A peer that gets past \<open>bt_parse_command_line\<close>, started with whatever defaults for its
  identity and its chunk files, has a usable configuration: its identity is not zero and occurs in the
  peer list, it will listen on the port of that entry, both chunk files are named, and every peer of
  the list is allocated, occurs once and is free for a transfer.
\<close>

theorem configuration_is_consistent:
  assumes "bt_parse_command_line gethostbyname vars disk opts debug
      (bt_init\<lparr>identity := i, chunk_file := f, has_chunk_file := g\<rparr>, h, free) = Inr (debug', config, h', free')"
  shows "identity config \<noteq> 0 \<and> chunk_file config \<noteq> [] \<and> has_chunk_file config \<noteq> [] \<and>
    (\<exists>p \<in> set (config_peers config). peer_id (h' p) = identity config \<and> myport config = ntohs (sin_port (peer_addr (h' p)))) \<and>
    distinct (config_peers config) \<and> (\<forall>p \<in> set (config_peers config). p < free' \<and> available (h' p) = 1)"
proof -
  from assms obtain c d st where o: "fold_result bt_option opts (bt_init\<lparr>identity := i, chunk_file := f, has_chunk_file := g\<rparr>, debug) = Inr (c, d)"
    and l: "bt_parse_peer_list gethostbyname vars disk (c, h, free) = Inr st" and k: "bt_check st = Inr (config, h', free')"
    by (auto simp: bt_parse_command_line_def bind_result_eq_Inr)
  have "peers_ok (c, h, free)" using bt_options_peers [OF o] by (simp add: peers_ok_def bt_init_def)
  then have "peers_ok st" using l parse_peers_ok by (auto simp: bt_parse_peer_list_def split: option.splits)
  moreover obtain c1 where st: "st = (c1, h', free')" and same: "config_peers config = config_peers c1"
    using k by (auto simp: bt_check_def Let_def split: prod.splits if_splits option.splits)
  ultimately have ok: "peers_ok (config, h', free')" by (simp add: peers_ok_def)
  from k obtain p where p: "find (\<lambda>p. sint (peer_id (h' p)) = sint (identity config)) (config_peers config) = Some p"
    and rest: "myport config = ntohs (sin_port (peer_addr (h' p)))" "identity config \<noteq> 0" "chunk_file config \<noteq> []" "has_chunk_file config \<noteq> []"
    by (auto simp: bt_check_def Let_def bt_peer_info_find st split: if_splits option.splits)
  have "p \<in> set (config_peers config)" "sint (peer_id (h' p)) = sint (identity config)"
    using p by (auto simp: find_Some_iff)
  with ok rest show ?thesis by (auto simp: peers_ok_def sint_inject_short)
qed

theorem configuration_is_consistent_witness:
  "\<exists>debug' config h' free'. bt_parse_command_line (\<lambda>_. Some 0x0100007f) (0, replicate 255 0, 0)
       [''nodes.map'' \<mapsto> peer_line (1, [97], 5000)] [(CHR ''i'', ''1''), (CHR ''c'', ''has''), (CHR ''f'', ''master'')] 0
       (bt_init\<lparr>identity := 0, chunk_file := ''chunkfile'', has_chunk_file := ''haschunks''\<rparr>, no_peers, 0) = Inr (debug', config, h', free') \<and> identity config = 1 \<and> identity config \<noteq> 0 \<and> myport config = 5000"
proof -
  have one: "atoi (bytes_of_string ''1'') = Inr 1"
    by (simp add: atoi_def scan_int_def scan_space_def isspace_def isdigit_def bytes_of_string_def digits_value_def int_value_def Let_def)
  have ok: "entry_ok (\<lambda>_. Some 0x0100007f) e" if "e \<in> set [(1, [97], 5000)]" for e
    using that by (auto simp: entry_ok_def isspace_def)
  have "\<exists>debug' config h' free'. bt_parse_command_line (\<lambda>_. Some 0x0100007f) (0, replicate 255 0, 0)
       [''nodes.map'' \<mapsto> peer_line (1, [97], 5000)] [(CHR ''i'', ''1''), (CHR ''c'', ''has''), (CHR ''f'', ''master'')] 0
       (bt_init\<lparr>identity := 0, chunk_file := ''chunkfile'', has_chunk_file := ''haschunks''\<rparr>, no_peers, 0) = Inr (debug', config, h', free') \<and> identity config = 1 \<and> myport config = 5000"
    using parse_peers_text [of "[(1, [97], 5000)]" "\<lambda>_. Some 0x0100007f" "(0, replicate 255 0, 0)", OF ok]
    by (simp add: bt_parse_command_line_def bt_option_def one strcpy_fits_def BT_FILENAME_LEN_def bt_init_def
        bt_parse_peer_list_def add_entry_def add_peer_def bt_check_def)
  then show ?thesis using configuration_is_consistent by fast
qed

end
