(* ===== verification/Spiffy.thy ===== *)
theory Spiffy
  imports Configuration
begin

text \<open>
  The layer below the packets, \<^verbatim>\<open>src/code/spiffy.c\<close>: when the environment names a router,
  each datagram goes to the router with a header of 16 bytes in front, and the receiver takes the
  sender's address from that header.

  The operating system is a parameter: \<open>sendto\<close> gives the return value of the call, \<open>inet_aton\<close> parses a
  dotted address, and what \<open>recvfrom\<close> delivers is the source and the bytes of a datagram, or \<open>None\<close> for
  an error. A call of \<open>spiffy_sendto\<close> returns the datagrams it hands to the system. \<open>malloc\<close> succeeds,
  and the content of a new allocation is a parameter.
\<close>

section \<open>The code\<close>

record spiffy_header =
  hID :: u32
  lSrcAddr :: u32
  lDestAddr :: u32
  lSrcPort :: u16
  lDestPort :: u16

text \<open>The object representation of the structure, which has no padding, and its inverse.\<close>

definition header_image :: "spiffy_header \<Rightarrow> byte list" where
  "header_image h = bytes_of_u32 (hID h) @ bytes_of_u32 (lSrcAddr h) @ bytes_of_u32 (lDestAddr h) @
     bytes_of_u16 (lSrcPort h) @ bytes_of_u16 (lDestPort h)"

definition header_of_image :: "byte list \<Rightarrow> spiffy_header" where
  "header_of_image b = \<lparr>hID = u32_of_bytes (take 4 b), lSrcAddr = u32_of_bytes (take 4 (drop 4 b)),
     lDestAddr = u32_of_bytes (take 4 (drop 8 b)), lSrcPort = u16_of_bytes (take 2 (drop 12 b)),
     lDestPort = u16_of_bytes (take 2 (drop 14 b))\<rparr>"

definition HEADER_SIZE :: nat where "HEADER_SIZE = 16"

text \<open>The globals; \<open>long\<close> has 64 bits.\<close>

record spiffy =
  giSpiffyEnabled :: bool
  glNodeID :: u64
  glSrcAddr :: u64
  gsSrcPort :: u16
  gsSpiffyRouter :: sockaddr_in

definition spiffy_sendto ::
  "(sockaddr_in \<Rightarrow> byte list \<Rightarrow> int) \<Rightarrow> spiffy \<Rightarrow> byte list \<Rightarrow> sockaddr_in \<Rightarrow> int \<times> (sockaddr_in \<times> byte list) list" where
  "spiffy_sendto sendto st msg dest =
     (if \<not> giSpiffyEnabled st then (sendto dest msg, [(dest, msg)])
      else if sin_family dest = AF_INET then
        let s_head = \<lparr>hID = htonl (ucast (glNodeID st)), lSrcAddr = ucast (glSrcAddr st), lDestAddr = sin_addr dest,
              lSrcPort = gsSrcPort st, lDestPort = sin_port dest\<rparr>;
            newbuf = header_image s_head @ msg;
            retVal = sendto (gsSpiffyRouter st) newbuf
        in (if 0 < retVal then retVal - int HEADER_SIZE else retVal, [(gsSpiffyRouter st, newbuf)])
      else (- 1, []))"

text \<open>The bytes \<open>recvfrom\<close> stores over the start of an array.\<close>

definition overlay :: "byte list \<Rightarrow> byte list \<Rightarrow> byte list" where
  "overlay data buf = take (length buf) data @ drop (length data) buf"

text \<open>
  The return value, the caller's buffer and the address. \<open>newbuf\<close> is the fresh allocation, of
  \<open>HEADER_SIZE\<close> bytes more than the buffer; all of the buffer is copied from it, however short the
  datagram.
\<close>

definition spiffy_recvfrom ::
  "spiffy \<Rightarrow> byte list \<Rightarrow> (sockaddr_in \<times> byte list) option \<Rightarrow> byte list \<Rightarrow> sockaddr_in \<Rightarrow>
     (int \<times> byte list \<times> sockaddr_in) result" where
  "spiffy_recvfrom st newbuf incoming buffer addr =
     (if \<not> giSpiffyEnabled st then
        case incoming of
          None \<Rightarrow> Inr (- 1, buffer, addr)
        | Some (src, data) \<Rightarrow> Inr (int (min (length data) (length buffer)), overlay data buffer, src)
      else
        case incoming of
          None \<Rightarrow> Inr (- 1, buffer, addr)
        | Some (src, data) \<Rightarrow>
            let newbuf = overlay data newbuf;
                retVal = int (min (length data) (length newbuf))
            in if 0 < retVal then
                 bind_result (mem_read newbuf 0 HEADER_SIZE) (\<lambda>image.
                 bind_result (mem_read newbuf HEADER_SIZE (length buffer)) (\<lambda>buffer.
                   let s_head = header_of_image image
                   in Inr (retVal - int HEADER_SIZE, buffer,
                        addr\<lparr>sin_family := AF_INET, sin_addr := lSrcAddr s_head, sin_port := lSrcPort s_head\<rparr>)))
               else Inr (retVal, buffer, addr))"

text \<open>
  The environment variable is split at its first colon; the port is stored before the address is checked.
  The C function splits it by writing a NUL over the colon in the environment itself; the environment
  is not part of the state, so the model is the first call in a process, the only one the program makes.
\<close>

definition spiffy_init ::
  "(byte list \<Rightarrow> u32 option) \<Rightarrow> byte list option \<Rightarrow> u64 \<Rightarrow> sockaddr_in \<Rightarrow> spiffy \<Rightarrow> (int \<times> spiffy) result" where
  "spiffy_init inet_aton env lNodeID addr st =
     (case env of
        None \<Rightarrow> Inr (1, st)
      | Some cSpiffyName \<Rightarrow>
          if 58 \<notin> set cSpiffyName then Inr (- 1, st)
          else
            let name = takeWhile (\<lambda>b. b \<noteq> 58) cSpiffyName;
                port = drop (Suc (length name)) cSpiffyName
            in bind_result (atoi port) (\<lambda>p.
                 let st = st\<lparr>gsSpiffyRouter := (gsSpiffyRouter st)\<lparr>sin_port := htons (ucast p)\<rparr>\<rparr>
                 in case inet_aton name of
                      None \<Rightarrow> Inr (- 1, st)
                    | Some a \<Rightarrow>
                        Inr (0, st\<lparr>gsSpiffyRouter := (gsSpiffyRouter st)\<lparr>sin_addr := a\<rparr>, giSpiffyEnabled := True,
                          glNodeID := lNodeID, glSrcAddr := ucast (sin_addr addr), gsSrcPort := sin_port addr\<rparr>)))"

section \<open>The header\<close>

lemma length_header_image [simp]: "length (header_image h) = HEADER_SIZE"
  by (simp add: header_image_def HEADER_SIZE_def bytes_of_u32_def bytes_of_u16_def)

lemma header_roundtrip: "header_of_image (header_image h) = h"
proof -
  have len: "length (bytes_of_u32 x) = 4" "length (bytes_of_u16 y) = 2" for x y
    by (simp_all add: bytes_of_u32_def bytes_of_u16_def)
  show ?thesis by (cases h) (simp add: header_of_image_def header_image_def len)
qed

lemma ucast_addr: "ucast (ucast (a :: u32) :: u64) = a"
  by (rule bit_word_eqI) (auto simp: bit_simps)

lemma spiffy_init_enabled:
  assumes "spiffy_init inet_aton env node addr st = Inr (0, st')"
  shows "giSpiffyEnabled st'" "ucast (glSrcAddr st') = sin_addr addr" "gsSrcPort st' = sin_port addr" "glNodeID st' = node"
    "sin_family (gsSpiffyRouter st') = sin_family (gsSpiffyRouter st)"
  using assms by (auto simp: spiffy_init_def Let_def bind_result_eq_Inr ucast_addr split: option.splits if_splits)

lemma spiffy_recvfrom_header:
  assumes "giSpiffyEnabled st" and "length msg \<le> length buffer" and "length newbuf = length buffer + HEADER_SIZE"
  shows "spiffy_recvfrom st newbuf (Some (src, header_image h @ msg)) buffer addr =
    Inr (int (length msg), msg @ drop (HEADER_SIZE + length msg) newbuf,
      addr\<lparr>sin_family := AF_INET, sin_addr := lSrcAddr h, sin_port := lSrcPort h\<rparr>)"
proof -
  have pos: "0 < HEADER_SIZE" by (simp add: HEADER_SIZE_def)
  then have ne: "header_image h \<noteq> []" using length_header_image [of h] by (metis list.size(3) less_irrefl)
  have over: "overlay (header_image h @ msg) newbuf = header_image h @ msg @ drop (HEADER_SIZE + length msg) newbuf"
    using assms(2,3) by (simp add: overlay_def)
  show ?thesis
    using assms pos ne by (simp add: spiffy_recvfrom_def over mem_read_def header_roundtrip Let_def)
qed

section \<open>Properties\<close>

text \<open>
  Claim C30. Encapsulation is transparent: what a peer sends through the router after a successful
  \<open>spiffy_init\<close> is received, if the router passes the datagram on, as the message itself, with its
  length, in front of a buffer that is large enough, and with the sender's own address and port as its
  source; the header names the destination and the sender's node.
\<close>

theorem spiffy_roundtrip:
  assumes "spiffy_init inet_aton env node addr st0 = Inr (0, st)" and "giSpiffyEnabled st'" and "sin_family dest = AF_INET"
    and "length msg \<le> length buffer" and "length newbuf = length buffer + HEADER_SIZE"
  shows "\<exists>d. snd (spiffy_sendto sendto st msg dest) = [(gsSpiffyRouter st, d)] \<and>
    (\<exists>rest. spiffy_recvfrom st' newbuf (Some (src, d)) buffer from =
       Inr (int (length msg), msg @ rest, \<lparr>sin_family = AF_INET, sin_port = sin_port addr, sin_addr = sin_addr addr\<rparr>)) \<and>
    lDestAddr (header_of_image (take HEADER_SIZE d)) = sin_addr dest \<and>
    lDestPort (header_of_image (take HEADER_SIZE d)) = sin_port dest \<and>
    ntohl (hID (header_of_image (take HEADER_SIZE d))) = ucast node"
proof -
  let ?h = "\<lparr>hID = htonl (ucast (glNodeID st)), lSrcAddr = ucast (glSrcAddr st), lDestAddr = sin_addr dest,
              lSrcPort = gsSrcPort st, lDestPort = sin_port dest\<rparr>"
  note init = spiffy_init_enabled [OF assms(1)]
  have "spiffy_recvfrom st' newbuf (Some (src, header_image ?h @ msg)) buffer from =
      Inr (int (length msg), msg @ drop (HEADER_SIZE + length msg) newbuf,
        \<lparr>sin_family = AF_INET, sin_port = sin_port addr, sin_addr = sin_addr addr\<rparr>)"
    using spiffy_recvfrom_header [OF assms(2,4,5), of src ?h "from"] init by (cases "from") simp
  then show ?thesis
    using init assms(3) by (simp add: spiffy_sendto_def Let_def header_roundtrip)
qed

text \<open>The globals as the program starts, and the address of a peer.\<close>

definition spiffy_start :: spiffy where
  "spiffy_start = \<lparr>giSpiffyEnabled = False, glNodeID = 0, glSrcAddr = 0, gsSrcPort = 0,
     gsSpiffyRouter = \<lparr>sin_family = 0, sin_port = 0, sin_addr = 0\<rparr>\<rparr>"

theorem spiffy_roundtrip_witness:
  "\<exists>st d rest. spiffy_init (\<lambda>_. Some 7) (Some [49, 58, 57]) 3 \<lparr>sin_family = 2, sin_port = 5, sin_addr = 6\<rparr> spiffy_start = Inr (0, st) \<and>
     snd (spiffy_sendto (\<lambda>_ _. 18) st [1, 2] \<lparr>sin_family = 2, sin_port = 8, sin_addr = 9\<rparr>) = [(gsSpiffyRouter st, d)] \<and>
     spiffy_recvfrom st (replicate 1516 0) (Some (gsSpiffyRouter st, d)) (replicate 1500 0) \<lparr>sin_family = 0, sin_port = 0, sin_addr = 0\<rparr> =
       Inr (2, [1, 2] @ rest, \<lparr>sin_family = AF_INET, sin_port = 5, sin_addr = 6\<rparr>)"
proof -
  have nine: "atoi [57] = Inr 9"
    by (simp add: atoi_def scan_int_def scan_space_def isspace_def isdigit_def digits_value_def int_value_def Let_def)
  obtain st where st: "spiffy_init (\<lambda>_. Some 7) (Some [49, 58, 57]) 3 \<lparr>sin_family = 2, sin_port = 5, sin_addr = 6\<rparr> spiffy_start = Inr (0, st)"
    by (simp add: spiffy_init_def nine)
  have "giSpiffyEnabled st" using spiffy_init_enabled(1) [OF st] .
  from spiffy_roundtrip [OF st this, of "\<lparr>sin_family = 2, sin_port = 8, sin_addr = 9\<rparr>" "[1, 2]" "replicate 1500 0" "replicate 1516 0"
      "\<lambda>_ _. 18" "gsSpiffyRouter st" "\<lparr>sin_family = 0, sin_port = 0, sin_addr = 0\<rparr>"]
  show ?thesis using st by (auto simp: AF_INET_def HEADER_SIZE_def)
qed

end
