(* ===== verification/Chunk.thy ===== *)
theory Chunk
  imports Complex_Main Bt_Parse Sha1
begin

text \<open>
  Chunks and hashes: \<^verbatim>\<open>src/code/hash.c\<close> and \<^verbatim>\<open>src/code/chunk.c\<close> with the
  structure of \<^verbatim>\<open>src/code/chunk.h\<close>.

  A C \<open>char\<close> is a byte, compared as a signed value. Comparison functions that return 1 or 0 are
  bool-valued. A file is the list of its bytes.
\<close>

section \<open>The code\<close>

definition HEX_HASH_SIZE :: nat where "HEX_HASH_SIZE = 40"
definition BIN_HASH_SIZE :: nat where "BIN_HASH_SIZE = 20"
definition BT_CHUNK_SIZE :: nat where "BT_CHUNK_SIZE = 512 * 1024"
definition DATA_SIZE :: nat where "DATA_SIZE = 1000"
definition MAX_SEQ_NUM :: nat where "MAX_SEQ_NUM = BT_CHUNK_SIZE div DATA_SIZE + 1"

lemmas chunk_consts = HEX_HASH_SIZE_def BIN_HASH_SIZE_def BT_CHUNK_SIZE_def DATA_SIZE_def
  MAX_SEQ_NUM_def

record chunk =
  chunk_id :: u32
  hex_hash :: "byte list"
  bin_hash :: "byte list"
  chunk_data :: "byte list"
  bits :: "byte list"
  bits_count :: int
  chunk_peer :: "pptr list"

text \<open>The comparison loop of \<open>hash.c\<close> over \<open>n\<close> array elements, from index \<open>i\<close> on.\<close>

function compare_from :: "nat \<Rightarrow> nat \<Rightarrow> byte list \<Rightarrow> byte list \<Rightarrow> bool" where
  "compare_from n i a b = (if i < n then (if a ! i \<noteq> b ! i then False else compare_from n (Suc i) a b)
                           else True)"
  by pat_completeness auto
termination by (relation "measure (\<lambda>(n, i, a, b). n - i)") auto

declare compare_from.simps [simp del]

definition compare_bin_hash :: "byte list \<Rightarrow> byte list \<Rightarrow> bool" where
  "compare_bin_hash a b = compare_from BIN_HASH_SIZE 0 a b"

definition compare_hex_hash :: "byte list \<Rightarrow> byte list \<Rightarrow> bool" where
  "compare_hex_hash a b = compare_from HEX_HASH_SIZE 0 a b"

definition compare_chunk_by_hex_hash :: "chunk \<Rightarrow> byte list \<Rightarrow> bool" where
  "compare_chunk_by_hex_hash c h = compare_hex_hash (hex_hash c) h"

definition compare_chunk_by_bin_hash :: "chunk \<Rightarrow> byte list \<Rightarrow> bool" where
  "compare_chunk_by_bin_hash c h = compare_bin_hash (bin_hash c) h"

text \<open>Hexadecimal text. \<open>toupper\<close> is that of the C locale.\<close>

definition toupper :: "byte \<Rightarrow> byte" where
  "toupper c = (if 0x61 \<le> c \<and> c \<le> 0x7a then c - 0x20 else c)"

definition hex2binary_digit :: "byte \<Rightarrow> byte" where
  "hex2binary_digit hex =
     (let hex = toupper hex
      in if sint hex \<le> sint (0x39 :: byte) then hex - 0x30 else hex - (0x41 - 0x0A))"

text \<open>
  The argument is the \<open>len\<close> characters at \<open>hex\<close>, the result the bytes written to \<open>buf\<close>. With an
  odd \<open>len\<close> the last turn of the loop reads one character too many.
\<close>

fun hex2binary :: "byte list \<Rightarrow> byte list result" where
  "hex2binary [] = Inr []"
| "hex2binary [x] = Inl Out_Of_Bounds"
| "hex2binary (x # y # rest) =
     bind_result (hex2binary rest)
       (\<lambda>bs. Inr (ucast (push_bit 4 (ucast (hex2binary_digit x) :: u32) OR ucast (hex2binary_digit y)) # bs))"

definition hex_char :: "byte \<Rightarrow> byte" where
  "hex_char n = (if n < 10 then 0x30 + n else 0x61 + (n - 10))"

text \<open>\<open>sprintf(hex+(i*2), "%.2x", buf[i])\<close> for each byte, and the final NUL.\<close>

definition binary2hex :: "byte list \<Rightarrow> byte list" where
  "binary2hex buf = concat (map (\<lambda>b. [hex_char (drop_bit 4 b), hex_char (b AND 15)]) buf) @ [0]"

definition shahash_from :: "SHA1Context \<Rightarrow> byte list \<Rightarrow> byte list result" where
  "shahash_from sha str =
     bind_result (SHA1Update (SHA1Init sha) str)
       (\<lambda>sha1. bind_result (SHA1Final sha1) (\<lambda>r. Inr (snd r)))"

text \<open>
  \<open>shahash\<close> works on an uninitialised local context. The lemma \<open>shahash_any_stack\<close> below shows
  that its content does not matter, so the model starts from a zero buffer.
\<close>

definition stack_context :: SHA1Context where
  "stack_context = \<lparr>totalLength = 0, sha_hash = [], bufferLength = 0, sha_buffer = replicate 64 0\<rparr>"

definition shahash :: "byte list \<Rightarrow> byte list result" where
  "shahash str = shahash_from stack_context str"

text \<open>\<open>calloc\<close> gives a zeroed chunk; the parameter \<open>id\<close> is a \<open>uint8_t\<close>.\<close>

definition zero_chunk :: chunk where
  "zero_chunk = \<lparr>chunk_id = 0, hex_hash = replicate (HEX_HASH_SIZE + 1) 0,
     bin_hash = replicate BIN_HASH_SIZE 0, chunk_data = replicate BT_CHUNK_SIZE 0,
     bits = replicate MAX_SEQ_NUM 0, bits_count = 0, chunk_peer = []\<rparr>"

definition create_chunk :: "byte \<Rightarrow> byte list \<Rightarrow> chunk result" where
  "create_chunk cid hash =
     bind_result (mem_read hash 0 HEX_HASH_SIZE) (\<lambda>hex.
     bind_result (hex2binary hex) (\<lambda>bin.
     bind_result (mem_write (bin_hash zero_chunk) 0 bin) (\<lambda>bh.
     bind_result (mem_write (hex_hash zero_chunk) 0 hex) (\<lambda>hh.
       Inr (zero_chunk\<lparr>chunk_id := ucast cid, bin_hash := bh, hex_hash := hh\<rparr>)))))"

fun first_available :: "peer_heap \<Rightarrow> pptr list \<Rightarrow> pptr option" where
  "first_available h [] = None"
| "first_available h (p # ps) = (if available (h p) = 1 then Some p else first_available h ps)"

definition find_first_available_peer :: "peer_heap \<Rightarrow> chunk \<Rightarrow> pptr option" where
  "find_first_available_peer h c = first_available h (chunk_peer c)"

text \<open>\<open>make_chunks\<close> reads the file chunk by chunk and stores each hash in the caller's array.\<close>

function make_chunks_loop :: "byte list \<Rightarrow> byte list list \<Rightarrow> nat \<Rightarrow> (nat \<times> byte list list) result" where
  "make_chunks_loop fp chunk_hashes numchunks =
     (if take BT_CHUNK_SIZE fp = [] then Inr (numchunks, chunk_hashes)
      else bind_result (shahash (take BT_CHUNK_SIZE fp)) (\<lambda>h.
           bind_result (array_set chunk_hashes numchunks h) (\<lambda>hs.
             make_chunks_loop (drop BT_CHUNK_SIZE fp) hs (Suc numchunks))))"
  by pat_completeness auto
termination by (relation "measure (\<lambda>(fp, hs, n). length fp)") (auto simp: BT_CHUNK_SIZE_def)

declare make_chunks_loop.simps [simp del]

definition make_chunks :: "byte list \<Rightarrow> byte list list \<Rightarrow> (nat \<times> byte list list) result" where
  "make_chunks fp chunk_hashes = make_chunks_loop fp chunk_hashes 0"

text \<open>\<open>ceil(length / BT_CHUNK_SIZE)\<close>; a file size is exact as a \<open>double\<close> below \<open>2^53\<close>.\<close>

definition numchunks :: "nat \<Rightarrow> nat" where
  "numchunks st_size = nat \<lceil>real st_size / real BT_CHUNK_SIZE\<rceil>"

section \<open>Hash comparison\<close>

lemma compare_from_iff:
  assumes "n \<le> length a" "n \<le> length b" "i \<le> n"
  shows "compare_from n i a b \<longleftrightarrow> take (n - i) (drop i a) = take (n - i) (drop i b)"
  using assms
proof (induction n i a b rule: compare_from.induct)
  case (1 n i a b)
  show ?case
  proof (cases "i < n")
    case True
    then have "take (n - i) (drop i xs) = xs ! i # take (n - Suc i) (drop (Suc i) xs)"
      if "n \<le> length xs" for xs :: "byte list"
      using that by (metis Cons_nth_drop_Suc Suc_diff_Suc order_less_le_trans take_Suc_Cons)
    with 1 True show ?thesis by (auto simp: compare_from.simps [of n i])
  next
    case False
    then have "compare_from n i a b" by (simp add: compare_from.simps)
    with False show ?thesis by simp
  qed
qed

lemma compare_bin_hash_iff:
  "length a = BIN_HASH_SIZE \<Longrightarrow> length b = BIN_HASH_SIZE \<Longrightarrow> compare_bin_hash a b \<longleftrightarrow> a = b"
  by (simp add: compare_bin_hash_def compare_from_iff)

lemma compare_hex_hash_iff:
  "HEX_HASH_SIZE \<le> length a \<Longrightarrow> HEX_HASH_SIZE \<le> length b \<Longrightarrow>
   compare_hex_hash a b \<longleftrightarrow> take HEX_HASH_SIZE a = take HEX_HASH_SIZE b"
  by (simp add: compare_hex_hash_def compare_from_iff)

lemma compare_from_refl: "a = b \<Longrightarrow> compare_from n i a b"
  by (induction n i a b rule: compare_from.induct) (subst compare_from.simps, simp)

lemma compare_bin_hash_refl [simp]: "compare_bin_hash a a"
  by (simp add: compare_bin_hash_def compare_from_refl)

section \<open>Hexadecimal text\<close>

lemma nibble_cases:
  assumes "(n :: byte) < 16"
  shows "n \<in> {0, 1, 2, 3, 4, 5, 6, 7, 8, 9, 10, 11, 12, 13, 14, 15}"
proof -
  have "unat n < 16" using assms by (simp add: word_less_nat_alt)
  then show ?thesis
    by (simp only: insert_iff empty_iff word_unat_eq_iff) (simp, presburger)
qed

lemma hex_digit_roundtrip: "n < 16 \<Longrightarrow> hex2binary_digit (hex_char n) = n"
  by (drule nibble_cases) (auto simp: hex2binary_digit_def hex_char_def toupper_def Let_def)

lemma nibbles_join:
  "ucast (push_bit 4 (ucast (drop_bit 4 b) :: u32) OR ucast (b AND 15)) = (b :: byte)"
proof -
  have m: "(15 :: byte) = mask 4" by (simp add: mask_eq_exp_minus_1)
  show ?thesis unfolding m by (rule bit_word_eqI) (auto simp: bit_simps)
qed

lemma nibble_bounds: "drop_bit 4 (b :: byte) < 16" "(b :: byte) AND 15 < 16"
proof -
  have "unat b < 256" using unsigned_less [of b] by simp
  then have "unat (drop_bit 4 b) < 16"
    by (simp only: unat_drop_bit_eq) (simp add: drop_bit_eq_div)
  then show "drop_bit 4 b < 16" by (simp add: word_less_nat_alt)
  have "b AND 15 \<le> 15" by (rule word_and_le1)
  moreover have "(15 :: byte) < 16" by simp
  ultimately show "b AND 15 < 16" by (rule le_less_trans)
qed

lemma hex2binary_binary2hex: "hex2binary (butlast (binary2hex bs)) = Inr bs"
  by (induction bs) (simp_all add: binary2hex_def hex_digit_roundtrip nibble_bounds nibbles_join)

lemma length_binary2hex: "length (binary2hex bs) = 2 * length bs + 1"
  by (induction bs) (simp_all add: binary2hex_def)

lemma length_hex2binary: "hex2binary hex = Inr bs \<Longrightarrow> length hex = 2 * length bs"
  by (induction hex arbitrary: bs rule: hex2binary.induct) (auto simp: result_simps)

lemma hex2binary_even: "even (length hex) \<Longrightarrow> \<exists>bs. hex2binary hex = Inr bs"
  by (induction hex rule: hex2binary.induct) (auto simp: result_simps)


section \<open>Hashing\<close>

lemma shahash_from_fips:
  "length (sha_buffer sc) = 64 \<Longrightarrow> shahash_from sc m = Inr (fips_sha1 m)"
  using SHA1Update_absorbed [OF absorbed_init [of sc], of m] SHA1Final_absorbed
  by (fastforce simp: shahash_from_def)

lemma shahash_any_stack: "length (sha_buffer sc) = 64 \<Longrightarrow> shahash_from sc m = shahash m"
  by (simp add: shahash_def shahash_from_fips stack_context_def)

lemma shahash_fips: "shahash m = Inr (fips_sha1 m)"
  by (simp add: shahash_def shahash_from_fips stack_context_def)

lemma length_fips_sha1: "length (fips_sha1 m) = BIN_HASH_SIZE"
proof -
  have "length (concat (map put_u32 ws)) = 4 * length ws" for ws by (induction ws) auto
  then show ?thesis by (simp add: fips_sha1_def fips_hash_length fips_H0_def BIN_HASH_SIZE_def)
qed

text \<open>The pieces of a file as \<open>fread\<close> delivers them.\<close>

function pieces :: "byte list \<Rightarrow> byte list list" where
  "pieces f = (if f = [] then [] else take BT_CHUNK_SIZE f # pieces (drop BT_CHUNK_SIZE f))"
  by pat_completeness auto
termination by (relation "measure length") (auto simp: BT_CHUNK_SIZE_def)

declare pieces.simps [simp del]

lemma concat_pieces: "concat (pieces f) = f"
  by (induction f rule: pieces.induct) (subst pieces.simps, simp)

lemma BT_CHUNK_SIZE_pos [simp]: "0 < BT_CHUNK_SIZE" "BT_CHUNK_SIZE \<noteq> 0"
  by (simp_all add: BT_CHUNK_SIZE_def)

lemma length_pieces: "length (pieces f) = (length f + BT_CHUNK_SIZE - 1) div BT_CHUNK_SIZE"
proof (induction f rule: pieces.induct)
  case (1 f)
  show ?case
  proof (cases "f = []")
    case True
    then show ?thesis by (simp add: pieces.simps BT_CHUNK_SIZE_def)
  next
    case False
    then have "length (pieces f) = Suc ((length f - BT_CHUNK_SIZE + BT_CHUNK_SIZE - 1) div BT_CHUNK_SIZE)"
      using 1 by (subst pieces.simps) simp
    also have "\<dots> = (length f + BT_CHUNK_SIZE - 1) div BT_CHUNK_SIZE"
    proof (cases "BT_CHUNK_SIZE \<le> length f")
      case True
      then have "length f + BT_CHUNK_SIZE - 1 = (length f - BT_CHUNK_SIZE + BT_CHUNK_SIZE - 1) + BT_CHUNK_SIZE"
        by simp
      then show ?thesis by (simp add: BT_CHUNK_SIZE_def)
    next
      case small: False
      then have "(length f + BT_CHUNK_SIZE - 1) div BT_CHUNK_SIZE = 1"
        using \<open>f \<noteq> []\<close> by (intro div_nat_eqI) (auto simp: BT_CHUNK_SIZE_def Suc_le_eq)
      then show ?thesis using small by (simp add: BT_CHUNK_SIZE_def)
    qed
    finally show ?thesis .
  qed
qed

lemma numchunks_pieces: "numchunks (length f) = length (pieces f)"
proof -
  let ?q = "(length f + BT_CHUNK_SIZE - 1) div BT_CHUNK_SIZE"
  have "length f \<le> 524288 * ?q" and "524288 * ?q < length f + 524288"
    unfolding BT_CHUNK_SIZE_def by simp_all
  then have "real (length f) \<le> 524288 * real ?q" and "524288 * real ?q < real (length f) + 524288"
    by linarith+
  then have "\<lceil>real (length f) / 524288\<rceil> = int ?q"
    by (intro ceiling_unique) (simp_all add: field_simps)
  then show ?thesis by (simp add: numchunks_def length_pieces BT_CHUNK_SIZE_def)
qed

lemma make_chunks_loop_pieces:
  assumes "n + length (pieces f) \<le> length hs"
  shows "make_chunks_loop f hs n =
           Inr (n + length (pieces f),
                take n hs @ map fips_sha1 (pieces f) @ drop (n + length (pieces f)) hs)"
  using assms
proof (induction f arbitrary: hs n rule: pieces.induct)
  case (1 f)
  show ?case
  proof (cases "f = []")
    case True
    then show ?thesis by (simp add: make_chunks_loop.simps pieces.simps)
  next
    case False
    let ?h = "fips_sha1 (take BT_CHUNK_SIZE f)"
    have p: "pieces f = take BT_CHUNK_SIZE f # pieces (drop BT_CHUNK_SIZE f)"
      using False by (simp add: pieces.simps [of f])
    with "1.prems" have n: "n < length hs" by simp
    have "make_chunks_loop f hs n = make_chunks_loop (drop BT_CHUNK_SIZE f) (hs[n := ?h]) (Suc n)"
      using False n by (subst make_chunks_loop.simps) (simp add: shahash_fips array_set_def)
    also have "\<dots> = Inr (Suc n + length (pieces (drop BT_CHUNK_SIZE f)),
        take (Suc n) (hs[n := ?h]) @ map fips_sha1 (pieces (drop BT_CHUNK_SIZE f)) @
        drop (Suc n + length (pieces (drop BT_CHUNK_SIZE f))) (hs[n := ?h]))"
      using "1.prems" False p by (intro "1.IH") auto
    finally show ?thesis using n by (simp add: p take_Suc_conv_app_nth)
  qed
qed

section \<open>Properties\<close>


text \<open>
  Claim C15. \<open>shahash\<close> computes SHA-1 as the standard defines it, whatever its uninitialised local
  context held before.
\<close>

theorem shahash_is_sha1:
  assumes "length (sha_buffer sc) = 64"
  shows "shahash_from sc m = Inr (fips_sha1 m)"
  using assms by (rule shahash_from_fips)

theorem shahash_is_sha1_witness:
  "shahash_from \<lparr>totalLength = 1, sha_hash = [5], bufferLength = 3, sha_buffer = replicate 64 170\<rparr> [97, 98, 99] =
     Inr (fips_sha1 [97, 98, 99])"
  using shahash_is_sha1 [of "\<lparr>totalLength = 1, sha_hash = [5], bufferLength = 3, sha_buffer = replicate 64 170\<rparr>"]
  by simp

text \<open>
  The hexadecimal text that \<open>binary2hex\<close> writes, without its final NUL, is twice as long as
  the bytes and \<open>hex2binary\<close> reads it back to the same bytes.
\<close>

lemma hex_roundtrip:
  "hex2binary (butlast (binary2hex bs)) = Inr bs \<and> length (butlast (binary2hex bs)) = 2 * length bs"
  using hex2binary_binary2hex by (simp add: length_binary2hex)

text \<open>
  Two hashes are equal for \<open>compare_bin_hash\<close> exactly if they are the same 20 bytes, and
  for \<open>compare_hex_hash\<close> exactly if their first 40 characters agree.
\<close>

lemma hash_comparison:
  assumes "length a = BIN_HASH_SIZE" and "length b = BIN_HASH_SIZE"
    and "HEX_HASH_SIZE \<le> length x" and "HEX_HASH_SIZE \<le> length y"
  shows "(compare_bin_hash a b \<longleftrightarrow> a = b) \<and>
         (compare_hex_hash x y \<longleftrightarrow> take HEX_HASH_SIZE x = take HEX_HASH_SIZE y)"
  using assms by (simp add: compare_bin_hash_iff compare_hex_hash_iff)

text \<open>
  \<open>make_chunks\<close> cuts a file into pieces of 512 KiB, the last one possibly shorter, and
  stores the SHA-1 hash of each piece, in order; with an array of \<open>numchunks\<close> elements it never
  writes out of bounds and returns that number.
\<close>

lemma make_chunks_hashes:
  assumes "length hashes = numchunks (length f)"
  shows "make_chunks f hashes = Inr (numchunks (length f), map fips_sha1 (pieces f)) \<and>
         concat (pieces f) = f"
  using make_chunks_loop_pieces [of 0 f hashes] assms numchunks_pieces [of f]
  by (simp add: make_chunks_def concat_pieces)

text \<open>
  \<open>create_chunk\<close> keeps the low eight bits of the chunk number only: the numbers of two
  chunks that lie 256 apart are the same afterwards.
\<close>

lemma create_chunk_truncates:
  fixes cid :: u32
  assumes "length hash = HEX_HASH_SIZE"
  shows "\<exists>c d. create_chunk (ucast cid) hash = Inr c \<and> create_chunk (ucast (cid + 256)) hash = Inr d \<and>
           chunk_id c = chunk_id d \<and> unat (chunk_id c) = unat cid mod 256"
proof -
  obtain bin where bin: "hex2binary hash = Inr bin"
    using hex2binary_even [of hash] assms by (auto simp: chunk_consts)
  then have "length bin = BIN_HASH_SIZE" using length_hex2binary assms by (fastforce simp: chunk_consts)
  then have mk: "\<exists>c. create_chunk i hash = Inr c \<and> chunk_id c = ucast i" for i
    using bin assms by (simp add: create_chunk_def mem_read_def mem_write_def zero_chunk_def chunk_consts)
  have "(ucast (cid + 256) :: byte) = ucast cid" 
    by (simp add: word_unat_eq_iff unsigned_ucast_eq take_bit_eq_mod unat_word_ariths mod_mod_cancel)
  moreover have "unat (ucast (ucast cid :: byte) :: u32) = unat cid mod 256"
    by (simp add: unsigned_ucast_eq take_bit_eq_mod unat_mod)
  ultimately show ?thesis using mk [of "ucast cid"] mk [of "ucast (cid + 256)"] by auto
qed

end
