(* ===== verification/Packet.thy ===== *)
theory Packet
  imports Chunk
begin

text \<open>
  The packet structure of \<^verbatim>\<open>src/code/packet.h\<close> and its conversion to and from the bytes of a
  datagram in \<^verbatim>\<open>src/code/packet.c\<close>.

  An allocation of \<open>n\<close> bytes is a list of length \<open>n\<close>; a write past its end is a fault, and so is a
  read past the end of the receive buffer or a copy past the end of the arrays of the structure.
\<close>

section \<open>The code\<close>

definition MAGIC_NUM :: u16 where "MAGIC_NUM = 15441"
definition VER_NUM :: byte where "VER_NUM = 1"
definition MAX_PACKET_SIZE :: nat where "MAX_PACKET_SIZE = 1500"
definition STANDARD_HEADER_LEN :: nat where "STANDARD_HEADER_LEN = 16"
definition HEADER_PAD_LEN :: nat where "HEADER_PAD_LEN = 4"
definition MAX_PAYLOAD_SIZE :: nat where
  "MAX_PAYLOAD_SIZE = MAX_PACKET_SIZE - STANDARD_HEADER_LEN - HEADER_PAD_LEN"
definition MAX_HASH_IN_PACKET :: nat where "MAX_HASH_IN_PACKET = MAX_PAYLOAD_SIZE div BIN_HASH_SIZE"

lemmas packet_consts = MAX_PACKET_SIZE_def STANDARD_HEADER_LEN_def HEADER_PAD_LEN_def
  MAX_PAYLOAD_SIZE_def MAX_HASH_IN_PACKET_def

text \<open>The enumeration, and the other values a byte read from the network can give the field.\<close>

datatype packet_type = WHOHAS | IHAVE | GET | DATA | ACK | DENIED | INVALID byte

definition type_of_byte :: "byte \<Rightarrow> packet_type" where
  "type_of_byte b =
     (if b = 0 then WHOHAS else if b = 1 then IHAVE else if b = 2 then GET
      else if b = 3 then DATA else if b = 4 then ACK else if b = 5 then DENIED else INVALID b)"

fun byte_of_type :: "packet_type \<Rightarrow> byte" where
  "byte_of_type WHOHAS = 0"
| "byte_of_type IHAVE = 1"
| "byte_of_type GET = 2"
| "byte_of_type DATA = 3"
| "byte_of_type ACK = 4"
| "byte_of_type DENIED = 5"
| "byte_of_type (INVALID b) = b"

fun packet_type_str :: "packet_type \<Rightarrow> string option" where
  "packet_type_str WHOHAS = Some ''WHOHAS''"
| "packet_type_str IHAVE = Some ''IHAVE''"
| "packet_type_str GET = Some ''GET''"
| "packet_type_str DATA = Some ''DATA''"
| "packet_type_str ACK = Some ''ACK''"
| "packet_type_str DENIED = Some ''DENIED''"
| "packet_type_str (INVALID b) = None"

record Packet =
  ptype :: packet_type
  header_len :: u16
  packet_len :: u16
  seq_num :: u32
  ack_num :: u32
  hash_num :: byte
  hash_list :: "byte list list"
  pdata :: "byte list"

definition zero_packet :: Packet where
  "zero_packet = \<lparr>ptype = WHOHAS, header_len = 0, packet_len = 0, seq_num = 0, ack_num = 0,
     hash_num = 0, hash_list = replicate MAX_HASH_IN_PACKET (replicate BIN_HASH_SIZE 0),
     pdata = replicate DATA_SIZE 0\<rparr>"

definition has_hashes :: "packet_type \<Rightarrow> bool" where
  "has_hashes t \<longleftrightarrow> t = WHOHAS \<or> t = IHAVE \<or> t = GET \<or> t = DENIED"

text \<open>\<open>memcpy\<close> with the length \<open>packet_len - header_len\<close>, an \<open>int\<close>: a negative one is a huge \<open>size_t\<close>.\<close>

definition payload_size :: "Packet \<Rightarrow> nat result" where
  "payload_size p =
     (if packet_len p < header_len p then Inl Out_Of_Bounds
      else Inr (unat (packet_len p) - unat (header_len p)))"

definition serialize_payload :: "Packet \<Rightarrow> byte list \<Rightarrow> nat \<Rightarrow> byte list result" where
  "serialize_payload p packet buffer =
     (if has_hashes (ptype p) then
        bind_result (mem_write packet buffer [hash_num p]) (\<lambda>packet.
        bind_result (mem_write packet (buffer + 1) [0]) (\<lambda>packet.
        bind_result (mem_write packet (buffer + 2) [0]) (\<lambda>packet.
        bind_result (mem_write packet (buffer + 3) [0]) (\<lambda>packet.
          fold_result
            (\<lambda>i packet. bind_result (array_get (hash_list p) i)
                          (\<lambda>hash. mem_write packet (buffer + 4 + i * BIN_HASH_SIZE) hash))
            [0..<unat (hash_num p)] packet))))
      else if ptype p = ACK then Inr packet
      else
        bind_result (payload_size p) (\<lambda>n.
        bind_result (mem_read (pdata p) 0 n) (\<lambda>bytes. mem_write packet buffer bytes)))"

definition serialize_packet :: "Packet \<Rightarrow> byte list result" where
  "serialize_packet p =
     (let packet = replicate (unat (packet_len p)) 0 in
      bind_result (mem_write packet 0 (put_u16 MAGIC_NUM)) (\<lambda>packet.
      bind_result (mem_write packet 2 [VER_NUM]) (\<lambda>packet.
      bind_result (mem_write packet 3 [byte_of_type (ptype p)]) (\<lambda>packet.
      bind_result (mem_write packet 4 (put_u16 (header_len p))) (\<lambda>packet.
      bind_result (mem_write packet 6 (put_u16 (packet_len p))) (\<lambda>packet.
      bind_result (mem_write packet 8 (put_u32 (seq_num p))) (\<lambda>packet.
      bind_result (mem_write packet 12 (put_u32 (ack_num p))) (\<lambda>packet.
        serialize_payload p packet 16))))))))"

definition deserialize_payload :: "Packet \<Rightarrow> byte list \<Rightarrow> nat \<Rightarrow> Packet result" where
  "deserialize_payload p buf off =
     (if has_hashes (ptype p) then
        bind_result (array_get buf off) (\<lambda>n.
        bind_result
          (fold_result
            (\<lambda>i hl. bind_result (mem_read buf (off + 4 + i * BIN_HASH_SIZE) BIN_HASH_SIZE)
                      (\<lambda>hash. array_set hl i hash))
            [0..<unat n] (hash_list p)) (\<lambda>hl.
          Inr (p\<lparr>hash_num := n, hash_list := hl\<rparr>)))
      else if ptype p = ACK then Inr p
      else
        bind_result (payload_size p) (\<lambda>n.
        bind_result (mem_read buf off n) (\<lambda>bytes.
        bind_result (mem_write (pdata p) 0 bytes) (\<lambda>d.
          Inr (p\<lparr>hash_num := 0, pdata := d\<rparr>)))))"

text \<open>From the version byte at position \<open>pos\<close> on; \<open>None\<close> is the \<open>NULL\<close> of a dropped packet.\<close>

definition deserialize_header :: "byte list \<Rightarrow> nat \<Rightarrow> Packet option result" where
  "deserialize_header buf pos =
     bind_result (array_get buf pos) (\<lambda>version.
       if version \<noteq> VER_NUM then Inr None
       else
         bind_result (array_get buf (pos + 1)) (\<lambda>t.
         bind_result (mem_read buf (pos + 2) 2) (\<lambda>hl.
         bind_result (mem_read buf (pos + 4) 2) (\<lambda>pl.
         bind_result (mem_read buf (pos + 6) 4) (\<lambda>sn.
         bind_result (mem_read buf (pos + 10) 4) (\<lambda>an.
           let p = zero_packet\<lparr>ptype := type_of_byte t, header_len := get_u16 hl,
                     packet_len := get_u16 pl, seq_num := get_u32 sn, ack_num := get_u32 an\<rparr>
           in bind_result (deserialize_payload p buf (unat (header_len p))) (\<lambda>p. Inr (Some p))))))))"

definition deserialize_packet :: "byte list \<Rightarrow> Packet option result" where
  "deserialize_packet buf =
     bind_result (mem_read buf 0 2) (\<lambda>magic.
       if get_u16 magic \<noteq> MAGIC_NUM then
         bind_result (mem_read buf 2 2) (\<lambda>magic.
           if get_u16 magic \<noteq> MAGIC_NUM then Inr None else deserialize_header buf 4)
       else deserialize_header buf 2)"

section \<open>The layout of a datagram\<close>

definition header_bytes :: "Packet \<Rightarrow> byte list" where
  "header_bytes p =
     put_u16 MAGIC_NUM @ [VER_NUM, byte_of_type (ptype p)] @ put_u16 (header_len p) @
     put_u16 (packet_len p) @ put_u32 (seq_num p) @ put_u32 (ack_num p)"

definition hashes_bytes :: "Packet \<Rightarrow> byte list" where
  "hashes_bytes p = [hash_num p, 0, 0, 0] @ concat (take (unat (hash_num p)) (hash_list p))"

text \<open>The structure as it is declared: array sizes are fixed by the type.\<close>

definition packet_arrays :: "Packet \<Rightarrow> bool" where
  "packet_arrays p \<longleftrightarrow>
     length (hash_list p) = MAX_HASH_IN_PACKET \<and> (\<forall>h \<in> set (hash_list p). length h = BIN_HASH_SIZE) \<and>
     length (pdata p) = DATA_SIZE"

lemma length_header_bytes [simp]: "length (header_bytes p) = 16"
  by (simp add: header_bytes_def)

lemma type_of_byte_of_type: "(\<And>b. t \<noteq> INVALID b) \<Longrightarrow> type_of_byte (byte_of_type t) = t"
  by (cases t) (auto simp: type_of_byte_def)

lemma serialize_packet_payload:
  "serialize_packet p =
     bind_result (mem_write (replicate (unat (packet_len p)) 0) 0 (header_bytes p))
       (\<lambda>packet. serialize_payload p packet 16)"
  by (simp add: serialize_packet_def Let_def mem_write_append_bind header_bytes_def)

lemma write_hashes:
  assumes "\<And>h. h \<in> set hl \<Longrightarrow> length h = BIN_HASH_SIZE" and "n \<le> length hl" and "off \<le> length a"
  shows "fold_result (\<lambda>i a. bind_result (array_get hl i) (\<lambda>h. mem_write a (off + i * BIN_HASH_SIZE) h))
           [0..<n] a = mem_write a off (concat (take n hl))"
  using assms(2)
proof (induction n)
  case 0
  then show ?case using assms(3) by (simp add: mem_write_def)
next
  case (Suc n)
  have len: "length (concat (take n hl)) = n * BIN_HASH_SIZE"
    using Suc.prems assms(1) by (intro length_concat_take) auto
  have "fold_result (\<lambda>i a. bind_result (array_get hl i) (\<lambda>h. mem_write a (off + i * BIN_HASH_SIZE) h))
           [0..<Suc n] a
      = bind_result (mem_write a off (concat (take n hl))) (\<lambda>b. mem_write b (off + length (concat (take n hl))) (hl ! n))"
    using Suc by (simp add: fold_result_snoc len array_get_def)
  then show ?case using Suc.prems by (simp add: mem_write_append take_Suc_conv_app_nth)
qed


lemma payload_header:
  assumes "mem_write a 0 (header_bytes p) = Inr b"
  shows "length b = length a" and "16 \<le> length b"
  using assms by (auto simp: result_simps)

text \<open>What \<open>serialize_packet\<close> returns for each kind of packet, and when it writes out of bounds.\<close>

lemma serialize_hashes:
  assumes "packet_arrays p" and "has_hashes (ptype p)" and "unat (hash_num p) \<le> MAX_HASH_IN_PACKET"
  shows "serialize_packet p =
           mem_write (replicate (unat (packet_len p)) 0) 0 (header_bytes p @ hashes_bytes p)"
proof -
  let ?n = "unat (hash_num p)" and ?a = "replicate (unat (packet_len p)) 0"
  have "serialize_payload p b 16 = mem_write b 16 (hashes_bytes p)"
    if "mem_write ?a 0 (header_bytes p) = Inr b" for b
  proof -
    have "serialize_payload p b 16 =
          bind_result (mem_write b 16 [hash_num p, 0, 0, 0])
            (\<lambda>b. fold_result (\<lambda>i b. bind_result (array_get (hash_list p) i)
                   (\<lambda>h. mem_write b (20 + i * BIN_HASH_SIZE) h)) [0..<?n] b)"
      using assms(2) by (simp add: serialize_payload_def mem_write_append_bind)
    also have "\<dots> = bind_result (mem_write b 16 [hash_num p, 0, 0, 0])
            (\<lambda>b. mem_write b (16 + length [hash_num p, 0, 0, 0]) (concat (take ?n (hash_list p))))"
      using assms(1,3)
      by (intro bind_result_cong) (auto simp: result_simps packet_arrays_def intro!: write_hashes)
    finally show ?thesis by (simp only: mem_write_append hashes_bytes_def)
  qed
  then have "serialize_packet p =
        bind_result (mem_write ?a 0 (header_bytes p)) (\<lambda>b. mem_write b (0 + length (header_bytes p)) (hashes_bytes p))"
    unfolding serialize_packet_payload by (intro bind_result_cong) auto
  then show ?thesis by (simp only: mem_write_append)
qed

lemma serialize_ack:
  "ptype p = ACK \<Longrightarrow> serialize_packet p = mem_write (replicate (unat (packet_len p)) 0) 0 (header_bytes p)"
  by (simp add: serialize_packet_payload serialize_payload_def has_hashes_def bind_result_def split: sum.splits)

lemma serialize_data:
  assumes "packet_arrays p" and "ptype p = DATA" and "header_len p = 16" and "16 \<le> packet_len p"
    and "unat (packet_len p) - 16 \<le> DATA_SIZE"
  shows "serialize_packet p = Inr (header_bytes p @ take (unat (packet_len p) - 16) (pdata p))"
proof -
  let ?n = "unat (packet_len p) - 16" and ?a = "replicate (unat (packet_len p)) 0"
  have ps: "payload_size p = Inr ?n" using assms(3,4) by (simp add: payload_size_def not_less)
  have n: "16 \<le> unat (packet_len p)" using assms(4) by (simp add: word_le_nat_alt)
  have d: "mem_read (pdata p) 0 ?n = Inr (take ?n (pdata p))"
    using assms(1,5) by (simp add: mem_read_def packet_arrays_def)
  have "serialize_packet p = bind_result (mem_write ?a 0 (header_bytes p))
          (\<lambda>b. mem_write b (0 + length (header_bytes p)) (take ?n (pdata p)))"
    unfolding serialize_packet_payload using assms(2) ps d
    by (intro bind_result_cong) (auto simp: serialize_payload_def has_hashes_def)
  also have "\<dots> = mem_write ?a 0 (header_bytes p @ take ?n (pdata p))"
    by (simp only: mem_write_append)
  also have "\<dots> = Inr (header_bytes p @ take ?n (pdata p))"
    using assms(1,5) n by (simp add: mem_write_zeros packet_arrays_def)
  finally show ?thesis .
qed

text \<open>
  The datagram that carries a list of hashes. It depends on what the caller assigned only, not on
  the rest of an uninitialised structure.
\<close>

definition hash_message :: "packet_type \<Rightarrow> u32 \<Rightarrow> byte list list \<Rightarrow> byte list" where
  "hash_message t seq hs =
     put_u16 MAGIC_NUM @ [VER_NUM, byte_of_type t] @ put_u16 16 @
     put_u16 (of_nat (20 + length hs * BIN_HASH_SIZE)) @ put_u32 seq @ put_u32 0 @
     [of_nat (length hs), 0, 0, 0] @ concat hs"

lemma serialize_hash_message:
  assumes p: "packet_arrays p" "has_hashes (ptype p)" "header_len p = 16" "ack_num p = 0"
    and n: "packet_len p = of_nat (20 + length hs * BIN_HASH_SIZE)" "hash_num p = of_nat (length hs)"
    and hs: "take (length hs) (hash_list p) = hs" "length hs \<le> MAX_HASH_IN_PACKET"
  shows "serialize_packet p = Inr (hash_message (ptype p) (seq_num p) hs)"
proof -
  have k: "length hs \<le> 74" using hs(2) by (simp add: packet_consts chunk_consts)
  then have un: "unat (hash_num p) = length hs" using n(2) by (simp add: unat_of_nat)
  have pl: "unat (packet_len p) = 20 + length hs * BIN_HASH_SIZE"
    using n(1) k by (simp add: unat_of_nat chunk_consts del: of_nat_add of_nat_mult)
  have len: "length (concat hs) = length hs * BIN_HASH_SIZE"
  proof (rule length_concat_rows)
    fix h assume "h \<in> set hs"
    then have "h \<in> set (hash_list p)" using hs(1) by (metis in_set_takeD)
    then show "length h = BIN_HASH_SIZE" using p(1) by (simp add: packet_arrays_def)
  qed
  have "serialize_packet p = mem_write (replicate (unat (packet_len p)) 0) 0 (header_bytes p @ hashes_bytes p)"
    using p(1,2) un hs(2) by (intro serialize_hashes) simp_all
  also have "\<dots> = Inr (header_bytes p @ hashes_bytes p)"
    using un hs(1) len pl by (simp add: mem_write_zeros hashes_bytes_def)
  also have "header_bytes p @ hashes_bytes p = hash_message (ptype p) (seq_num p) hs"
    using un hs(1) p(3,4) n by (simp add: header_bytes_def hashes_bytes_def hash_message_def)
  finally show ?thesis .
qed

text \<open>The row by row copy of hashes into a packet's \<open>hash_list\<close>.\<close>

definition copy_hashes :: "byte list list \<Rightarrow> byte list list \<Rightarrow> byte list list result" where
  "copy_hashes hashes rows =
     fold_result (\<lambda>i hl. bind_result (array_get hashes i) (\<lambda>h. array_set hl i h)) [0..<length hashes] rows"

section \<open>Round trip\<close>

text \<open>
  The packets the program means to send: a standard header, a length that matches the payload, and
  a payload that fits.
\<close>

definition wire_packet :: "Packet \<Rightarrow> bool" where
  "wire_packet p \<longleftrightarrow>
     packet_arrays p \<and> header_len p = 16 \<and>
     (case ptype p of
        DATA \<Rightarrow> 16 \<le> packet_len p \<and> unat (packet_len p) - 16 \<le> DATA_SIZE
      | ACK \<Rightarrow> packet_len p = 16
      | INVALID b \<Rightarrow> False
      | _ \<Rightarrow> unat (hash_num p) \<le> MAX_HASH_IN_PACKET \<and>
             unat (packet_len p) = 20 + unat (hash_num p) * BIN_HASH_SIZE)"

text \<open>What the receiver's zeroed structure holds afterwards.\<close>

definition received :: "Packet \<Rightarrow> Packet" where
  "received p =
     (let base = zero_packet\<lparr>ptype := ptype p, header_len := header_len p,
                   packet_len := packet_len p, seq_num := seq_num p, ack_num := ack_num p\<rparr>;
          k = unat (hash_num p); n = unat (packet_len p) - 16
      in if has_hashes (ptype p) then
           base\<lparr>hash_num := hash_num p,
                hash_list := take k (hash_list p) @ drop k (hash_list zero_packet)\<rparr>
         else if ptype p = ACK then base
         else base\<lparr>pdata := take n (pdata p) @ drop n (pdata zero_packet)\<rparr>)"

lemma deserialize_header_bytes:
  assumes "type_of_byte (byte_of_type (ptype p)) = ptype p"
  shows "deserialize_packet (header_bytes p @ rest) =
     bind_result
       (deserialize_payload
          (zero_packet\<lparr>ptype := ptype p, header_len := header_len p, packet_len := packet_len p,
             seq_num := seq_num p, ack_num := ack_num p\<rparr>)
          (header_bytes p @ rest) (unat (header_len p)))
       (\<lambda>p. Inr (Some p))"
proof -
  let ?buf = "header_bytes p @ rest"
  have rd: "mem_read ?buf 0 2 = Inr (put_u16 MAGIC_NUM)"
    "array_get ?buf 2 = Inr VER_NUM" "array_get ?buf 3 = Inr (byte_of_type (ptype p))"
    "mem_read ?buf 4 2 = Inr (put_u16 (header_len p))"
    "mem_read ?buf 6 2 = Inr (put_u16 (packet_len p))"
    "mem_read ?buf 8 4 = Inr (put_u32 (seq_num p))"
    "mem_read ?buf 12 4 = Inr (put_u32 (ack_num p))"
    by (simp_all add: mem_read_def array_get_def header_bytes_def nth_append drop_append take_append)
  then show ?thesis
    using assms by (simp add: deserialize_packet_def deserialize_header_def)
qed

lemma read_hashes:
  assumes "\<And>h. h \<in> set hl \<Longrightarrow> length h = BIN_HASH_SIZE" and "n \<le> length hl" and "n \<le> length zs"
    and "length pre = off"
  shows "fold_result (\<lambda>i a. bind_result (mem_read (pre @ concat (take n hl) @ rest) (off + i * BIN_HASH_SIZE) BIN_HASH_SIZE)
            (\<lambda>h. array_set a i h)) [0..<n] zs = Inr (take n hl @ drop n zs)"
proof -
  let ?buf = "pre @ concat (take n hl) @ rest"
  have row: "mem_read ?buf (off + i * BIN_HASH_SIZE) BIN_HASH_SIZE = Inr (hl ! i)" if "i < n" for i
  proof -
    have split: "take n hl = take i hl @ hl ! i # drop (Suc i) (take n hl)"
      using that assms(2) by (metis append_take_drop_id Cons_nth_drop_Suc length_take min.absorb2
          nth_take take_take min.absorb1 less_imp_le)
    have "length (concat (take i hl)) = i * BIN_HASH_SIZE"
      using that assms(1,2) by (intro length_concat_take) auto
    then show ?thesis
      using assms that by (subst split) (auto simp: mem_read_def)
  qed
  have "fold_result (\<lambda>i a. bind_result (mem_read ?buf (off + i * BIN_HASH_SIZE) BIN_HASH_SIZE)
            (\<lambda>h. array_set a i h)) [0..<k] zs = Inr (take k hl @ drop k zs)" if "k \<le> n" for k
    using that
  proof (induction k)
    case (Suc k)
    then have "(take k hl @ drop k zs)[k := hl ! k] = take (Suc k) hl @ drop (Suc k) zs"
      using assms(2,3) by (simp add: list_update_append take_Suc_conv_app_nth Cons_nth_drop_Suc [symmetric])
    then show ?case using Suc row assms(2,3) by (simp add: fold_result_snoc array_set_def)
  qed simp
  then show ?thesis by simp
qed


lemma deserialize_hashes_bytes:
  assumes "packet_arrays p" and "has_hashes (ptype p)" and "header_len p = 16"
    and n: "unat (hash_num p) \<le> MAX_HASH_IN_PACKET"
  shows "deserialize_packet (header_bytes p @ hashes_bytes p @ junk) = Inr (Some (received p))"
proof -
  let ?n = "unat (hash_num p)" and ?pre = "header_bytes p @ [hash_num p, 0, 0, 0]"
  let ?q = "zero_packet\<lparr>ptype := ptype p, header_len := header_len p, packet_len := packet_len p,
             seq_num := seq_num p, ack_num := ack_num p\<rparr>"
  have buf: "header_bytes p @ hashes_bytes p @ junk = ?pre @ concat (take ?n (hash_list p)) @ junk"
    by (simp add: hashes_bytes_def)
  have "array_get (header_bytes p @ hashes_bytes p @ junk) 16 = Inr (hash_num p)"
    by (simp add: array_get_def hashes_bytes_def nth_append)
  moreover have "fold_result (\<lambda>i a. bind_result
        (mem_read (header_bytes p @ hashes_bytes p @ junk) (16 + 4 + i * BIN_HASH_SIZE) BIN_HASH_SIZE)
        (\<lambda>h. array_set a i h)) [0..<?n] (hash_list zero_packet) =
      Inr (take ?n (hash_list p) @ drop ?n (hash_list zero_packet))"
    unfolding buf using assms(1) n
    by (intro read_hashes) (auto simp: packet_arrays_def zero_packet_def)
  ultimately have "deserialize_payload ?q (header_bytes p @ hashes_bytes p @ junk) 16 = Inr (received p)"
    using assms(2) by (simp add: deserialize_payload_def received_def Let_def)
  then show ?thesis
    using assms(2,3) by (subst deserialize_header_bytes) (auto simp: has_hashes_def type_of_byte_def)
qed

lemma deserialize_data_bytes:
  assumes "packet_arrays p" and "ptype p = DATA" and "header_len p = 16" and "16 \<le> packet_len p"
    and n: "unat (packet_len p) - 16 \<le> DATA_SIZE"
  shows "deserialize_packet (header_bytes p @ take (unat (packet_len p) - 16) (pdata p) @ junk) =
           Inr (Some (received p))"
proof -
  let ?n = "unat (packet_len p) - 16"
  let ?q = "zero_packet\<lparr>ptype := DATA, header_len := 16, packet_len := packet_len p,
             seq_num := seq_num p, ack_num := ack_num p\<rparr>"
  have "payload_size ?q = Inr ?n" using assms(4) by (simp add: payload_size_def not_less)
  moreover have "mem_read (header_bytes p @ take ?n (pdata p) @ junk) 16 ?n = Inr (take ?n (pdata p))"
    using assms(1) n by (intro mem_read_append) (simp_all add: packet_arrays_def)
  moreover have "mem_write (pdata zero_packet) 0 (take ?n (pdata p)) =
      Inr (take ?n (pdata p) @ drop ?n (pdata zero_packet))"
    using assms(1) n by (simp add: mem_write_def packet_arrays_def zero_packet_def)
  ultimately have "deserialize_payload ?q (header_bytes p @ take ?n (pdata p) @ junk) 16 = Inr (received p)"
    using assms(2,3)
    by (simp add: deserialize_payload_def received_def has_hashes_def Let_def) (simp add: zero_packet_def)
  then show ?thesis
    using assms(2,3) by (subst deserialize_header_bytes) (auto simp: type_of_byte_def)
qed

lemma deserialize_ack_bytes:
  "ptype p = ACK \<Longrightarrow> deserialize_packet (header_bytes p @ junk) = Inr (Some (received p))"
  by (subst deserialize_header_bytes)
     (auto simp: deserialize_payload_def received_def has_hashes_def type_of_byte_def Let_def)

lemma length_hashes_bytes:
  "packet_arrays p \<Longrightarrow> unat (hash_num p) \<le> MAX_HASH_IN_PACKET \<Longrightarrow>
   length (hashes_bytes p) = 4 + unat (hash_num p) * BIN_HASH_SIZE"
  by (auto simp: hashes_bytes_def packet_arrays_def intro!: length_concat_take)

lemma wire_packet_cases [consumes 1, case_names hashes ack data]:
  assumes "wire_packet p"
  obtains "has_hashes (ptype p)" "unat (hash_num p) \<le> MAX_HASH_IN_PACKET"
      "unat (packet_len p) = 20 + unat (hash_num p) * BIN_HASH_SIZE"
    | "ptype p = ACK" "packet_len p = 16"
    | "ptype p = DATA" "16 \<le> packet_len p" "unat (packet_len p) - 16 \<le> DATA_SIZE"
  using assms by (cases "ptype p") (auto simp: wire_packet_def has_hashes_def)

lemma wire_roundtrip:
  assumes "wire_packet p"
  shows "\<exists>bs. serialize_packet p = Inr bs \<and> length bs = unat (packet_len p) \<and>
           (\<forall>junk. deserialize_packet (bs @ junk) = Inr (Some (received p)))"
proof -
  have arr: "packet_arrays p" and hl: "header_len p = 16" using assms by (auto simp: wire_packet_def)
  from assms show ?thesis
  proof (cases rule: wire_packet_cases)
    case hashes
    have len: "length (header_bytes p @ hashes_bytes p) = unat (packet_len p)"
      using hashes arr by (simp add: length_hashes_bytes)
    then have "serialize_packet p = Inr (header_bytes p @ hashes_bytes p)"
      using serialize_hashes [OF arr hashes(1,2)] by (simp add: mem_write_zeros)
    with len deserialize_hashes_bytes [OF arr hashes(1) hl hashes(2)] show ?thesis by auto
  next
    case ack
    then show ?thesis
      using deserialize_ack_bytes [of p] serialize_ack [of p] by (auto simp: mem_write_zeros)
  next
    case data
    have "16 \<le> unat (packet_len p)" using data(2) by (simp add: word_le_nat_alt)
    then have "length (header_bytes p @ take (unat (packet_len p) - 16) (pdata p)) = unat (packet_len p)"
      using arr data(3) by (simp add: packet_arrays_def)
    with serialize_data [OF arr data(1) hl data(2,3)] deserialize_data_bytes [OF arr data(1) hl data(2,3)]
    show ?thesis by auto
  qed
qed

text \<open>A packet of hashes as the program builds it.\<close>

definition hash_packet :: "packet_type \<Rightarrow> u32 \<Rightarrow> byte list list \<Rightarrow> Packet" where
  "hash_packet ty seq hs =
     zero_packet\<lparr>ptype := ty, header_len := 16, packet_len := of_nat (20 + length hs * BIN_HASH_SIZE), seq_num := seq,
       hash_num := of_nat (length hs), hash_list := hs @ drop (length hs) (hash_list zero_packet)\<rparr>"

lemma hash_packet_wire:
  assumes "has_hashes ty" and "length hs \<le> MAX_HASH_IN_PACKET" and "\<And>h. h \<in> set hs \<Longrightarrow> length h = BIN_HASH_SIZE"
  shows "wire_packet (hash_packet ty seq hs)" and "serialize_packet (hash_packet ty seq hs) = Inr (hash_message ty seq hs)"
    and "unat (hash_num (hash_packet ty seq hs)) = length hs"
proof -
  let ?p = "hash_packet ty seq hs"
  have arr: "packet_arrays ?p"
    using assms(2,3) by (auto simp: hash_packet_def packet_arrays_def zero_packet_def packet_consts dest: in_set_dropD)
  have n: "length hs \<le> 74" using assms(2) by (simp add: packet_consts chunk_consts)
  then show num: "unat (hash_num ?p) = length hs" by (simp add: hash_packet_def unat_of_nat)
  have "unat (packet_len ?p) = 20 + length hs * BIN_HASH_SIZE"
    using n by (simp add: hash_packet_def unat_of_nat chunk_consts del: of_nat_add of_nat_mult)
  moreover have f: "ptype ?p = ty" "header_len ?p = 16" by (simp_all add: hash_packet_def)
  ultimately show "wire_packet ?p"
    using arr num assms(1,2) by (cases ty) (simp_all add: wire_packet_def has_hashes_def)
  have "serialize_packet ?p = Inr (hash_message (ptype ?p) (seq_num ?p) hs)"
    using arr assms(1,2) by (intro serialize_hash_message) (auto simp: f hash_packet_def zero_packet_def)
  then show "serialize_packet ?p = Inr (hash_message ty seq hs)" by (simp add: hash_packet_def)
qed

text \<open>What the receiver finds in it.\<close>

lemma deserialize_hashes:
  assumes "has_hashes ty" and "length hs \<le> MAX_HASH_IN_PACKET" and "\<And>h. h \<in> set hs \<Longrightarrow> length h = BIN_HASH_SIZE"
  shows "\<exists>pack. deserialize_packet (hash_message ty seq hs @ junk) = Inr (Some pack) \<and> ptype pack = ty \<and>
           unat (hash_num pack) = length hs \<and> length (hash_list pack) = MAX_HASH_IN_PACKET \<and> take (length hs) (hash_list pack) = hs"
proof -
  let ?p = "hash_packet ty seq hs"
  note w = hash_packet_wire [of ty hs seq, OF assms]
  have "deserialize_packet (hash_message ty seq hs @ junk) = Inr (Some (received ?p))"
    using wire_roundtrip [OF w(1)] w(2) by auto
  moreover have "ptype (received ?p) = ty" "hash_num (received ?p) = hash_num ?p"
    "hash_list (received ?p) = hs @ drop (length hs) (hash_list zero_packet)"
    using assms(1) w(3) by (auto simp: received_def Let_def hash_packet_def zero_packet_def has_hashes_def)
  ultimately show ?thesis using assms(2) w(3) by (simp add: zero_packet_def)
qed

section \<open>Packets that overflow\<close>

lemma serialize_header_only:
  assumes "packet_arrays p" and "has_hashes (ptype p)" and "packet_len p = 16"
  shows "serialize_packet p = Inl Out_Of_Bounds"
proof -
  have "mem_write (replicate 16 0) 0 (header_bytes p) = Inr (header_bytes p)"
    by (simp add: mem_write_zeros)
  moreover have "mem_write (header_bytes p) 16 [hash_num p] = Inl Out_Of_Bounds"
    by (simp add: mem_write_def)
  ultimately show ?thesis
    using assms(2,3) by (simp add: serialize_packet_payload serialize_payload_def)
qed

lemma read_hashes_overflow:
  assumes "length zs < n" and "\<And>i. i < n \<Longrightarrow> \<exists>h. rd i = Inr h"
  shows "fold_result (\<lambda>i a. bind_result (rd i) (\<lambda>h. array_set a i h)) [0..<n] zs = Inl Out_Of_Bounds"
proof -
  let ?f = "\<lambda>i a. bind_result (rd i) (\<lambda>h. array_set a i h)"
  have "\<exists>a. fold_result ?f [0..<k] zs = Inr a \<and> length a = length zs" if "k \<le> length zs" for k
    using that
  proof (induction k)
    case (Suc k)
    then obtain a where "fold_result ?f [0..<k] zs = Inr a" "length a = length zs" by auto
    moreover obtain h where "rd k = Inr h" using assms Suc.prems by fastforce
    ultimately show ?case using Suc.prems by (simp add: fold_result_snoc array_set_def)
  qed simp
  then obtain a where "fold_result ?f [0..<length zs] zs = Inr a" "length a = length zs" by blast
  moreover obtain h where "rd (length zs) = Inr h" using assms by blast
  ultimately have "fold_result ?f ([0..<length zs] @ [length zs]) zs = Inl Out_Of_Bounds"
    by (simp only: fold_result_snoc) (simp add: array_set_def)
  moreover have "[0..<n] = ([0..<length zs] @ [length zs]) @ [Suc (length zs)..<n]"
    using assms(1) upt_add_eq_append [of 0 "length zs" "n - length zs"]
    by (simp add: upt_conv_Cons)
  ultimately show ?thesis by (simp only: fold_result_append bind_result_Inl)
qed

lemma copy_hashes_eq:
  "copy_hashes hashes rows =
     (if length hashes \<le> length rows then Inr (hashes @ drop (length hashes) rows) else Inl Out_Of_Bounds)"
proof (cases "length hashes \<le> length rows")
  case False
  then show ?thesis
    unfolding copy_hashes_def using read_hashes_overflow [of rows "length hashes" "array_get hashes"]
    by (auto simp: array_get_def)
next
  case True
  have "fold_result (\<lambda>i hl. bind_result (array_get hashes i) (\<lambda>h. array_set hl i h)) [0..<k] rows =
      Inr (take k hashes @ drop k rows)" if "k \<le> length hashes" for k
    using that
  proof (induction k)
    case (Suc k)
    then have "(take k hashes @ drop k rows)[k := hashes ! k] = take (Suc k) hashes @ drop (Suc k) rows"
      using True by (simp add: list_update_append take_Suc_conv_app_nth Cons_nth_drop_Suc [symmetric])
    then show ?case using Suc True by (simp add: fold_result_snoc array_get_def array_set_def)
  qed simp
  then show ?thesis using True by (simp add: copy_hashes_def)
qed

section \<open>Properties\<close>


text \<open>
  Claim C13. Every packet the program means to send survives the wire: \<open>serialize_packet\<close> stays inside
  its allocation of \<open>packet_len\<close> bytes, and \<open>deserialize_packet\<close> on a buffer that starts with these
  bytes, whatever follows them, rebuilds the header and the payload.
\<close>

theorem packet_roundtrip:
  assumes "wire_packet p"
  shows "\<exists>bs. serialize_packet p = Inr bs \<and> length bs = unat (packet_len p) \<and>
           (\<forall>junk. deserialize_packet (bs @ junk) = Inr (Some (received p)))"
  using assms by (rule wire_roundtrip)

theorem packet_roundtrip_witness:
  "\<exists>bs. serialize_packet (zero_packet\<lparr>ptype := ACK, header_len := 16, packet_len := 16, ack_num := 7\<rparr>) = Inr bs \<and>
     length bs = 16 \<and>
     deserialize_packet (bs @ replicate 1484 0) =
       Inr (Some (zero_packet\<lparr>ptype := ACK, header_len := 16, packet_len := 16, ack_num := 7\<rparr>))"
proof -
  have "wire_packet (zero_packet\<lparr>ptype := ACK, header_len := 16, packet_len := 16, ack_num := 7\<rparr>)"
    by (simp add: wire_packet_def packet_arrays_def zero_packet_def)
  from packet_roundtrip [OF this] show ?thesis
    by (auto simp: received_def has_hashes_def Let_def)
qed

text \<open>
  Claim C38. The number of hashes is taken from the datagram unchecked: a packet with the standard
  header of 16 bytes that announces more than 74 hashes makes \<open>deserialize_payload\<close> run out of the
  buffer or past the end of \<open>hash_list\<close>, whatever the rest of the datagram holds.
\<close>

theorem too_many_hashes:
  assumes "has_hashes (ptype p)" and "header_len p = 16" and "MAX_HASH_IN_PACKET < unat n"
  shows "deserialize_packet (header_bytes p @ n # rest) = Inl Out_Of_Bounds"
proof -
  let ?buf = "header_bytes p @ n # rest"
  let ?q = "zero_packet\<lparr>ptype := ptype p, header_len := header_len p, packet_len := packet_len p,
             seq_num := seq_num p, ack_num := ack_num p\<rparr>"
  define f where "f = (\<lambda>i hl. bind_result (mem_read ?buf (16 + 4 + i * BIN_HASH_SIZE) BIN_HASH_SIZE) (\<lambda>h. array_set hl i h))"
  have only: "fold_result f is hl = Inl e \<Longrightarrow> e = Out_Of_Bounds" for "is" hl e
    by (induction "is" arbitrary: hl) (auto simp: f_def result_simps mem_read_def array_set_def split: if_splits)
  have len: "length a = MAX_HASH_IN_PACKET" if "fold_result f is (hash_list zero_packet) = Inr a" for "is" a
    by (rule fold_result_invariant [OF that, where P = "\<lambda>a. length a = MAX_HASH_IN_PACKET"])
       (auto simp: f_def result_simps zero_packet_def)
  have split: "[0..<unat n] = [0..<MAX_HASH_IN_PACKET] @ MAX_HASH_IN_PACKET # [Suc MAX_HASH_IN_PACKET..<unat n]"
    using assms(3) by (metis le_add_same_cancel1 less_imp_add_positive upt_add_eq_append upt_conv_Cons zero_le)
  have last: "f MAX_HASH_IN_PACKET x \<noteq> Inr y" if "length x = MAX_HASH_IN_PACKET" for x y
    using that by (auto simp: f_def result_simps)
  have "fold_result f [0..<unat n] (hash_list ?q) \<noteq> Inr a" for a
    unfolding split fold_result_append
    using last by (auto simp: bind_result_eq_Inr dest!: len)
  then have "fold_result f [0..<unat n] (hash_list ?q) = Inl Out_Of_Bounds"
    using only by (metis sum.exhaust)
  moreover have "array_get ?buf 16 = Inr n" by (simp add: array_get_def nth_append)
  ultimately have "deserialize_payload ?q ?buf 16 = Inl Out_Of_Bounds"
    using assms(1) by (simp add: deserialize_payload_def f_def)
  then show ?thesis
    using assms(1,2) by (subst deserialize_header_bytes) (auto simp: has_hashes_def type_of_byte_def)
qed

theorem too_many_hashes_witness:
  "deserialize_packet (header_bytes (zero_packet\<lparr>header_len := 16\<rparr>) @ 75 # replicate 1483 0) = Inl Out_Of_Bounds"
  by (rule too_many_hashes) (simp_all add: zero_packet_def has_hashes_def packet_consts chunk_consts)

text \<open>
  A buffer that carries the magic number neither in its first nor in its second two bytes
  is dropped, and so is one with another version number.
\<close>

lemma foreign_packet_dropped:
  assumes "4 < length buf"
    and "get_u16 (take 2 buf) \<noteq> MAGIC_NUM \<and> get_u16 (take 2 (drop 2 buf)) \<noteq> MAGIC_NUM \<or>
         get_u16 (take 2 buf) = MAGIC_NUM \<and> buf ! 2 \<noteq> VER_NUM"
  shows "deserialize_packet buf = Inr None"
  using assms by (auto simp: deserialize_packet_def deserialize_header_def mem_read_def array_get_def)

end
