(* ===== verification/World.thy ===== *)
theory World
  imports Packet
begin

text \<open>
  The state the modules of the peer program share: the structures of
  \<^verbatim>\<open>src/code/transfer.h\<close>, the global variables of \<^verbatim>\<open>src/code/peer.h\<close> and the two
  file-local transfer lists of \<^verbatim>\<open>bt_client.c\<close> and \<^verbatim>\<open>bt_server.c\<close>, with the clock of
  \<^verbatim>\<open>src/code/mytime.c\<close> and the two sending functions of \<^verbatim>\<open>src/code/packet.c\<close>.

  Chunks, peers and transfers are shared between lists, so they live in heaps and a pointer is an
  address into one of them. A linked list of the program is the HOL list of the pointers its nodes
  hold; theory \<open>Linked_List\<close> shows that \<open>node_insert\<close>, \<open>node_find\<close>, \<open>node_delete\<close> and
  \<open>count_node\<close> act on that list as \<open>#\<close>, \<open>find\<close>, \<open>remove1\<close> and \<open>length\<close>. Allocation succeeds and
  returns an address that is not in use (the \<open>_top\<close> counters). The two file names of a user request
  are \<open>None\<close> before the first request and after they were freed.

  What the program does to its environment is recorded: the datagrams it sends, the lines it
  writes to the window graph and the files it writes. The clock is the sequence of values that
  successive calls of \<open>gettimeofday\<close> return; every statement holds for all such sequences unless
  it says otherwise. \<open>stack_packet\<close> is what a local variable of type \<open>Packet\<close> holds before it is
  assigned; only the sizes of its arrays are known. The text written by \<open>LOG\<close> is not modelled.
\<close>

type_synonym cptr = nat
type_synonym tptr = nat
type_synonym mytime_t = u64

record timeval =
  tv_sec :: int
  tv_usec :: int

datatype CongestType = SS | CA

record CongestCtrl =
  congest_state :: CongestType
  timeout_count :: u32
  dup_count :: u32
  last_received :: u32
  cc_begin :: u32
  cc_index :: u32
  wind_size :: u32
  start_wind_size :: u32
  cc_rtt :: u32
  ssthresh :: u32
  rtt_timer :: mytime_t

record Transfer =
  tr_peer :: pptr
  tr_chunk :: cptr
  cctrl :: CongestCtrl
  timestamp :: mytime_t
  tr_rtt :: mytime_t

record world =
  clock :: "nat \<Rightarrow> timeval"
  clock_pos :: nat
  peer_heap :: "pptr \<Rightarrow> bt_peer_t"
  chunk_heap :: "cptr \<Rightarrow> chunk"
  chunk_top :: cptr
  transfer_heap :: "tptr \<Rightarrow> Transfer"
  transfer_top :: tptr
  wanted_chunks :: "cptr list"
  have_chunks :: "cptr list"
  missing_chunks :: "cptr list"
  client_transfers :: "tptr list"
  server_transfers :: "tptr list"
  start_time :: mytime_t
  user_get_chunk_file :: "string option"
  user_output_filename :: "string option"
  sent :: "(sockaddr_in \<times> byte list) list"
  window_graph :: "(16 word \<times> mytime_t \<times> u32) list"
  files :: "string \<rightharpoonup> byte list"
  got :: "string list"
  stack_packet :: Packet

section \<open>The clock\<close>

text \<open>\<open>tv_usec\<close> is not negative, so C division agrees with \<open>div\<close>.\<close>

definition millitime_of :: "timeval \<Rightarrow> mytime_t" where
  "millitime_of tv = word_of_int (tv_usec tv div 1000 + (tv_sec tv AND 0xfffff) * 1000)"

definition millitime :: "world \<Rightarrow> mytime_t \<times> world" where
  "millitime w = (millitime_of (clock w (clock_pos w)), w\<lparr>clock_pos := Suc (clock_pos w)\<rparr>)"

text \<open>What the next call of \<open>millitime\<close> returns.\<close>

abbreviation now_of :: "world \<Rightarrow> mytime_t" where
  "now_of w \<equiv> millitime_of (clock w (clock_pos w))"

section \<open>Access to the heaps\<close>

definition upd_peer :: "pptr \<Rightarrow> (bt_peer_t \<Rightarrow> bt_peer_t) \<Rightarrow> world \<Rightarrow> world" where
  "upd_peer p f w = w\<lparr>peer_heap := (peer_heap w)(p := f (peer_heap w p))\<rparr>"

definition upd_chunk :: "cptr \<Rightarrow> (chunk \<Rightarrow> chunk) \<Rightarrow> world \<Rightarrow> world" where
  "upd_chunk c f w = w\<lparr>chunk_heap := (chunk_heap w)(c := f (chunk_heap w c))\<rparr>"

definition upd_transfer :: "tptr \<Rightarrow> (Transfer \<Rightarrow> Transfer) \<Rightarrow> world \<Rightarrow> world" where
  "upd_transfer t f w = w\<lparr>transfer_heap := (transfer_heap w)(t := f (transfer_heap w t))\<rparr>"

definition upd_cctrl :: "tptr \<Rightarrow> (CongestCtrl \<Rightarrow> CongestCtrl) \<Rightarrow> world \<Rightarrow> world" where
  "upd_cctrl t f w = upd_transfer t (\<lambda>x. x\<lparr>cctrl := f (cctrl x)\<rparr>) w"

abbreviation cc :: "world \<Rightarrow> tptr \<Rightarrow> CongestCtrl" where
  "cc w t \<equiv> cctrl (transfer_heap w t)"

abbreviation transfer_peer :: "world \<Rightarrow> tptr \<Rightarrow> bt_peer_t" where
  "transfer_peer w t \<equiv> peer_heap w (tr_peer (transfer_heap w t))"

abbreviation transfer_chunk :: "world \<Rightarrow> tptr \<Rightarrow> chunk" where
  "transfer_chunk w t \<equiv> chunk_heap w (tr_chunk (transfer_heap w t))"

named_theorems world_defs \<open>definitions of the heap accessors\<close>

declare upd_peer_def [world_defs] upd_chunk_def [world_defs] upd_transfer_def [world_defs]
  upd_cctrl_def [world_defs] millitime_def [world_defs]

text \<open>The state when the program starts, on a machine whose clock stands still.\<close>

definition initial_world :: world where
  "initial_world =
     \<lparr>clock = (\<lambda>_. \<lparr>tv_sec = 0, tv_usec = 0\<rparr>), clock_pos = 0,
      peer_heap = (\<lambda>p. \<lparr>peer_timer = 0, peer_id = of_nat p, available = 1, peer_timeout_count = 0,
        peer_addr = \<lparr>sin_family = 2, sin_port = of_nat p, sin_addr = 0x0100007f\<rparr>\<rparr>),
      chunk_heap = (\<lambda>_. zero_chunk), chunk_top = 0,
      transfer_heap = (\<lambda>_. \<lparr>tr_peer = 0, tr_chunk = 0,
        cctrl = \<lparr>congest_state = SS, timeout_count = 0, dup_count = 0, last_received = 0, cc_begin = 0,
          cc_index = 0, wind_size = 0, start_wind_size = 0, cc_rtt = 0, ssthresh = 0, rtt_timer = 0\<rparr>,
        timestamp = 0, tr_rtt = 0\<rparr>), transfer_top = 0,
      wanted_chunks = [], have_chunks = [], missing_chunks = [], client_transfers = [], server_transfers = [],
      start_time = 0, user_get_chunk_file = None, user_output_filename = None, sent = [], window_graph = [],
      files = Map.empty, got = [], stack_packet = zero_packet\<rparr>"

section \<open>Sending\<close>

definition emit :: "sockaddr_in \<Rightarrow> byte list \<Rightarrow> world \<Rightarrow> world" where
  "emit a bs w = w\<lparr>sent := sent w @ [(a, bs)]\<rparr>"

text \<open>\<open>packet_len\<close> bytes are handed to the socket.\<close>

definition send_packet_to_peer :: "Packet \<Rightarrow> pptr \<Rightarrow> world \<Rightarrow> world result" where
  "send_packet_to_peer pack p w =
     bind_result (serialize_packet pack) (\<lambda>packet.
     bind_result (mem_read packet 0 (unat (packet_len pack))) (\<lambda>msg.
       Inr (emit (peer_addr (peer_heap w p)) msg w)))"

fun send_to_others :: "bt_config_t \<Rightarrow> byte list \<Rightarrow> pptr list \<Rightarrow> world \<Rightarrow> world" where
  "send_to_others config msg [] w = w"
| "send_to_others config msg (p # ps) w =
     (if identity config \<noteq> peer_id (peer_heap w p) then
        let (now, w) = millitime w;
            w = upd_peer p (\<lambda>x. x\<lparr>peer_timer := now\<rparr>) w
        in send_to_others config msg ps (emit (peer_addr (peer_heap w p)) msg w)
      else send_to_others config msg ps w)"

definition send_packet_to_all :: "Packet \<Rightarrow> bt_config_t \<Rightarrow> world \<Rightarrow> world result" where
  "send_packet_to_all pack config w =
     bind_result (serialize_packet pack) (\<lambda>packet.
     bind_result (mem_read packet 0 (unat (packet_len pack))) (\<lambda>msg.
       Inr (send_to_others config msg (config_peers config) w)))"

section \<open>Facts\<close>

lemma fst_millitime [simp]: "fst (millitime w) = millitime_of (clock w (clock_pos w))"
  by (simp add: millitime_def)

lemma serialize_packet_length:
  assumes "serialize_packet p = Inr bs"
  shows "length bs = unat (packet_len p)"
proof -
  from assms obtain b where b: "mem_write (replicate (unat (packet_len p)) 0) 0 (header_bytes p) = Inr b"
    and pl: "serialize_payload p b 16 = Inr bs"
    by (auto simp: serialize_packet_payload result_simps)
  have len: "length b = unat (packet_len p)" using mem_write_length [OF b] by simp
  have loop: "length x = length y" if "fold_result (\<lambda>i packet. bind_result (array_get (hash_list p) i)
        (\<lambda>hash. mem_write packet (16 + 4 + i * BIN_HASH_SIZE) hash)) is y = Inr x" for "is" x y
    by (rule fold_result_invariant [OF that, where P = "\<lambda>z. length z = length y"])
       (auto simp: bind_result_eq_Inr dest: mem_write_length)
  from pl len show ?thesis
    unfolding serialize_payload_def
    by (auto simp only: bind_result_eq_Inr sum.inject split: if_splits dest!: loop mem_write_length)
qed

lemma send_packet_to_peer_eq:
  "send_packet_to_peer pack p w =
     bind_result (serialize_packet pack) (\<lambda>msg. Inr (emit (peer_addr (peer_heap w p)) msg w))"
  unfolding send_packet_to_peer_def
  by (intro bind_result_cong refl) (simp add: mem_read_def serialize_packet_length)

lemma send_packet_to_all_eq:
  "send_packet_to_all pack config w =
     bind_result (serialize_packet pack) (\<lambda>msg. Inr (send_to_others config msg (config_peers config) w))"
  unfolding send_packet_to_all_def
  by (intro bind_result_cong refl) (simp add: mem_read_def serialize_packet_length)

text \<open>A broadcast reaches every other peer of the configuration once, in list order.\<close>

lemma send_to_others_sent:
  "sent (send_to_others config msg ps w) =
     sent w @ map (\<lambda>p. (peer_addr (peer_heap w p), msg))
                (filter (\<lambda>p. identity config \<noteq> peer_id (peer_heap w p)) ps)"
proof (induction ps arbitrary: w)
  case (Cons p ps)
  have same: "peer_addr (((peer_heap w)(p := (peer_heap w p)\<lparr>peer_timer := now\<rparr>)) q) = peer_addr (peer_heap w q)"
    "peer_id (((peer_heap w)(p := (peer_heap w p)\<lparr>peer_timer := now\<rparr>)) q) = peer_id (peer_heap w q)" for now q
    by simp_all
  show ?case using Cons by (simp add: millitime_def emit_def upd_peer_def same del: fun_upd_apply)
qed simp

text \<open>The clock shows at most \<open>2^20\<close> seconds: it wraps about every twelve days.\<close>

lemma millitime_of_bound:
  assumes "0 \<le> tv_usec tv" and "tv_usec tv < 1000000"
  shows "unat (millitime_of tv) < 1048576 * 1000"
proof -
  have "0 \<le> tv_sec tv AND 0xfffff" by simp
  moreover have "tv_sec tv AND 0xfffff \<le> 1048575" using AND_upper2 [of "0xfffff" "tv_sec tv"] by simp
  moreover have "0 \<le> tv_usec tv div 1000" "tv_usec tv div 1000 \<le> 999" using assms by auto
  ultimately have b: "0 \<le> tv_usec tv div 1000 + (tv_sec tv AND 0xfffff) * 1000"
      "tv_usec tv div 1000 + (tv_sec tv AND 0xfffff) * 1000 < 1048576 * 1000"
    by linarith+
  have "unat (word_of_int x :: u64) < 1048576 * 1000" if "0 \<le> x" "x < 1048576 * 1000" for x
  proof -
    have "uint (word_of_int x :: u64) = x" using that by (simp add: uint_word_of_int)
    then show ?thesis using that by (simp add: unat_eq_nat_uint nat_less_iff)
  qed
  from this [OF b] show ?thesis by (simp only: millitime_of_def)
qed

end
