(* ===== verification/Linked_List.thy ===== *)
theory Linked_List
  imports Prelude
begin

text \<open>
  The generic singly linked list of \<^verbatim>\<open>src/code/linkedlist.c\<close>, on an explicit heap of nodes.

  An address is a natural number and 0 is \<open>NULL\<close>. A heap maps the allocated addresses to nodes.
  A function that follows pointers returns an option: \<open>None\<close> when it dereferences an address that
  is not allocated or never returns (a cyclic list). A \<open>Node **head\<close> that the code compares with
  \<open>NULL\<close> is an option of the head pointer it points to. A \<open>remove_data\<close> callback is a function
  on the state it changes, or \<open>None\<close> for \<open>NULL\<close>. \<open>calloc\<close> is the argument \<open>a\<close> of
  \<open>node_insert\<close>: the address it returned, 0 when it failed.

  The second half relates the heap to HOL lists: \<open>node_list h p xs\<close> says that the nodes reached
  from \<open>p\<close> hold the data \<open>xs\<close>. Every operation is shown to implement the list operation that
  the other components of the development use in its place.
\<close>

section \<open>The code\<close>

record 'd node =
  node_next :: nat
  node_data :: 'd

type_synonym 'd heap = "nat \<rightharpoonup> 'd node"

definition EXIT_SUCCESS :: int where "EXIT_SUCCESS = 0"
definition EXIT_FAILURE :: int where "EXIT_FAILURE = 1"

partial_function (option) count_loop :: "'d heap \<Rightarrow> nat \<Rightarrow> nat \<Rightarrow> nat option" where
  "count_loop h n count =
     (if n = 0 then Some count
      else case h n of None \<Rightarrow> None | Some nd \<Rightarrow> count_loop h (node_next nd) (Suc count))"

definition count_node :: "'d heap \<Rightarrow> nat option \<Rightarrow> nat option" where
  "count_node h head = (case head of None \<Rightarrow> Some 0 | Some n \<Rightarrow> count_loop h n 0)"

definition node_length :: "'d heap \<Rightarrow> nat \<Rightarrow> nat option" where
  "node_length h head = count_loop h head 0"

text \<open>Returns the returned node, the heap and the new value of \<open>*head\<close>.\<close>

definition node_insert_node ::
  "'d heap \<Rightarrow> nat option \<Rightarrow> nat \<Rightarrow> (nat \<times> 'd heap \<times> nat option) option" where
  "node_insert_node h head node =
     (case head of None \<Rightarrow> Some (0, h, None)
      | Some p \<Rightarrow> (case h node of None \<Rightarrow> None
          | Some nd \<Rightarrow> Some (node, h(node \<mapsto> nd\<lparr>node_next := p\<rparr>), Some node)))"

definition node_insert :: "nat \<Rightarrow> 'd heap \<Rightarrow> nat \<Rightarrow> 'd \<Rightarrow> nat \<times> 'd heap \<times> nat" where
  "node_insert a h head d =
     (if a = 0 then (0, h, head)
      else (a, h(a \<mapsto> \<lparr>node_next = head, node_data = d\<rparr>), a))"

partial_function (option) node_find ::
  "'d heap \<Rightarrow> nat \<Rightarrow> ('d \<Rightarrow> 'k \<Rightarrow> bool) \<Rightarrow> 'k \<Rightarrow> nat option" where
  "node_find h head compare key =
     (if head = 0 then Some 0
      else case h head of None \<Rightarrow> None
        | Some nd \<Rightarrow> if compare (node_data nd) key then Some head
                     else node_find h (node_next nd) compare key)"

text \<open>The loop that looks for the node before the one to delete; 0 when there is none.\<close>

partial_function (option) find_previous :: "'d heap \<Rightarrow> nat \<Rightarrow> nat \<Rightarrow> nat option" where
  "find_previous h temp node =
     (if temp = 0 then Some 0
      else case h temp of None \<Rightarrow> None
        | Some nd \<Rightarrow> if node_next nd = node then Some temp
                     else find_previous h (node_next nd) node)"

definition call_remove :: "('d \<Rightarrow> 's \<Rightarrow> 's) option \<Rightarrow> 'd \<Rightarrow> 's \<Rightarrow> 's" where
  "call_remove remove_data d s = (case remove_data of None \<Rightarrow> s | Some f \<Rightarrow> f d s)"

definition node_delete ::
  "'d heap \<Rightarrow> nat \<Rightarrow> nat \<Rightarrow> ('d \<Rightarrow> 's \<Rightarrow> 's) option \<Rightarrow> 's \<Rightarrow> (int \<times> 'd heap \<times> nat \<times> 's) option" where
  "node_delete h head node remove_data s =
     (if head = 0 then Some (EXIT_FAILURE, h, head, s)
      else if head = node then
        (case h node of None \<Rightarrow> None
         | Some nd \<Rightarrow> Some (EXIT_SUCCESS, h(node := None), node_next nd,
                            call_remove remove_data (node_data nd) s))
      else
        (case find_previous h head node of None \<Rightarrow> None
         | Some temp \<Rightarrow>
             if temp = 0 then Some (EXIT_FAILURE, h, head, s)
             else (case (h temp, h node) of
                     (Some td, Some nd) \<Rightarrow>
                       Some (EXIT_SUCCESS,
                             (h(temp \<mapsto> td\<lparr>node_next := node_next nd\<rparr>))(node := None), head,
                             call_remove remove_data (node_data nd) s)
                   | _ \<Rightarrow> None)))"

partial_function (option) iterate_loop ::
  "'d heap \<Rightarrow> nat \<Rightarrow> nat \<Rightarrow> ('d \<Rightarrow> bool) \<Rightarrow> ('d \<Rightarrow> 's \<Rightarrow> 's) option \<Rightarrow> 's \<Rightarrow> nat \<Rightarrow>
   (nat \<times> 'd heap \<times> nat \<times> 's) option" where
  "iterate_loop h head temp test remove_data s rm_count =
     (if temp = 0 then Some (rm_count, h, head, s)
      else case h temp of None \<Rightarrow> None
        | Some nd \<Rightarrow>
            if test (node_data nd) then
              (case node_delete h head temp remove_data s of None \<Rightarrow> None
               | Some r \<Rightarrow> iterate_loop (fst (snd r)) (fst (snd (snd r))) (node_next nd) test
                             remove_data (snd (snd (snd r))) (Suc rm_count))
            else iterate_loop h head (node_next nd) test remove_data s rm_count)"

text \<open>\<open>-1\<close> converted to \<open>size_t\<close> is the result when \<open>head\<close> or \<open>test\<close> is \<open>NULL\<close>.\<close>

definition node_iterate_delete ::
  "'d heap \<Rightarrow> nat option \<Rightarrow> ('d \<Rightarrow> bool) option \<Rightarrow> ('d \<Rightarrow> 's \<Rightarrow> 's) option \<Rightarrow> 's \<Rightarrow>
   (u64 \<times> 'd heap \<times> nat option \<times> 's) option" where
  "node_iterate_delete h head test remove_data s =
     (case (head, test) of
        (Some p, Some t) \<Rightarrow>
          (case iterate_loop h p p t remove_data s 0 of None \<Rightarrow> None
           | Some (n, h', p', s') \<Rightarrow> Some (of_nat n, h', Some p', s'))
      | _ \<Rightarrow> Some (- 1, h, head, s))"

partial_function (option) delete_all_loop ::
  "'d heap \<Rightarrow> nat \<Rightarrow> ('d \<Rightarrow> 's \<Rightarrow> 's) option \<Rightarrow> 's \<Rightarrow> nat \<Rightarrow> (nat \<times> 'd heap \<times> nat \<times> 's) option" where
  "delete_all_loop h head remove_data s removed =
     (if head = 0 then Some (removed, h, head, s)
      else case h head of None \<Rightarrow> None
        | Some nd \<Rightarrow> delete_all_loop (h(head := None)) (node_next nd) remove_data
                       (call_remove remove_data (node_data nd) s) (Suc removed))"

definition node_delete_all ::
  "'d heap \<Rightarrow> nat \<Rightarrow> ('d \<Rightarrow> 's \<Rightarrow> 's) option \<Rightarrow> 's \<Rightarrow> (nat \<times> 'd heap \<times> nat \<times> 's) option" where
  "node_delete_all h head remove_data s = delete_all_loop h head remove_data s 0"

section \<open>Lists on the heap\<close>

text \<open>\<open>path h p ps\<close>: following \<open>next\<close> from \<open>p\<close> visits exactly the addresses \<open>ps\<close> and ends at \<open>NULL\<close>.\<close>

fun path :: "'d heap \<Rightarrow> nat \<Rightarrow> nat list \<Rightarrow> bool" where
  "path h p [] \<longleftrightarrow> p = 0"
| "path h p (q # qs) \<longleftrightarrow> p = q \<and> q \<noteq> 0 \<and> (\<exists>nd. h q = Some nd \<and> path h (node_next nd) qs)"

definition data_at :: "'d heap \<Rightarrow> nat list \<Rightarrow> 'd list" where
  "data_at h ps = map (\<lambda>q. node_data (the (h q))) ps"

definition node_list :: "'d heap \<Rightarrow> nat \<Rightarrow> 'd list \<Rightarrow> bool" where
  "node_list h p xs \<longleftrightarrow> (\<exists>ps. path h p ps \<and> data_at h ps = xs)"

lemma path_0 [simp]: "path h 0 ps \<longleftrightarrow> ps = []"
  by (cases ps) auto

lemma path_nonzero: "p \<noteq> 0 \<Longrightarrow>
  path h p ps \<longleftrightarrow> (\<exists>nd qs. ps = p # qs \<and> h p = Some nd \<and> path h (node_next nd) qs)"
  by (cases ps) auto

lemma path_unique: "path h p ps \<Longrightarrow> path h p qs \<Longrightarrow> ps = qs"
  by (induction ps arbitrary: p qs) (auto simp: path_nonzero)

lemma path_in_heap: "path h p ps \<Longrightarrow> q \<in> set ps \<Longrightarrow> q \<noteq> 0 \<and> (\<exists>nd. h q = Some nd)"
  by (induction ps arbitrary: p) auto

lemma path_suffix: "path h p (xs @ q # ys) \<Longrightarrow> path h q (q # ys)"
proof (induction xs arbitrary: p)
  case (Cons a xs)
  from Cons.prems obtain nd where "h a = Some nd" "path h (node_next nd) (xs @ q # ys)" by auto
  then show ?case using Cons.IH by blast
qed auto

lemma path_distinct: "path h p ps \<Longrightarrow> distinct ps"
proof (induction ps arbitrary: p)
  case (Cons q qs)
  then obtain nd where nd: "h q = Some nd" "path h (node_next nd) qs" by auto
  have "q \<notin> set qs"
  proof
    assume "q \<in> set qs"
    then obtain xs ys where qs: "qs = xs @ q # ys" by (auto simp: in_set_conv_decomp)
    with nd(2) have "path h q (q # ys)" using path_suffix by metis
    moreover have "path h q (q # qs)" using Cons.prems by auto
    ultimately have "q # ys = q # qs" by (rule path_unique)
    with qs show False by simp
  qed
  with Cons nd show ?case by auto
qed simp

text \<open>Heap changes outside the list leave it alone.\<close>

lemma path_cong: "(\<And>q. q \<in> set ps \<Longrightarrow> h' q = h q) \<Longrightarrow> path h' p ps = path h p ps"
  by (induction ps arbitrary: p) auto

lemma path_frame: "path h p ps \<Longrightarrow> (\<And>q. q \<in> set ps \<Longrightarrow> h' q = h q) \<Longrightarrow> path h' p ps"
  using path_cong by blast

lemma data_at_simps [simp]:
  "data_at h [] = []" "data_at h (q # qs) = node_data (the (h q)) # data_at h qs"
  "length (data_at h qs) = length qs"
  by (simp_all add: data_at_def)

text \<open>One turn of each pointer loop.\<close>

lemma count_loop_simps [simp]:
  "count_loop h 0 k = Some k"
  "p \<noteq> 0 \<Longrightarrow> h p = Some nd \<Longrightarrow> count_loop h p k = count_loop h (node_next nd) (Suc k)"
  by (subst count_loop.simps, simp)+

lemma node_find_simps [simp]:
  "node_find h 0 cmp k = Some 0"
  "p \<noteq> 0 \<Longrightarrow> h p = Some nd \<Longrightarrow>
   node_find h p cmp k = (if cmp (node_data nd) k then Some p else node_find h (node_next nd) cmp k)"
  by (subst node_find.simps, simp)+

lemma find_previous_simps [simp]:
  "find_previous h 0 q = Some 0"
  "p \<noteq> 0 \<Longrightarrow> h p = Some nd \<Longrightarrow>
   find_previous h p q = (if node_next nd = q then Some p else find_previous h (node_next nd) q)"
  by (subst find_previous.simps, simp)+

section \<open>Each operation implements its list operation\<close>

lemma count_loop_path: "path h p ps \<Longrightarrow> count_loop h p k = Some (k + length ps)"
  by (induction ps arbitrary: p k) auto

lemma node_insert_path:
  assumes "path h p ps" and "a \<noteq> 0" and "h a = None"
  shows "path (h(a \<mapsto> \<lparr>node_next = p, node_data = d\<rparr>)) a (a # ps)"
proof -
  have "a \<notin> set ps" using path_in_heap [OF assms(1)] assms(3) by fastforce
  then have "path (h(a \<mapsto> \<lparr>node_next = p, node_data = d\<rparr>)) p ps"
    using assms(1) by (auto intro: path_frame)
  then show ?thesis using assms(2) by simp
qed

lemma node_find_path:
  "path h p ps \<Longrightarrow>
   node_find h p compare key =
     Some (case find (\<lambda>q. compare (node_data (the (h q))) key) ps of None \<Rightarrow> 0 | Some q \<Rightarrow> q)"
  by (induction ps arbitrary: p) auto

lemma find_previous_absent:
  "path h p ps \<Longrightarrow> q \<notin> set ps \<Longrightarrow> q \<noteq> 0 \<Longrightarrow> find_previous h p q = Some 0"
proof (induction ps arbitrary: p)
  case (Cons r rs)
  then obtain nd where nd: "h r = Some nd" "path h (node_next nd) rs" "p = r" "r \<noteq> 0" by auto
  then have "node_next nd \<noteq> q" using Cons.prems by (cases rs) auto
  moreover have "find_previous h (node_next nd) q = Some 0"
    using Cons.IH [OF nd(2)] Cons.prems by simp
  ultimately show ?case using nd by simp
qed simp

lemma find_previous_present:
  "path h p (xs @ r # q # ys) \<Longrightarrow> find_previous h p q = Some r"
proof (induction xs arbitrary: p)
  case (Cons a xs)
  then obtain nd where nd: "h a = Some nd" "path h (node_next nd) (xs @ r # q # ys)" "p = a" "a \<noteq> 0"
    by auto
  have "distinct (a # xs @ r # q # ys)" using path_distinct [OF Cons.prems] by simp
  then have "node_next nd \<noteq> q" using nd(2) by (cases xs) auto
  then show ?case using Cons.IH [OF nd(2)] nd by simp
qed auto

text \<open>Unlinking an inner node: the nodes before and after it keep their addresses.\<close>

lemma path_unlink:
  assumes "path h p (xs @ r # q # ys)" and "h r = Some rd" and "h q = Some qd"
    and h': "h' = (h(r \<mapsto> rd\<lparr>node_next := node_next qd\<rparr>))(q := None)"
  shows "path h' p (xs @ r # ys)"
  using assms(1-3)
proof (induction xs arbitrary: p)
  case Nil
  have d: "distinct (r # q # ys)" using path_distinct [OF Nil(1)] by simp
  have "path h (node_next qd) ys" using Nil by auto
  then have "path h' (node_next qd) ys"
    by (rule path_frame) (use d h' in auto)
  moreover have "h' r = Some (rd\<lparr>node_next := node_next qd\<rparr>)" using d h' by simp
  ultimately show ?case using Nil by simp
next
  case (Cons a xs)
  then obtain nd where nd: "h a = Some nd" "path h (node_next nd) (xs @ r # q # ys)" "p = a" "a \<noteq> 0"
    by auto
  have "distinct (a # xs @ r # q # ys)" using path_distinct [OF Cons.prems(1)] by simp
  with Cons.IH [OF nd(2) Cons.prems(2,3)] nd h' show ?case by simp
qed

definition same_data :: "'d heap \<Rightarrow> 'd heap \<Rightarrow> nat set \<Rightarrow> bool" where
  "same_data h h' A \<longleftrightarrow> (\<forall>x \<in> A. node_data (the (h' x)) = node_data (the (h x)))"

lemma node_delete_path:
  assumes path: "path h p ps" and q: "q \<in> set ps"
  shows "\<exists>h' p'. node_delete h p q rm s =
           Some (EXIT_SUCCESS, h', p', call_remove rm (node_data (the (h q))) s) \<and>
         path h' p' (remove1 q ps) \<and> h' q = None \<and>
         (\<forall>x. x \<notin> set ps \<longrightarrow> h' x = h x) \<and> same_data h h' (set ps - {q})"
proof (cases "p = q")
  case True
  then obtain qs nd where qs: "ps = q # qs" "h q = Some nd" "path h (node_next nd) qs" "q \<noteq> 0"
    using assms by (cases ps) auto
  have d: "distinct ps" using path_distinct [OF path] .
  have "path (h(q := None)) (node_next nd) qs"
    by (rule path_frame [OF qs(3)]) (use d qs in auto)
  then show ?thesis using True qs by (auto simp: node_delete_def same_data_def)
next
  case False
  from q obtain as bs where ps: "ps = as @ q # bs" by (auto simp: in_set_conv_decomp)
  with False path have "as \<noteq> []" by (cases as) auto
  then obtain xs r where "as = xs @ [r]" by (cases as rule: rev_cases) auto
  with ps have ps: "ps = xs @ r # q # bs" by simp
  from path_in_heap [OF path] ps obtain rd qd where
    hr: "h r = Some rd" "r \<noteq> 0" and hq: "h q = Some qd" by fastforce
  have "p \<noteq> 0"
  proof
    assume "p = 0"
    then show False using path ps by simp
  qed
  have d: "distinct ps" using path_distinct [OF path] .
  obtain h' where h': "h' = (h(r \<mapsto> rd\<lparr>node_next := node_next qd\<rparr>))(q := None)" by blast
  have "node_delete h p q rm s = Some (EXIT_SUCCESS, h', p, call_remove rm (node_data qd) s)"
    using False \<open>p \<noteq> 0\<close> hr hq find_previous_present [of h p xs r q bs] path ps h'
    by (simp add: node_delete_def)
  moreover have "path h' p (xs @ r # bs)"
    using path_unlink [OF _ hr(1) hq h'] path ps by blast
  moreover have "remove1 q ps = xs @ r # bs" using d ps by (auto simp: remove1_append)
  moreover have "\<forall>x. x \<notin> set ps \<longrightarrow> h' x = h x" and "same_data h h' (set ps - {q})" and "h' q = None"
    using hr h' ps by (auto simp: same_data_def)
  ultimately show ?thesis using hq by auto
qed

lemma node_delete_absent:
  "path h p ps \<Longrightarrow> q \<notin> set ps \<Longrightarrow> q \<noteq> 0 \<Longrightarrow>
   node_delete h p q rm s = Some (EXIT_FAILURE, h, p, s)"
  using find_previous_absent [of h p ps q] by (cases ps) (auto simp: node_delete_def)


lemma data_at_same:
  "same_data h h' A \<Longrightarrow> set ps \<subseteq> A \<Longrightarrow> data_at h' ps = data_at h ps"
  by (auto simp: same_data_def data_at_def)

text \<open>The removal loop, on the part of the list from \<open>temp\<close> on; \<open>kept\<close> are the nodes it passed.\<close>

lemma iterate_loop_path:
  assumes "path h head (kept @ rest)" and "temp = (case rest of [] \<Rightarrow> 0 | q # _ \<Rightarrow> q)"
  shows "\<exists>h' head'. iterate_loop h head temp test rm s n =
           Some (n + length (filter test (data_at h rest)), h', head',
                 fold (call_remove rm) (filter test (data_at h rest)) s) \<and>
         path h' head' (kept @ filter (\<lambda>q. \<not> test (node_data (the (h q)))) rest) \<and>
         same_data h h' (set kept \<union> {q \<in> set rest. \<not> test (node_data (the (h q)))})"
  using assms
proof (induction rest arbitrary: h head kept temp s n)
  case Nil
  then show ?case by (subst iterate_loop.simps) (auto simp: same_data_def)
next
  case (Cons q rest)
  let ?keep = "\<lambda>h q. \<not> test (node_data (the (h q)))"
  have q: "temp = q" "q \<noteq> 0" using Cons.prems path_in_heap by fastforce+
  obtain nd where nd: "h q = Some nd" using path_in_heap [OF Cons.prems(1)] by fastforce
  have nx: "node_next nd = (case rest of [] \<Rightarrow> 0 | r # _ \<Rightarrow> r)"
    using path_suffix [OF Cons.prems(1)] nd by (cases rest) auto
  have d: "distinct (kept @ q # rest)" using path_distinct [OF Cons.prems(1)] .
  show ?case
  proof (cases "test (node_data nd)")
    case False
    have "path h head ((kept @ [q]) @ rest)" using Cons.prems(1) by simp
    from Cons.IH [OF this nx, of s n] False nd q show ?thesis
      by (subst iterate_loop.simps) (auto simp: same_data_def)
  next
    case True
    from node_delete_path [OF Cons.prems(1), of q rm s] obtain h1 head1 where
      del: "node_delete h head q rm s = Some (EXIT_SUCCESS, h1, head1, call_remove rm (node_data nd) s)"
      and p1: "path h1 head1 (remove1 q (kept @ q # rest))"
      and sd: "same_data h h1 (set (kept @ q # rest) - {q})"
      using nd by auto
    have "remove1 q (kept @ q # rest) = kept @ rest" using d by (auto simp: remove1_append)
    with p1 have p1: "path h1 head1 (kept @ rest)" by simp
    have same: "\<And>x. x \<in> set kept \<union> set rest \<Longrightarrow> node_data (the (h1 x)) = node_data (the (h x))"
      using sd d by (auto simp: same_data_def)
    have rest: "data_at h1 rest = data_at h rest"
      "filter (?keep h1) rest = filter (?keep h) rest"
      using same by (auto simp: data_at_def intro!: filter_cong)
    from Cons.IH [OF p1 nx, of "call_remove rm (node_data nd) s" "Suc n"] True nd q del same rest
    show ?thesis
      by (subst iterate_loop.simps) (auto simp: same_data_def)
  qed
qed


lemma delete_all_loop_path:
  "path h p ps \<Longrightarrow>
   delete_all_loop h p rm s n =
     Some (n + length ps, (\<lambda>x. if x \<in> set ps then None else h x), 0,
           fold (call_remove rm) (data_at h ps) s)"
proof (induction ps arbitrary: h p s n)
  case Nil
  then show ?case by (subst delete_all_loop.simps) simp
next
  case (Cons q qs)
  then obtain nd where nd: "h q = Some nd" "path h (node_next nd) qs" "p = q" "q \<noteq> 0" by auto
  have d: "distinct (q # qs)" using path_distinct [OF Cons.prems] .
  obtain h' where h': "h' = h(q := None)" by blast
  have "path h' (node_next nd) qs"
    by (rule path_frame [OF nd(2)]) (use d h' in auto)
  note IH = Cons.IH [OF this, of "call_remove rm (node_data nd) s" "Suc n"]
  have "delete_all_loop h p rm s n =
        delete_all_loop h' (node_next nd) rm (call_remove rm (node_data nd) s) (Suc n)"
    using nd h' by (subst delete_all_loop.simps) simp
  moreover have "data_at h' qs = data_at h qs" using d h' by (simp add: data_at_def)
  moreover have "(\<lambda>x. if x \<in> set qs then None else h' x) =
                 (\<lambda>x. if x \<in> set (q # qs) then None else h x)" using h' by auto
  ultimately show ?case using IH nd by simp
qed

section \<open>The interface the other components rely on\<close>

text \<open>
  The peer program keeps its chunks, peers and transfers in such lists and only ever inserts at
  the head, looks an element up with a comparison function, deletes the node it found, and counts.
  The laws below are what that use needs: the list seen as a HOL list changes by \<open>#\<close>, \<open>find\<close>
  and \<open>remove1\<close>.
\<close>

locale list_interface =
  fixes repr :: "'h \<Rightarrow> nat \<Rightarrow> 'd list \<Rightarrow> bool"
    and fresh :: "'h \<Rightarrow> nat \<Rightarrow> bool"
    and ins :: "nat \<Rightarrow> 'h \<Rightarrow> nat \<Rightarrow> 'd \<Rightarrow> nat \<times> 'h \<times> nat"
    and lookup :: "'h \<Rightarrow> nat \<Rightarrow> ('d \<Rightarrow> 'k \<Rightarrow> bool) \<Rightarrow> 'k \<Rightarrow> nat option"
    and delete :: "'h \<Rightarrow> nat \<Rightarrow> nat \<Rightarrow> ('d \<Rightarrow> 's \<Rightarrow> 's) option \<Rightarrow> 's \<Rightarrow> (int \<times> 'h \<times> nat \<times> 's) option"
    and len :: "'h \<Rightarrow> nat \<Rightarrow> nat option"
  assumes ins_law: "repr h p xs \<Longrightarrow> fresh h a \<Longrightarrow>
      \<exists>h'. ins a h p d = (a, h', a) \<and> repr h' a (d # xs)"
    and lookup_head: "repr h p (d # xs) \<Longrightarrow> cmp d k \<Longrightarrow> lookup h p cmp k = Some p"
    and lookup_absent: "repr h p xs \<Longrightarrow> find (\<lambda>d. cmp d k) xs = None \<Longrightarrow> lookup h p cmp k = Some 0"
    and lookup_delete: "repr h p xs \<Longrightarrow> find (\<lambda>d. cmp d k) xs = Some d \<Longrightarrow>
      \<exists>q h' p'. lookup h p cmp k = Some q \<and> q \<noteq> 0 \<and>
        delete h p q rm s = Some (EXIT_SUCCESS, h', p', call_remove rm d s) \<and>
        repr h' p' (remove1 d xs)"
    and len_law: "repr h p xs \<Longrightarrow> len h p = Some (length xs)"
begin

text \<open>What was inserted last is found first.\<close>

lemma lookup_after_ins:
  assumes "repr h p xs" and "fresh h a" and "cmp d k"
  shows "\<exists>h'. ins a h p d = (a, h', a) \<and> lookup h' a cmp k = Some a \<and> len h' a = Some (Suc (length xs))"
  using ins_law [OF assms(1,2), of d] lookup_head len_law assms(3) by fastforce

text \<open>An element with a unique key is gone after the find-and-delete sequence.\<close>

lemma lookup_after_delete:
  assumes xs: "repr h p xs" and "find (\<lambda>d. cmp d k) xs = Some d"
    and unique: "length (filter (\<lambda>d. cmp d k) xs) = 1"
  shows "\<exists>q h' p'. lookup h p cmp k = Some q \<and>
           delete h p q rm s = Some (EXIT_SUCCESS, h', p', call_remove rm d s) \<and>
           lookup h' p' cmp k = Some 0 \<and> len h' p' = Some (length xs - 1)"
proof -
  have d: "d \<in> set xs" "cmp d k" using assms(2) by (auto simp: find_Some_iff)
  have "length (filter (\<lambda>d. cmp d k) (remove1 d xs)) = 0"
    using unique d by (simp add: filter_remove1 length_remove1)
  then have "find (\<lambda>d. cmp d k) (remove1 d xs) = None"
    by (simp add: find_None_iff filter_empty_conv)
  then show ?thesis
    using lookup_delete [where cmp = cmp and k = k, OF assms(1,2), of rm s] lookup_absent len_law d
    by (metis length_remove1)
qed

end

lemma node_list_pathE:
  assumes "node_list h p xs"
  obtains ps where "path h p ps" and "xs = data_at h ps"
  using assms by (auto simp: node_list_def)

lemma find_data_at:
  "find (\<lambda>q. P (node_data (the (h q)))) ps = Some q \<Longrightarrow> find P (data_at h ps) = Some (node_data (the (h q)))"
  by (induction ps) (auto split: if_splits)

lemma find_data_at_None:
  "find (\<lambda>q. P (node_data (the (h q)))) ps = None \<longleftrightarrow> find P (data_at h ps) = None"
  by (induction ps) auto

lemma data_at_remove_found:
  "find (\<lambda>q. P (node_data (the (h q)))) ps = Some q \<Longrightarrow>
   data_at h (remove1 q ps) = remove1 (node_data (the (h q))) (data_at h ps)"
  by (induction ps) (auto split: if_splits simp: find_Some_iff)

lemma node_find_delete:
  assumes "node_list h p xs" and "find (\<lambda>d. cmp d k) xs = Some d"
  shows "\<exists>q h' p'. node_find h p cmp k = Some q \<and> q \<noteq> 0 \<and>
           node_delete h p q rm s = Some (EXIT_SUCCESS, h', p', call_remove rm d s) \<and>
           node_list h' p' (remove1 d xs)"
proof -
  from assms(1) obtain ps where ps: "path h p ps" "xs = data_at h ps" by (rule node_list_pathE)
  from assms(2) ps(2) obtain q where q: "find (\<lambda>q. cmp (node_data (the (h q))) k) ps = Some q"
    using find_data_at_None [of "\<lambda>d. cmp d k" h ps] by fastforce
  then have d: "d = node_data (the (h q))"
    using find_data_at [of "\<lambda>d. cmp d k" h ps q] assms(2) ps(2) by simp
  have qs: "q \<in> set ps" using q by (auto simp: find_Some_iff)
  from node_delete_path [OF ps(1) qs, of rm s] d obtain h' p' where
    del: "node_delete h p q rm s = Some (EXIT_SUCCESS, h', p', call_remove rm d s)"
    and p': "path h' p' (remove1 q ps)" and sd: "same_data h h' (set ps - {q})"
    by auto
  have "data_at h' (remove1 q ps) = data_at h (remove1 q ps)"
    using sd path_distinct [OF ps(1)] by (intro data_at_same) auto
  also have "\<dots> = remove1 d xs" using data_at_remove_found [OF q] d ps(2) by simp
  finally have "node_list h' p' (remove1 d xs)" using p' by (auto simp: node_list_def)
  moreover have "node_find h p cmp k = Some q" and "q \<noteq> 0"
    using node_find_path [OF ps(1), of cmp k] q path_in_heap [OF ps(1) qs] by simp_all
  ultimately show ?thesis using del by blast
qed

interpretation nodes: list_interface node_list "\<lambda>h a. a \<noteq> 0 \<and> h a = None"
  node_insert node_find node_delete node_length
proof unfold_locales
  fix h :: "'a heap" and p a :: nat and xs d
  assume "node_list h p xs" and a: "a \<noteq> 0 \<and> h a = None"
  then obtain ps where ps: "path h p ps" "xs = data_at h ps" by (auto elim: node_list_pathE)
  let ?h = "h(a \<mapsto> \<lparr>node_next = p, node_data = d\<rparr>)"
  have "a \<notin> set ps" using path_in_heap [OF ps(1)] a by fastforce
  then have "data_at ?h (a # ps) = d # xs" using ps(2) by (simp add: data_at_def)
  then have "node_list ?h a (d # xs)"
    using node_insert_path [OF ps(1)] a unfolding node_list_def by blast
  then show "\<exists>h'. node_insert a h p d = (a, h', a) \<and> node_list h' a (d # xs)"
    using a by (simp add: node_insert_def)
next
  fix h :: "'a heap" and p :: nat and d xs and cmp :: "'a \<Rightarrow> 'b \<Rightarrow> bool" and k
  assume l: "node_list h p (d # xs)" and "cmp d k"
  from l obtain q qs where "path h p (q # qs)" "d # xs = data_at h (q # qs)"
    by (elim node_list_pathE) (metis data_at_simps(1) list.distinct(1) list.exhaust)
  then show "node_find h p cmp k = Some p" using \<open>cmp d k\<close> by auto
next
  fix h :: "'a heap" and p :: nat and xs and cmp :: "'a \<Rightarrow> 'b \<Rightarrow> bool" and k
  assume "node_list h p xs" and none: "find (\<lambda>d. cmp d k) xs = None"
  then obtain ps where ps: "path h p ps" "xs = data_at h ps" by (auto elim: node_list_pathE)
  with none have "find (\<lambda>q. cmp (node_data (the (h q))) k) ps = None"
    using find_data_at_None [of "\<lambda>d. cmp d k" h ps] by simp
  then show "node_find h p cmp k = Some 0" using node_find_path [OF ps(1), of cmp k] by simp
next
  fix h :: "'a heap" and p :: nat and xs
  assume "node_list h p xs"
  then show "node_length h p = Some (length xs)"
    by (auto elim!: node_list_pathE simp: node_length_def count_loop_path)
qed (rule node_find_delete)

section \<open>Properties\<close>

definition two_nodes :: "nat heap" where
  "two_nodes = [1 \<mapsto> \<lparr>node_next = 2, node_data = 5\<rparr>, 2 \<mapsto> \<lparr>node_next = 0, node_data = 7\<rparr>]"

lemma two_nodes_list: "node_list two_nodes 1 [5, 7]"
  unfolding node_list_def by (rule exI [of _ "[1, 2]"]) (simp add: two_nodes_def)

text \<open>
  Deleting the node that \<open>node_find\<close> returns removes exactly the first element that
  matches the key: \<open>node_delete\<close> reports success, calls the destructor once, on that element, and
  leaves a well-formed list of the others in their order.
\<close>

lemma find_then_delete:
  assumes "node_list h p xs" and "find (\<lambda>d. cmp d k) xs = Some d"
  shows "\<exists>q h' p'. node_find h p cmp k = Some q \<and> q \<noteq> 0 \<and>
           node_delete h p q rm s = Some (EXIT_SUCCESS, h', p', call_remove rm d s) \<and>
           node_list h' p' (remove1 d xs)"
  using assms by (rule node_find_delete)

text \<open>
  \<open>node_insert\<close> with the address of a fresh node puts the datum at the head: the next
  lookup with a key it matches finds it and the length grows by one.
\<close>

lemma insert_then_find:
  assumes "node_list h p xs" and "a \<noteq> 0" and "h a = None" and "cmp d k"
  shows "\<exists>h'. node_insert a h p d = (a, h', a) \<and> node_find h' a cmp k = Some a \<and>
           node_length h' a = Some (Suc (length xs))"
  using nodes.lookup_after_ins [of h p xs a cmp d k] assms by simp

text \<open>
  Claim C34. \<open>node_iterate_delete\<close> ends on every list, removes exactly the elements that satisfy the
  test, destroys them in list order, returns their number and keeps the others in order.
\<close>

theorem iterate_delete_filters:
  assumes "node_list h p xs"
  shows "\<exists>h' p'. node_iterate_delete h (Some p) (Some test) rm s =
           Some (of_nat (length (filter test xs)), h', Some p', fold (call_remove rm) (filter test xs) s) \<and>
         node_list h' p' (filter (\<lambda>x. \<not> test x) xs)"
proof -
  from assms obtain ps where ps: "path h p ps" "xs = data_at h ps" by (rule node_list_pathE)
  have "p = (case ps of [] \<Rightarrow> 0 | q # _ \<Rightarrow> q)" using ps(1) by (cases ps) auto
  then obtain h' p' where
    r: "iterate_loop h p p test rm s 0 = Some (0 + length (filter test (data_at h ps)), h', p', fold (call_remove rm) (filter test (data_at h ps)) s)"
    and p': "path h' p' (filter (\<lambda>q. \<not> test (node_data (the (h q)))) ps)"
    and sd: "same_data h h' {q \<in> set ps. \<not> test (node_data (the (h q)))}"
    using iterate_loop_path [of h p "[]" ps p test rm s 0] ps(1) by auto
  have "data_at h' (filter (\<lambda>q. \<not> test (node_data (the (h q)))) ps) = filter (\<lambda>x. \<not> test x) xs"
    using sd by (auto simp: ps(2) data_at_def same_data_def filter_map comp_def)
  then have "node_list h' p' (filter (\<lambda>x. \<not> test x) xs)" using p' by (auto simp: node_list_def)
  then show ?thesis using r ps(2) by (simp add: node_iterate_delete_def)
qed

theorem iterate_delete_filters_witness:
  "\<exists>h' p'. node_iterate_delete two_nodes (Some 1) (Some (\<lambda>x. x = 5)) None () = Some (1, h', Some p', ()) \<and>
     node_list h' p' [7]"
  using iterate_delete_filters [OF two_nodes_list, of "\<lambda>x. x = 5" None "()"] by (simp add: call_remove_def)

text \<open>
  \<open>node_delete_all\<close> ends on every list, destroys every element in order, frees exactly the
  nodes of the list and leaves the head \<open>NULL\<close>.
\<close>

lemma delete_all_empties:
  assumes "path h p ps"
  shows "node_delete_all h p rm s =
           Some (length ps, (\<lambda>x. if x \<in> set ps then None else h x), 0,
                 fold (call_remove rm) (data_at h ps) s)"
  using delete_all_loop_path [OF assms, of rm s 0] by (simp add: node_delete_all_def)

end
