(* ===== verification/Transfers.thy ===== *)
theory Transfers
  imports World Linked_List
begin

text \<open>
  Transfers: \<^verbatim>\<open>src/code/transfer.c\<close>. A transfer ties a chunk to a peer and carries the
  congestion state. It is created when a chunk is requested (client) or asked for (server), and marks
  its peer as unavailable until it is deleted.
\<close>

section \<open>The code\<close>

definition TIMEOUT_THRESHOLD :: u64 where "TIMEOUT_THRESHOLD = 3000"
definition MAX_TO_COUNTS :: u32 where "MAX_TO_COUNTS = 5"
definition RTT :: u32 where "RTT = 200"
definition DEFAULT_WIND_SIZE :: u32 where "DEFAULT_WIND_SIZE = 1"
definition DEFAULT_SS_THRESH :: u32 where "DEFAULT_SS_THRESH = 64"

lemmas transfer_consts = TIMEOUT_THRESHOLD_def MAX_TO_COUNTS_def RTT_def DEFAULT_WIND_SIZE_def
  DEFAULT_SS_THRESH_def

definition transfer_has_timeout :: "tptr \<Rightarrow> world \<Rightarrow> bool \<times> world" where
  "transfer_has_timeout t w =
     (let (now, w) = millitime w
      in (TIMEOUT_THRESHOLD < now - timestamp (transfer_heap w t), w))"

text \<open>The freed memory is no longer reachable; only the peer's flag changes.\<close>

definition delete_transfer :: "tptr option \<Rightarrow> world \<Rightarrow> int \<times> world" where
  "delete_transfer ptr w =
     (case ptr of None \<Rightarrow> (EXIT_FAILURE, w)
      | Some t \<Rightarrow> (EXIT_SUCCESS,
                   upd_peer (tr_peer (transfer_heap w t)) (\<lambda>p. p\<lparr>available := 1\<rparr>) w))"

definition zero_cctrl :: CongestCtrl where
  "zero_cctrl = \<lparr>congest_state = SS, timeout_count = 0, dup_count = 0, last_received = 0,
     cc_begin = 0, cc_index = 0, wind_size = 0, start_wind_size = 0, cc_rtt = 0, ssthresh = 0,
     rtt_timer = 0\<rparr>"

definition create_transfer :: "pptr \<Rightarrow> cptr \<Rightarrow> world \<Rightarrow> tptr \<times> world" where
  "create_transfer peer c w =
     (let t = transfer_top w;
          (now, w) = millitime w;
          cct = zero_cctrl\<lparr>wind_size := DEFAULT_WIND_SIZE, last_received := 0, cc_begin := 0,
                  cc_index := 0, dup_count := 0, timeout_count := 0,
                  ssthresh := DEFAULT_SS_THRESH, congest_state := SS, cc_rtt := RTT\<rparr>;
          tr = \<lparr>tr_peer = peer, tr_chunk = c, cctrl = cct, timestamp = now, tr_rtt = 0\<rparr>;
          w = w\<lparr>transfer_heap := (transfer_heap w)(t := tr), transfer_top := Suc t\<rparr>
      in (t, upd_peer peer (\<lambda>p. p\<lparr>available := 0\<rparr>) w))"

definition compare_transfer_by_chunk_hash :: "world \<Rightarrow> tptr option \<Rightarrow> byte list option \<Rightarrow> bool" where
  "compare_transfer_by_chunk_hash w transfer hash =
     (case (transfer, hash) of
        (Some t, Some h) \<Rightarrow> compare_chunk_by_bin_hash (transfer_chunk w t) h
      | _ \<Rightarrow> False)"

definition compare_transfer_by_peer_id :: "world \<Rightarrow> tptr option \<Rightarrow> pptr option \<Rightarrow> bool" where
  "compare_transfer_by_peer_id w transfer peer =
     (case (transfer, peer) of
        (Some t, Some p) \<Rightarrow> peer_id (transfer_peer w t) = peer_id (peer_heap w p)
      | _ \<Rightarrow> False)"

text \<open>\<open>node_find\<close> on a list of transfers with each of the two comparison functions.\<close>

definition find_by_chunk_hash :: "world \<Rightarrow> tptr list \<Rightarrow> byte list \<Rightarrow> tptr option" where
  "find_by_chunk_hash w ts h = find (\<lambda>t. compare_transfer_by_chunk_hash w (Some t) (Some h)) ts"

definition find_by_peer :: "world \<Rightarrow> tptr list \<Rightarrow> pptr \<Rightarrow> tptr option" where
  "find_by_peer w ts p = find (\<lambda>t. compare_transfer_by_peer_id w (Some t) (Some p)) ts"

section \<open>Facts\<close>

lemma find_by_chunk_hash_iff:
  "find_by_chunk_hash w ts h = find (\<lambda>t. compare_bin_hash (bin_hash (transfer_chunk w t)) h) ts"
  by (simp add: find_by_chunk_hash_def compare_transfer_by_chunk_hash_def compare_chunk_by_bin_hash_def)

lemma find_by_peer_iff:
  "find_by_peer w ts p = find (\<lambda>t. peer_id (transfer_peer w t) = peer_id (peer_heap w p)) ts"
  by (simp add: find_by_peer_def compare_transfer_by_peer_id_def)

lemma find_by_peer_SomeD:
  "find_by_peer w ts p = Some t \<Longrightarrow> t \<in> set ts \<and> peer_id (transfer_peer w t) = peer_id (peer_heap w p)"
  by (auto simp: find_by_peer_iff find_Some_iff)

section \<open>Changes that concern one transfer\<close>

text \<open>
  Most operations on a transfer change its congestion state and time stamp, read the clock, write
  to the window graph and send datagrams; everything else in the program's state is as before.
\<close>

definition local_to :: "tptr \<Rightarrow> world \<Rightarrow> world \<Rightarrow> bool" where
  "local_to t w w' \<longleftrightarrow>
     (\<exists>n g s c ts. w' = w\<lparr>clock_pos := n, window_graph := g, sent := s,
        transfer_heap := (transfer_heap w)(t := (transfer_heap w t)\<lparr>cctrl := c, timestamp := ts\<rparr>)\<rparr>)"

lemma local_toI:
  "w' = w\<lparr>clock_pos := clock_pos w', window_graph := window_graph w', sent := sent w',
     transfer_heap := (transfer_heap w)(t := (transfer_heap w t)
       \<lparr>cctrl := cc w' t, timestamp := timestamp (transfer_heap w' t)\<rparr>)\<rparr> \<Longrightarrow> local_to t w w'"
  unfolding local_to_def by blast

lemma local_toD:
  assumes "local_to t w w'"
  shows "clock w' = clock w" "transfer_top w' = transfer_top w" "peer_heap w' = peer_heap w"
    "chunk_heap w' = chunk_heap w" "chunk_top w' = chunk_top w"
    "wanted_chunks w' = wanted_chunks w" "have_chunks w' = have_chunks w"
    "missing_chunks w' = missing_chunks w" "client_transfers w' = client_transfers w"
    "server_transfers w' = server_transfers w" "start_time w' = start_time w"
    "files w' = files w" "got w' = got w" "stack_packet w' = stack_packet w"
    "user_get_chunk_file w' = user_get_chunk_file w"
    "user_output_filename w' = user_output_filename w"
    "tr_peer (transfer_heap w' u) = tr_peer (transfer_heap w u)"
    "tr_chunk (transfer_heap w' u) = tr_chunk (transfer_heap w u)"
  using assms by (auto simp: local_to_def)

lemma local_to_other: "local_to t w w' \<Longrightarrow> u \<noteq> t \<Longrightarrow> transfer_heap w' u = transfer_heap w u"
  by (auto simp: local_to_def)

lemma local_to_refl [simp]: "local_to t w w"
  by (rule local_toI) simp

lemma local_to_trans [trans]: "local_to t w w1 \<Longrightarrow> local_to t w1 w2 \<Longrightarrow> local_to t w w2"
  unfolding local_to_def [of t w1] by (rule local_toI) (auto simp: local_to_def)

lemma local_to_intros [frame]:
  "local_to t w (upd_cctrl t f w)"
  "local_to t w (snd (millitime w))"
  "local_to t w (upd_transfer t (\<lambda>x. x\<lparr>timestamp := ts\<rparr>) w)"
  "local_to t w (emit a bs w)"
  by (rule local_toI, simp add: world_defs emit_def)+

section \<open>Properties\<close>


text \<open>
  The millisecond clock wraps at \<open>2^20\<close> seconds and the elapsed time is an unsigned
  difference: a transfer whose last message was sent before the wrap has timed out at the first look
  after it, however little time has passed.
\<close>

lemma wrapped_clock_times_out:
  assumes "now_of w < timestamp (transfer_heap w t)" and "unat (timestamp (transfer_heap w t)) < 1048576 * 1000"
  shows "fst (transfer_has_timeout t w)"
proof -
  let ?now = "now_of w" and ?ts = "timestamp (transfer_heap w t)"
  have lt: "unat ?now < unat ?ts" using assms(1) by (simp add: word_less_nat_alt)
  have "unat (?now - ?ts) = 2 ^ 64 + unat ?now - unat ?ts"
    using assms(1) by (simp add: unat_sub_if' word_le_nat_alt word_less_nat_alt)
  then have "3000 < unat (?now - ?ts)" using lt assms(2) by simp
  then show ?thesis
    by (simp add: transfer_has_timeout_def millitime_def Let_def TIMEOUT_THRESHOLD_def word_less_nat_alt)
qed

text \<open>
  A peer is marked busy by \<open>create_transfer\<close>, so that \<open>find_first_available_peer\<close> does not
  choose it for any chunk, and is free again once the transfer is deleted.
\<close>

lemma busy_until_deleted:
  assumes "create_transfer p c w = (t, v)"
  shows "find_first_available_peer (peer_heap v) d \<noteq> Some p \<and>
         fst (delete_transfer (Some t) v) = EXIT_SUCCESS \<and>
         (chunk_peer d = [p] \<longrightarrow> find_first_available_peer (peer_heap (snd (delete_transfer (Some t) v))) d = Some p)"
proof -
  have v: "available (peer_heap v p) = 0" "tr_peer (transfer_heap v t) = p"
    using assms by (auto simp: create_transfer_def Let_def world_defs)
  have "first_available (peer_heap v) ps \<noteq> Some p" for ps
    using v(1) by (induction ps) auto
  then show ?thesis using v(2) by (simp add: find_first_available_peer_def delete_transfer_def world_defs)
qed

end
