(* ===== verification/Congestion.thy ===== *)
theory Congestion
  imports Transfers
begin

text \<open>
  Congestion control: \<^verbatim>\<open>src/code/congestion.c\<close>. Slow start doubles the window on each new
  acknowledgement until it reaches \<open>ssthresh\<close>, congestion avoidance adds one packet per round
  trip time, and a loss halves the threshold and switches the mode.

  The second half states the window as a specification on natural numbers, \<open>ack_spec\<close> and
  \<open>loss_spec\<close>, and shows that the code on 32-bit integers implements it.
\<close>

section \<open>The code\<close>

definition MAX_of :: "u32 \<Rightarrow> u32 \<Rightarrow> u32" where
  "MAX_of a b = (if a < b then b else a)"

definition graph_wind_size :: "tptr \<Rightarrow> world \<Rightarrow> world" where
  "graph_wind_size t w =
     (let (now, w) = millitime w
      in w\<lparr>window_graph := window_graph w @
             [(peer_id (transfer_peer w t), now - start_time w, wind_size (cc w t))]\<rparr>)"

text \<open>The assignments with which both \<open>slow_start\<close> and \<open>detected_first_loss\<close> switch to \<open>CA\<close>.\<close>

definition switch_to_CA :: "tptr \<Rightarrow> world \<Rightarrow> world" where
  "switch_to_CA t w =
     (let w = upd_cctrl t (\<lambda>c. c\<lparr>congest_state := CA\<rparr>) w;
          (now, w) = millitime w;
          w = upd_cctrl t (\<lambda>c. c\<lparr>rtt_timer := now\<rparr>) w
      in upd_cctrl t (\<lambda>c. c\<lparr>start_wind_size := wind_size c\<rparr>) w)"

definition slow_start :: "tptr \<Rightarrow> world \<Rightarrow> world" where
  "slow_start t w =
     (let w = (if cc_rtt (cc w t) = 0 then
                 let (now, w) = millitime w
                 in upd_cctrl t (\<lambda>c. c\<lparr>cc_rtt := ucast (now - timestamp (transfer_heap w t))\<rparr>) w
               else w)
      in if wind_size (cc w t) < ssthresh (cc w t) then
           graph_wind_size t (upd_cctrl t (\<lambda>c. c\<lparr>wind_size := wind_size c * 2\<rparr>) w)
         else switch_to_CA t w)"

definition congestion_avoidance :: "tptr \<Rightarrow> world \<Rightarrow> world" where
  "congestion_avoidance t w =
     (if cc_rtt (cc w t) \<noteq> 0 then
        let (now, w) = millitime w;
            new_wind_size = (now - rtt_timer (cc w t)) div ucast (cc_rtt (cc w t)) +
                            ucast (start_wind_size (cc w t))
        in if ucast (wind_size (cc w t)) \<noteq> new_wind_size then
             graph_wind_size t (upd_cctrl t (\<lambda>c. c\<lparr>wind_size := ucast new_wind_size\<rparr>) w)
           else w
      else w)"

definition congestion_control :: "tptr \<Rightarrow> world \<Rightarrow> world" where
  "congestion_control t w =
     (case congest_state (cc w t) of SS \<Rightarrow> slow_start t w | CA \<Rightarrow> congestion_avoidance t w)"

definition detected_first_loss :: "tptr \<Rightarrow> world \<Rightarrow> world" where
  "detected_first_loss t w =
     (let w = upd_cctrl t (\<lambda>c. c\<lparr>ssthresh := MAX_of (wind_size c div 2) 2\<rparr>) w
      in if congest_state (cc w t) = SS then switch_to_CA t w
         else
           let w = upd_cctrl t (\<lambda>c. c\<lparr>wind_size := 1\<rparr>) w;
               w = upd_cctrl t (\<lambda>c. c\<lparr>congest_state := SS\<rparr>) w
           in graph_wind_size t w)"

lemmas congestion_defs = graph_wind_size_def switch_to_CA_def slow_start_def
  congestion_avoidance_def congestion_control_def detected_first_loss_def world_defs Let_def

section \<open>What the functions leave alone\<close>

text \<open>
  Only the transfer, the clock position and the window graph change; the window's position and the
  counters are kept.
\<close>

definition position :: "CongestCtrl \<Rightarrow> u32 \<times> u32 \<times> u32 \<times> u32 \<times> u32" where
  "position c = (cc_begin c, cc_index c, dup_count c, timeout_count c, last_received c)"

lemma congestion_frame [frame]:
  "local_to t w (congestion_control t w)" "local_to t w (detected_first_loss t w)"
  by (rule local_toI, auto simp: congestion_defs split: CongestType.splits)+

lemma congestion_position [frame]:
  "position (cc (congestion_control t w) t) = position (cc w t)"
  "position (cc (detected_first_loss t w) t) = position (cc w t)"
  by (auto simp: position_def congestion_defs split: CongestType.splits)

section \<open>The window as a specification\<close>

record window =
  w_mode :: CongestType
  w_size :: nat
  w_thresh :: nat
  w_base :: nat
  w_since :: nat

definition ack_spec :: "nat \<Rightarrow> window \<Rightarrow> window" where
  "ack_spec now v =
     (case w_mode v of
        SS \<Rightarrow> if w_size v < w_thresh v then v\<lparr>w_size := 2 * w_size v\<rparr>
              else v\<lparr>w_mode := CA, w_base := w_size v, w_since := now\<rparr>
      | CA \<Rightarrow> v\<lparr>w_size := w_base v + (now - w_since v) div 200\<rparr>)"

definition loss_spec :: "nat \<Rightarrow> window \<Rightarrow> window" where
  "loss_spec now v =
     (let v = v\<lparr>w_thresh := max (w_size v div 2) 2\<rparr>
      in case w_mode v of
           SS \<Rightarrow> v\<lparr>w_mode := CA, w_base := w_size v, w_since := now\<rparr>
         | CA \<Rightarrow> v\<lparr>w_mode := SS, w_size := 1\<rparr>)"

definition window_of :: "CongestCtrl \<Rightarrow> window" where
  "window_of c = \<lparr>w_mode = congest_state c, w_size = unat (wind_size c), w_thresh = unat (ssthresh c),
     w_base = unat (start_wind_size c), w_since = unat (rtt_timer c)\<rparr>"

section \<open>The invariant of the congestion state\<close>

definition cc_ok :: "CongestCtrl \<Rightarrow> bool" where
  "cc_ok c \<longleftrightarrow>
     cc_rtt c = RTT \<and> 2 \<le> unat (ssthresh c) \<and> unat (ssthresh c) \<le> 2 ^ 31 \<and>
     (congest_state c = SS \<longrightarrow> 1 \<le> unat (wind_size c) \<and> unat (wind_size c) < 2 * unat (ssthresh c))"

lemma unat_MAX_of: "unat (MAX_of a b) = max (unat a) (unat b)"
  by (auto simp: MAX_of_def word_less_nat_alt)

lemma unat_double: "unat (x :: u32) < 2 ^ 31 \<Longrightarrow> unat (x * 2) = 2 * unat x"
  by (simp add: unat_word_ariths)

lemma cc_ok_create: "cc_ok (cc (snd (create_transfer p c w)) (fst (create_transfer p c w)))"
  by (simp add: create_transfer_def world_defs Let_def cc_ok_def zero_cctrl_def transfer_consts)

lemma cc_ok_loss:
  assumes "cc_ok (cc w t)" shows "cc_ok (cc (detected_first_loss t w) t)"
proof -
  have "unat (wind_size (cc w t)) < 2 ^ 32" using unsigned_less [of "wind_size (cc w t)"] by simp
  then have "unat (wind_size (cc w t) div 2) \<le> 2 ^ 31" by (simp add: unat_div)
  then show ?thesis using assms
    by (auto simp: cc_ok_def congestion_defs unat_MAX_of split: CongestType.splits)
qed

lemma cc_ok_ack:
  assumes "cc_ok (cc w t)" shows "cc_ok (cc (congestion_control t w) t)"
  using assms unat_double [of "wind_size (cc w t)"]
  by (auto simp: cc_ok_def congestion_defs word_less_nat_alt RTT_def split: CongestType.splits)

section \<open>The code implements the specification\<close>

lemma loss_refines: "window_of (cc (detected_first_loss t w) t) = loss_spec (unat (now_of w)) (window_of (cc w t))"
  by (cases "congest_state (cc w t)")
     (auto simp: congestion_defs loss_spec_def window_of_def unat_MAX_of unat_div)

lemma unat_avoidance:
  assumes "timer \<le> (now :: u64)" and "unat (start :: u32) + (unat now - unat timer) div 200 < 2 ^ 32"
  shows "unat ((now - timer) div 200 + ucast start) = unat start + (unat now - unat timer) div 200"
proof -
  have "unat ((now - timer) div 200) = (unat now - unat timer) div 200"
    using assms(1) by (simp add: unat_div unat_sub)
  then show ?thesis
    using assms(2) by (simp add: unat_word_ariths unat_ucast_u64)
qed

lemma ack_refines:
  assumes ok: "cc_ok (cc w t)"
    and mono: "congest_state (cc w t) = CA \<Longrightarrow> rtt_timer (cc w t) \<le> now_of w"
    and room: "congest_state (cc w t) = CA \<Longrightarrow>
      unat (start_wind_size (cc w t)) + (unat (now_of w) - unat (rtt_timer (cc w t))) div 200 < 2 ^ 32"
  shows "window_of (cc (congestion_control t w) t) = ack_spec (unat (now_of w)) (window_of (cc w t))"
proof (cases "congest_state (cc w t)")
  case SS
  then show ?thesis using ok unat_double [of "wind_size (cc w t)"]
    by (auto simp: cc_ok_def congestion_defs ack_spec_def window_of_def word_less_nat_alt RTT_def)
next
  case CA
  let ?new = "(now_of w - rtt_timer (cc w t)) div 200 + ucast (start_wind_size (cc w t))"
  have new: "unat ?new = unat (start_wind_size (cc w t)) + (unat (now_of w) - unat (rtt_timer (cc w t))) div 200"
    using mono [OF CA] room [OF CA] by (rule unat_avoidance)
  then have small: "unat ?new < 2 ^ 32" using room [OF CA] by simp
  then have cast: "unat (ucast ?new :: u32) = unat ?new"
    by (rule unat_ucast_u32)
  have eq: "unat (wind_size (cc w t)) = unat ?new" if "ucast (wind_size (cc w t)) = ?new"
    using that by (metis unat_ucast_u64)
  show ?thesis
    using CA ok new cast eq by (auto simp: cc_ok_def congestion_defs ack_spec_def window_of_def RTT_def)
qed

section \<open>Sequences of acknowledgements and losses\<close>

datatype cc_event = Acked tptr | Lost tptr

fun cc_step :: "cc_event \<Rightarrow> world \<Rightarrow> world result" where
  "cc_step (Acked t) w = Inr (congestion_control t w)"
| "cc_step (Lost t) w = Inr (detected_first_loss t w)"

definition all_cc_ok :: "world \<Rightarrow> bool" where
  "all_cc_ok w \<longleftrightarrow> (\<forall>t < transfer_top w. cc_ok (cc w t))"

lemma local_to_all_ok:
  "all_cc_ok w \<Longrightarrow> local_to t w w' \<Longrightarrow> (cc_ok (cc w t) \<Longrightarrow> cc_ok (cc w' t)) \<Longrightarrow> all_cc_ok w'"
  unfolding all_cc_ok_def by (metis local_toD(2) local_to_other)

lemma all_cc_ok_step:
  "all_cc_ok w \<Longrightarrow> cc_step e w = Inr w' \<Longrightarrow> all_cc_ok w'"
  by (cases e) (auto intro: local_to_all_ok congestion_frame cc_ok_ack cc_ok_loss)

interpretation congest: total_machine cc_step all_cc_ok "\<lambda>e w. True"
proof unfold_locales
  show "\<exists>s'. cc_step e s = Inr s'" for e s by (cases e) auto
qed (rule all_cc_ok_step)

section \<open>Properties\<close>


text \<open>
  Claim C21. Congestion control on a new acknowledgement implements the specification on natural
  numbers: in slow start the window doubles, without overflow, until it reaches the threshold and the
  mode changes; in congestion avoidance it is the window at the start of the mode plus one packet for
  every 200 milliseconds since. The congestion state is in its invariant; and congestion avoidance
  needs that the clock, which wraps every \<open>2^20\<close> seconds, reads no earlier time now than when the mode
  began, and that the sum fits the 32 bits of the window. After a wrap the unsigned difference is huge
  and the window is not what the specification says.
\<close>

theorem acknowledgement_refines_spec:
  assumes "cc_ok (cc w t)"
    and "congest_state (cc w t) = CA \<Longrightarrow> rtt_timer (cc w t) \<le> now_of w"
    and "congest_state (cc w t) = CA \<Longrightarrow>
      unat (start_wind_size (cc w t)) + (unat (now_of w) - unat (rtt_timer (cc w t))) div 200 < 2 ^ 32"
  shows "window_of (cc (congestion_control t w) t) = ack_spec (unat (now_of w)) (window_of (cc w t))"
  using assms by (rule ack_refines)

theorem acknowledgement_refines_spec_witness:
  "w_size (window_of (cc (congestion_control 0 (snd (create_transfer 0 0 initial_world))) 0)) = 2"
proof -
  let ?w = "snd (create_transfer 0 0 initial_world)"
  have s: "congest_state (cc ?w 0) = SS" "wind_size (cc ?w 0) = 1" "ssthresh (cc ?w 0) = 64"
    by (simp_all add: create_transfer_def initial_world_def Let_def world_defs transfer_consts)
  have "cc_ok (cc ?w 0)"
    using cc_ok_create [of 0 0 initial_world] by (simp add: create_transfer_def initial_world_def Let_def world_defs)
  from acknowledgement_refines_spec [OF this] s show ?thesis
    by (simp add: ack_spec_def window_of_def)
qed

text \<open>
  A detected loss implements its specification for every clock: the threshold becomes half
  the window, at least 2; slow start changes to congestion avoidance and keeps the window, and
  congestion avoidance changes to slow start with a window of one packet.
\<close>

lemma loss_refines_spec:
  "window_of (cc (detected_first_loss t w) t) = loss_spec (unat (now_of w)) (window_of (cc w t))"
  by (rule loss_refines)

text \<open>
  Claim C22. No sequence of acknowledgements and losses, on any transfers and with any clock, brings a
  transfer out of its invariant: the threshold stays between 2 and \<open>2^31\<close>, and in slow start the
  window is at least 1 and less than twice the threshold, so doubling it never overflows.
\<close>

theorem congestion_invariant:
  assumes "\<forall>t < transfer_top w. cc_ok (cc w t)"
  shows "\<exists>w'. fold_result cc_step es w = Inr w' \<and> (\<forall>t < transfer_top w'. cc_ok (cc w' t))"
  using congest.run_total [of w es] assms by (simp add: all_cc_ok_def)

theorem congestion_invariant_witness:
  "\<exists>w'. fold_result cc_step [Acked 0, Lost 0, Lost 0, Acked 0] (snd (create_transfer 0 0 initial_world)) = Inr w' \<and>
     (\<forall>t < transfer_top w'. cc_ok (cc w' t))"
proof (rule congestion_invariant)
  show "\<forall>t < transfer_top (snd (create_transfer 0 0 initial_world)). cc_ok (cc (snd (create_transfer 0 0 initial_world)) t)"
    using cc_ok_create [of 0 0 initial_world] by (simp add: create_transfer_def initial_world_def Let_def world_defs)
qed

end
