(* ===== verification/Server.thy ===== *)
theory Server
  imports Congestion
begin

text \<open>
  The serving side of a peer: \<^verbatim>\<open>src/code/bt_server.c\<close>. It answers \<open>WHOHAS\<close> with \<open>IHAVE\<close>,
  starts a transfer on \<open>GET\<close>, and moves the sliding window of the transfer on each \<open>ACK\<close>.

  A loop over a linked list that may delete the node it stands on, but saves \<open>next\<close> first, is a
  recursion over the list of the pointers it held when the loop began.
\<close>

section \<open>The code\<close>

definition MAX_DUP_ACKS :: u32 where "MAX_DUP_ACKS = 3"

text \<open>\<open>node_delete(&transfers, node, delete_transfer)\<close>\<close>

definition delete_server_transfer :: "tptr \<Rightarrow> world \<Rightarrow> world" where
  "delete_server_transfer t w =
     snd (delete_transfer (Some t) (w\<lparr>server_transfers := remove1 t (server_transfers w)\<rparr>))"

fun server_timeouts :: "tptr list \<Rightarrow> world \<Rightarrow> world" where
  "server_timeouts [] w = w"
| "server_timeouts (t # ts) w =
     (let (timedout, w) = transfer_has_timeout t w
      in if timedout then
           let w = upd_cctrl t (\<lambda>c. c\<lparr>timeout_count := timeout_count c + 1\<rparr>) w
           in if MAX_TO_COUNTS \<le> timeout_count (cc w t)
              then server_timeouts ts (delete_server_transfer t w)
              else server_timeouts ts (detected_first_loss t w)
         else server_timeouts ts w)"

definition handle_server_timeout :: "world \<Rightarrow> world" where
  "handle_server_timeout w =
     (if length (server_transfers w) = 0 then w else server_timeouts (server_transfers w) w)"

definition send_IHAVE :: "pptr \<Rightarrow> byte list list \<Rightarrow> world \<Rightarrow> world result" where
  "send_IHAVE p bin_hash_list w =
     (let n = length bin_hash_list;
          pack = (stack_packet w)\<lparr>ptype := IHAVE, header_len := of_nat STANDARD_HEADER_LEN,
            packet_len := of_nat (STANDARD_HEADER_LEN + HEADER_PAD_LEN + n * BIN_HASH_SIZE),
            seq_num := 0, ack_num := 0, hash_num := of_nat n\<rparr>
      in bind_result (copy_hashes bin_hash_list (hash_list pack)) (\<lambda>hl.
           send_packet_to_peer (pack\<lparr>hash_list := hl\<rparr>) p w))"

text \<open>
  The \<open>DATA\<close> packet for the part of the chunk after the first \<open>idx\<close> parts. The subtraction from
  \<open>BT_CHUNK_SIZE\<close> is unsigned.
\<close>

definition load_DATA :: "chunk \<Rightarrow> u32 \<Rightarrow> Packet result" where
  "load_DATA c idx =
     (let packet = zero_packet\<lparr>ptype := DATA, header_len := of_nat STANDARD_HEADER_LEN\<rparr>;
          index = idx * of_nat DATA_SIZE;
          rest = of_nat BT_CHUNK_SIZE - index;
          n = (if rest < of_nat DATA_SIZE then unat rest else DATA_SIZE)
      in bind_result (mem_read (chunk_data c) (unat index) n) (\<lambda>bytes.
         bind_result (mem_write (pdata packet) 0 bytes) (\<lambda>d.
           Inr (packet\<lparr>pdata := d, packet_len := of_nat (STANDARD_HEADER_LEN + n)\<rparr>))))"

lemma send_packet_to_peer_heap [frame]:
  "send_packet_to_peer pack p w = Inr w' \<Longrightarrow> transfer_heap w' = transfer_heap w"
  by (auto simp: send_packet_to_peer_def emit_def result_simps)

function send_DATA_loop :: "tptr \<Rightarrow> world \<Rightarrow> world result" where
  "send_DATA_loop t w =
     (if cc_index (cc w t) < of_nat MAX_SEQ_NUM \<and>
         cc_index (cc w t) < cc_begin (cc w t) + wind_size (cc w t) then
        bind_result (load_DATA (transfer_chunk w t) (cc_index (cc w t))) (\<lambda>packet.
          let w = upd_cctrl t (\<lambda>c. c\<lparr>cc_index := cc_index c + 1\<rparr>) w;
              packet = packet\<lparr>seq_num := cc_index (cc w t)\<rparr>
          in bind_result (send_packet_to_peer packet (tr_peer (transfer_heap w t)) w)
               (send_DATA_loop t))
      else Inr w)"
  by pat_completeness auto
termination
proof (relation "measure (\<lambda>(t, w). 525 - unat (cc_index (cc w t)))")
  fix t :: tptr and w :: world and packet :: Packet and w1 packet1 w2
  let ?i = "cc_index (cc w t)"
  assume "?i < of_nat MAX_SEQ_NUM \<and> ?i < cc_begin (cc w t) + wind_size (cc w t)"
    and "w1 = upd_cctrl t (\<lambda>c. c\<lparr>cc_index := cc_index c + 1\<rparr>) w"
    and "send_packet_to_peer packet1 (tr_peer (transfer_heap w1 t)) w1 = Inr w2"
  then have i: "unat ?i < 525" and w2: "cc_index (cc w2 t) = ?i + 1"
    by (auto simp: send_packet_to_peer_heap world_defs MAX_SEQ_NUM_def chunk_consts word_less_nat_alt)
  then have "unat (?i + 1) = Suc (unat ?i)" by (simp add: unat_word_ariths)
  with i w2 show "((t, w2), t, w) \<in> measure (\<lambda>(t, w). 525 - unat (cc_index (cc w t)))" by simp
qed simp

declare send_DATA_loop.simps [simp del]

definition send_DATA :: "tptr \<Rightarrow> world \<Rightarrow> world result" where
  "send_DATA t w = send_DATA_loop t (upd_cctrl t (\<lambda>c. c\<lparr>dup_count := 0\<rparr>) w)"

definition send_DENIED :: "pptr \<Rightarrow> world \<Rightarrow> world result" where
  "send_DENIED p w =
     send_packet_to_peer ((stack_packet w)\<lparr>ptype := DENIED, header_len := of_nat STANDARD_HEADER_LEN,
       packet_len := of_nat STANDARD_HEADER_LEN\<rparr>) p w"

definition receive_GET :: "Packet \<Rightarrow> pptr \<Rightarrow> int \<Rightarrow> world \<Rightarrow> world result" where
  "receive_GET pack p max_connections w =
     bind_result (array_get (hash_list pack) 0) (\<lambda>h.
       case find (\<lambda>c. compare_chunk_by_bin_hash (chunk_heap w c) h) (have_chunks w) of
         None \<Rightarrow> send_DENIED p w
       | Some c \<Rightarrow>
           if max_connections \<le> int (length (server_transfers w)) then send_DENIED p w
           else if find_by_chunk_hash w (server_transfers w) h = None then
             let (t, w) = create_transfer p c w;
                 w = w\<lparr>server_transfers := t # server_transfers w\<rparr>
             in send_DATA t w
           else Inr w)"

text \<open>The body of the inner loop: \<open>found\<close> is the part of the array \<open>bin_hash_list\<close> filled so far.\<close>

definition whohas_match :: "world \<Rightarrow> byte list \<Rightarrow> cptr \<Rightarrow> byte list list \<Rightarrow> byte list list result" where
  "whohas_match w h c found =
     (if compare_bin_hash (bin_hash (chunk_heap w c)) h then
        if length found < MAX_HASH_IN_PACKET then Inr (found @ [bin_hash (chunk_heap w c)])
        else Inl Out_Of_Bounds
      else Inr found)"

definition receive_WHOHAS :: "Packet \<Rightarrow> pptr \<Rightarrow> world \<Rightarrow> world result" where
  "receive_WHOHAS pack p w =
     bind_result
       (fold_result
          (\<lambda>i found. bind_result (array_get (hash_list pack) i)
             (\<lambda>h. fold_result (whohas_match w h) (have_chunks w) found))
          [0..<unat (hash_num pack)] [])
       (\<lambda>found. send_IHAVE p found w)"

definition adjust_window :: "tptr \<Rightarrow> u32 \<Rightarrow> world \<Rightarrow> world" where
  "adjust_window t new_index w =
     (let w = upd_cctrl t (\<lambda>c. c\<lparr>cc_begin := new_index\<rparr>) w
      in if cc_index (cc w t) < cc_begin (cc w t)
         then upd_cctrl t (\<lambda>c. c\<lparr>cc_index := cc_begin c\<rparr>) w else w)"

text \<open>What \<open>receive_ACK\<close> does before it resets the time-out of the transfer.\<close>

definition ack_window :: "tptr \<Rightarrow> u32 \<Rightarrow> world \<Rightarrow> world result" where
  "ack_window t ack w =
     (if cc_begin (cc w t) < ack then
        send_DATA t (congestion_control t (adjust_window t ack w))
      else if ack = cc_begin (cc w t) then
        let w = upd_cctrl t (\<lambda>c. c\<lparr>dup_count := dup_count c + 1\<rparr>) w
        in if MAX_DUP_ACKS \<le> dup_count (cc w t) then
             send_DATA t (detected_first_loss t (upd_cctrl t (\<lambda>c. c\<lparr>cc_index := cc_begin c\<rparr>) w))
           else Inr w
      else Inr w)"

definition receive_ACK :: "Packet \<Rightarrow> pptr \<Rightarrow> world \<Rightarrow> world result" where
  "receive_ACK pack p w =
     (case find_by_peer w (server_transfers w) p of
        None \<Rightarrow> Inr w
      | Some t \<Rightarrow>
          if ack_num pack = of_nat MAX_SEQ_NUM then Inr (delete_server_transfer t w)
          else
            bind_result (ack_window t (ack_num pack) w) (\<lambda>w.
              let w = upd_cctrl t (\<lambda>c. c\<lparr>timeout_count := 0\<rparr>) w;
                  (now, w) = millitime w
              in Inr (upd_transfer t (\<lambda>x. x\<lparr>timestamp := now\<rparr>) w)))"

section \<open>The data packets of a window\<close>

text \<open>Part \<open>i\<close> of a chunk, counted from 0: 1000 bytes, 288 in the last part.\<close>

definition part :: "byte list \<Rightarrow> nat \<Rightarrow> byte list" where
  "part d i = take DATA_SIZE (drop (i * DATA_SIZE) d)"

definition data_packet :: "byte list \<Rightarrow> nat \<Rightarrow> Packet" where
  "data_packet d i =
     zero_packet\<lparr>ptype := DATA, header_len := 16, packet_len := of_nat (16 + length (part d i)),
       seq_num := of_nat (Suc i),
       pdata := part d i @ replicate (DATA_SIZE - length (part d i)) 0\<rparr>"

definition data_bytes :: "byte list \<Rightarrow> nat \<Rightarrow> byte list" where
  "data_bytes d i = header_bytes (data_packet d i) @ part d i"

lemma length_part:
  "length d = BT_CHUNK_SIZE \<Longrightarrow> length (part d i) = min DATA_SIZE (BT_CHUNK_SIZE - i * DATA_SIZE)"
  by (simp add: part_def min_def)

lemma length_part_le: "length (part d i) \<le> DATA_SIZE"
  by (simp add: part_def)

lemma load_DATA_part:
  assumes d: "length (chunk_data c) = BT_CHUNK_SIZE" and i: "unat idx < MAX_SEQ_NUM"
  shows "load_DATA c idx = Inr ((data_packet (chunk_data c) (unat idx))\<lparr>seq_num := 0\<rparr>)"
proof -
  let ?i = "unat idx" let ?n = "length (part (chunk_data c) ?i)"
  have i': "?i \<le> 524" using i by (simp add: chunk_consts)
  have ix: "unat (idx * of_nat DATA_SIZE) = ?i * 1000"
    using i' by (simp add: DATA_SIZE_def unat_word_ariths)
  have "idx * of_nat DATA_SIZE \<le> of_nat BT_CHUNK_SIZE"
    using ix i' by (simp add: word_le_nat_alt BT_CHUNK_SIZE_def)
  then have rest: "unat (of_nat BT_CHUNK_SIZE - idx * of_nat DATA_SIZE) = 524288 - ?i * 1000"
    using ix by (simp add: unat_sub BT_CHUNK_SIZE_def)
  then have n: "(if of_nat BT_CHUNK_SIZE - idx * of_nat DATA_SIZE < of_nat DATA_SIZE
        then unat (of_nat BT_CHUNK_SIZE - idx * of_nat DATA_SIZE) else DATA_SIZE) = ?n"
    using length_part [OF d] by (simp add: word_less_nat_alt chunk_consts)
  have rd: "mem_read (chunk_data c) (?i * 1000) ?n = Inr (part (chunk_data c) ?i)"
    using mem_read_part [of "?i * DATA_SIZE" "chunk_data c" DATA_SIZE] d i'
    by (simp add: part_def) (simp add: chunk_consts)
  have wr: "mem_write (pdata zero_packet) 0 (part (chunk_data c) ?i) =
      Inr (part (chunk_data c) ?i @ replicate (DATA_SIZE - ?n) 0)"
    using length_part_le by (simp add: mem_write_zeros zero_packet_def)
  show ?thesis
    unfolding load_DATA_def Let_def n ix rd
    using wr by (simp add: data_packet_def zero_packet_def packet_consts)
qed

lemma data_packet_arrays: "packet_arrays (data_packet d i)"
  using length_part_le [of d i] by (simp add: packet_arrays_def data_packet_def zero_packet_def)

lemma data_packet_wire: "wire_packet (data_packet d i)" 
  and serialize_data_packet: "serialize_packet (data_packet d i) = Inr (data_bytes d i)"
proof -
  let ?n = "length (part d i)"
  have n: "?n \<le> 1000" using length_part_le [of d i] by (simp add: DATA_SIZE_def)
  then have "unat (of_nat (16 + ?n) :: u16) = 16 + ?n" by (simp add: unat_of_nat del: of_nat_add)
  then have pl: "unat (packet_len (data_packet d i)) = 16 + ?n"
    by (simp add: data_packet_def del: of_nat_add)
  have f: "ptype (data_packet d i) = DATA" "header_len (data_packet d i) = 16"
    by (simp_all add: data_packet_def)
  have le: "16 \<le> packet_len (data_packet d i)" using pl by (simp add: word_le_nat_alt)
  have ds: "unat (packet_len (data_packet d i)) - 16 \<le> DATA_SIZE" using pl n by (simp add: DATA_SIZE_def)
  show "wire_packet (data_packet d i)"
    using data_packet_arrays f le ds by (simp add: wire_packet_def)
  show "serialize_packet (data_packet d i) = Inr (data_bytes d i)"
    using serialize_data [OF data_packet_arrays f le ds] pl
    by (simp add: data_bytes_def) (simp add: data_packet_def)
qed

text \<open>The state after the packets up to \<open>m\<close> went out.\<close>

definition sent_parts :: "tptr \<Rightarrow> nat \<Rightarrow> world \<Rightarrow> world" where
  "sent_parts t m w =
     (upd_cctrl t (\<lambda>c. c\<lparr>cc_index := of_nat m\<rparr>) w)
       \<lparr>sent := sent w @ map (\<lambda>i. (peer_addr (transfer_peer w t), data_bytes (chunk_data (transfer_chunk w t)) i))
                            [unat (cc_index (cc w t))..<m]\<rparr>"

definition window_end :: "CongestCtrl \<Rightarrow> nat" where
  "window_end c = max (unat (cc_index c)) (min MAX_SEQ_NUM (unat (cc_begin c + wind_size c)))"

lemma send_DATA_loop_parts:
  assumes "length (chunk_data (transfer_chunk w t)) = BT_CHUNK_SIZE"
  shows "send_DATA_loop t w = Inr (sent_parts t (window_end (cc w t)) w)"
  using assms
proof (induction t w rule: send_DATA_loop.induct)
  case (1 t w)
  let ?i = "cc_index (cc w t)" and ?d = "chunk_data (transfer_chunk w t)"
  let ?go = "?i < of_nat MAX_SEQ_NUM \<and> ?i < cc_begin (cc w t) + wind_size (cc w t)"
  have go: "?go \<longleftrightarrow> unat ?i < min MAX_SEQ_NUM (unat (cc_begin (cc w t) + wind_size (cc w t)))"
    by (simp add: word_less_nat_alt chunk_consts)
  show ?case
  proof (cases ?go)
    case True
    then have i: "unat ?i < MAX_SEQ_NUM" using go by simp
    then have inc: "unat (?i + 1) = Suc (unat ?i)" by (simp add: unat_word_ariths chunk_consts)
    let ?w1 = "upd_cctrl t (\<lambda>c. c\<lparr>cc_index := cc_index c + 1\<rparr>) w"
    let ?w2 = "emit (peer_addr (transfer_peer w t)) (data_bytes ?d (unat ?i)) ?w1"
    have pk: "(data_packet ?d (unat ?i))\<lparr>seq_num := cc_index (cc ?w1 t)\<rparr> = data_packet ?d (unat ?i)"
      by (simp add: data_packet_def world_defs)
    have snd: "send_packet_to_peer (data_packet ?d (unat ?i)) (tr_peer (transfer_heap ?w1 t)) ?w1 = Inr ?w2"
      by (simp add: send_packet_to_peer_eq serialize_data_packet world_defs)
    have "send_DATA_loop t w = send_DATA_loop t ?w2"
      using True by (subst send_DATA_loop.simps) (simp add: load_DATA_part "1.prems" i pk snd Let_def)
    also have "\<dots> = Inr (sent_parts t (window_end (cc ?w2 t)) ?w2)"
      by (rule "1.IH" [OF True load_DATA_part [OF "1.prems" i] refl refl])
         (use snd pk "1.prems" in \<open>simp_all add: emit_def world_defs\<close>)
    also have "window_end (cc ?w2 t) = window_end (cc w t)"
      using go True inc by (simp add: window_end_def emit_def world_defs)
    also have "sent_parts t (window_end (cc w t)) ?w2 = sent_parts t (window_end (cc w t)) w"
      using go True inc
      by (simp add: sent_parts_def emit_def world_defs window_end_def upt_conv_Cons)
    finally show ?thesis .
  next
    case False
    then have "window_end (cc w t) = unat ?i" using go by (auto simp: window_end_def)
    with False show ?thesis
      by (subst send_DATA_loop.simps) (auto simp: sent_parts_def world_defs)
  qed
qed

text \<open>The counter of duplicate acknowledgements is reset, then the window is filled.\<close>

lemma send_DATA_parts:
  assumes "length (chunk_data (transfer_chunk w t)) = BT_CHUNK_SIZE"
  shows "send_DATA t w =
           Inr (sent_parts t (window_end (cc w t)) (upd_cctrl t (\<lambda>c. c\<lparr>dup_count := 0\<rparr>) w))"
  using assms unfolding send_DATA_def
  by (subst send_DATA_loop_parts) (simp_all add: world_defs window_end_def)

section \<open>Answers to \<open>WHOHAS\<close>\<close>

definition owned :: "world \<Rightarrow> byte list \<Rightarrow> byte list list" where
  "owned w h = map (\<lambda>c. bin_hash (chunk_heap w c))
                 (filter (\<lambda>c. compare_bin_hash (bin_hash (chunk_heap w c)) h) (have_chunks w))"

lemma whohas_match_fold:
  assumes "length found \<le> MAX_HASH_IN_PACKET"
  shows "fold_result (whohas_match w h) cs found =
     (let hs = found @ map (\<lambda>c. bin_hash (chunk_heap w c)) (filter (\<lambda>c. compare_bin_hash (bin_hash (chunk_heap w c)) h) cs)
      in if length hs \<le> MAX_HASH_IN_PACKET then Inr hs else Inl Out_Of_Bounds)"
  using assms
proof (induction cs arbitrary: found)
  case (Cons c cs)
  then show ?case by (simp add: whohas_match_def Let_def)
qed simp

lemma whohas_fold:
  assumes "length found \<le> MAX_HASH_IN_PACKET"
  shows "fold_result (\<lambda>h. fold_result (whohas_match w h) (have_chunks w)) hs found =
     (let r = found @ concat (map (owned w) hs)
      in if length r \<le> MAX_HASH_IN_PACKET then Inr r else Inl Out_Of_Bounds)"
  using assms
proof (induction hs arbitrary: found)
  case (Cons h hs)
  then show ?case by (simp add: whohas_match_fold owned_def Let_def)
qed simp

lemma send_IHAVE_message:
  assumes "packet_arrays (stack_packet w)" and "length hs \<le> MAX_HASH_IN_PACKET"
    and "\<And>h. h \<in> set hs \<Longrightarrow> length h = BIN_HASH_SIZE"
  shows "send_IHAVE p hs w = Inr (emit (peer_addr (peer_heap w p)) (hash_message IHAVE 0 hs) w)"
proof -
  let ?hl = "hs @ drop (length hs) (hash_list (stack_packet w))"
  let ?p = "(stack_packet w)\<lparr>ptype := IHAVE, header_len := of_nat STANDARD_HEADER_LEN,
            packet_len := of_nat (STANDARD_HEADER_LEN + HEADER_PAD_LEN + length hs * BIN_HASH_SIZE),
            seq_num := 0, ack_num := 0, hash_num := of_nat (length hs), hash_list := ?hl\<rparr>"
  have "copy_hashes hs (hash_list (stack_packet w)) = Inr ?hl"
    using assms by (simp add: copy_hashes_eq packet_arrays_def)
  moreover have "serialize_packet ?p = Inr (hash_message (ptype ?p) (seq_num ?p) hs)"
    using assms
    by (intro serialize_hash_message)
       (auto simp: packet_arrays_def has_hashes_def packet_consts dest: in_set_dropD)
  ultimately show ?thesis by (simp add: send_IHAVE_def send_packet_to_peer_eq)
qed

lemma receive_WHOHAS_reply:
  assumes pk: "packet_arrays (stack_packet w)" "length (hash_list pack) = MAX_HASH_IN_PACKET"
      "unat (hash_num pack) \<le> MAX_HASH_IN_PACKET"
    and sized: "\<And>c. c \<in> set (have_chunks w) \<Longrightarrow> length (bin_hash (chunk_heap w c)) = BIN_HASH_SIZE"
  shows "receive_WHOHAS pack p w =
     (let r = concat (map (owned w) (take (unat (hash_num pack)) (hash_list pack)))
      in if length r \<le> MAX_HASH_IN_PACKET
         then Inr (emit (peer_addr (peer_heap w p)) (hash_message IHAVE 0 r) w)
         else Inl Out_Of_Bounds)"
proof -
  let ?r = "concat (map (owned w) (take (unat (hash_num pack)) (hash_list pack)))"
  have rows: "length h = BIN_HASH_SIZE" if "h \<in> set ?r" for h
    using that sized by (auto simp: owned_def)
  have "receive_WHOHAS pack p w =
      bind_result (if length ?r \<le> MAX_HASH_IN_PACKET then Inr ?r else Inl Out_Of_Bounds)
        (\<lambda>found. send_IHAVE p found w)"
    unfolding receive_WHOHAS_def using pk by (simp add: fold_result_array whohas_fold)
  moreover have "length ?r \<le> MAX_HASH_IN_PACKET \<Longrightarrow>
      send_IHAVE p ?r w = Inr (emit (peer_addr (peer_heap w p)) (hash_message IHAVE 0 ?r) w)"
    using pk(1) rows by (intro send_IHAVE_message)
  ultimately show ?thesis by (simp add: Let_def)
qed

section \<open>Requests for a chunk\<close>

lemma send_DENIED_faults: "packet_arrays (stack_packet w) \<Longrightarrow> send_DENIED p w = Inl Out_Of_Bounds"
  unfolding send_DENIED_def send_packet_to_peer_eq
  by (subst serialize_header_only) (auto simp: packet_arrays_def has_hashes_def packet_consts)

text \<open>A new transfer has a window of one packet.\<close>

lemma receive_GET_new:
  assumes h: "length (hash_list pack) = MAX_HASH_IN_PACKET"
    and c: "find (\<lambda>c. compare_chunk_by_bin_hash (chunk_heap w c) (hash_list pack ! 0)) (have_chunks w) = Some c"
    and room: "int (length (server_transfers w)) < limit"
    and idle: "find_by_chunk_hash w (server_transfers w) (hash_list pack ! 0) = None"
    and size: "length (chunk_data (chunk_heap w c)) = BT_CHUNK_SIZE"
  shows "\<exists>w'. receive_GET pack p limit w = Inr w' \<and>
     server_transfers w' = transfer_top w # server_transfers w \<and>
     tr_chunk (transfer_heap w' (transfer_top w)) = c \<and> tr_peer (transfer_heap w' (transfer_top w)) = p \<and>
     cc_index (cc w' (transfer_top w)) = 1 \<and> available (peer_heap w' p) = 0 \<and>
     sent w' = sent w @ [(peer_addr (peer_heap w p), data_bytes (chunk_data (chunk_heap w c)) 0)]"
proof -
  let ?w = "snd (create_transfer p c w)"
  let ?w1 = "?w\<lparr>server_transfers := transfer_top w # server_transfers w\<rparr>"
  have "receive_GET pack p limit w = send_DATA (transfer_top w) ?w1"
    using h c room idle
    by (simp add: receive_GET_def array_get_def packet_consts chunk_consts create_transfer_def Let_def world_defs)
  also have "\<dots> = Inr (sent_parts (transfer_top w) 1 (upd_cctrl (transfer_top w) (\<lambda>c. c\<lparr>dup_count := 0\<rparr>) ?w1))"
    using size
    by (subst send_DATA_parts)
       (auto simp: create_transfer_def Let_def world_defs window_end_def zero_cctrl_def transfer_consts chunk_consts)
  finally show ?thesis
    by (simp add: sent_parts_def create_transfer_def Let_def world_defs zero_cctrl_def)
qed

section \<open>The invariant of the serving side\<close>

text \<open>
  Each outgoing transfer serves a chunk the peer has, its congestion state is in order, and its
  window does not end before it begins.
\<close>

definition window_ok :: "CongestCtrl \<Rightarrow> bool" where
  "window_ok c \<longleftrightarrow> cc_begin c \<le> cc_index c \<and> (unat (cc_index c) \<le> MAX_SEQ_NUM \<or> cc_index c = cc_begin c)"

definition serves :: "world \<Rightarrow> tptr \<Rightarrow> bool" where
  "serves w t \<longleftrightarrow> t < transfer_top w \<and> tr_chunk (transfer_heap w t) \<in> set (have_chunks w) \<and>
     cc_ok (cc w t) \<and> window_ok (cc w t)"

definition have_sized :: "world \<Rightarrow> bool" where
  "have_sized w \<longleftrightarrow> (\<forall>c \<in> set (have_chunks w).
     length (chunk_data (chunk_heap w c)) = BT_CHUNK_SIZE \<and> length (bin_hash (chunk_heap w c)) = BIN_HASH_SIZE)"

definition server_ok :: "world \<Rightarrow> bool" where
  "server_ok w \<longleftrightarrow> distinct (server_transfers w) \<and> (\<forall>t \<in> set (server_transfers w). serves w t) \<and>
     have_sized w \<and> packet_arrays (stack_packet w)"

lemma server_ok_local:
  assumes "server_ok w" and "local_to t w w'" and "t \<in> set (server_transfers w) \<Longrightarrow> cc_ok (cc w' t) \<and> window_ok (cc w' t)"
  shows "server_ok w'"
proof -
  have "serves w' u" if "u \<in> set (server_transfers w)" for u
    using that assms local_to_other [OF assms(2), of u]
    by (cases "u = t") (auto simp: server_ok_def serves_def local_toD [OF assms(2)])
  then show ?thesis using assms(1) by (simp add: server_ok_def have_sized_def local_toD [OF assms(2)])
qed

lemma window_end_ok:
  assumes "window_ok c"
  shows "window_ok (c\<lparr>cc_index := of_nat (window_end c)\<rparr>)"
proof -
  have "unat (cc_index c) < 2 ^ 32" using unsigned_less [of "cc_index c"] by simp
  then have e: "window_end c < 2 ^ 32" by (simp add: window_end_def chunk_consts)
  then have "unat (of_nat (window_end c) :: u32) = window_end c" by (simp add: unat_of_nat)
  moreover have "window_end c \<le> MAX_SEQ_NUM \<or> window_end c = unat (cc_index c)"
    by (auto simp: window_end_def)
  moreover have "unat (cc_begin c) \<le> window_end c"
    using assms by (auto simp: window_ok_def window_end_def word_le_nat_alt le_max_iff_disj)
  ultimately show ?thesis using assms
    by (auto simp: window_ok_def word_le_nat_alt)
qed

text \<open>A transfer that serves keeps doing so when its window is filled.\<close>

lemma send_DATA_ok:
  assumes "length (chunk_data (transfer_chunk w t)) = BT_CHUNK_SIZE"
  shows "\<exists>w'. send_DATA t w = Inr w' \<and> local_to t w w' \<and>
    (cc_ok (cc w t) \<longrightarrow> cc_ok (cc w' t)) \<and> (window_ok (cc w t) \<longrightarrow> window_ok (cc w' t))"
proof -
  let ?w = "sent_parts t (window_end (cc w t)) (upd_cctrl t (\<lambda>c. c\<lparr>dup_count := 0\<rparr>) w)"
  have "local_to t w ?w" by (rule local_toI) (simp add: sent_parts_def world_defs)
  moreover have "window_ok (cc w t) \<longrightarrow> window_ok (cc ?w t)"
    using window_end_ok [of "cc w t"] by (auto simp: sent_parts_def world_defs window_ok_def)
  moreover have "cc_ok (cc w t) \<longrightarrow> cc_ok (cc ?w t)"
    by (simp add: sent_parts_def world_defs cc_ok_def)
  ultimately show ?thesis using send_DATA_parts [OF assms] by blast
qed

text \<open>What the serving side leaves to the client side of the same peer.\<close>

definition server_frame :: "world \<Rightarrow> world \<Rightarrow> bool" where
  "server_frame w w' \<longleftrightarrow>
     chunk_heap w' = chunk_heap w \<and> chunk_top w' = chunk_top w \<and> have_chunks w' = have_chunks w \<and>
     missing_chunks w' = missing_chunks w \<and> wanted_chunks w' = wanted_chunks w \<and>
     client_transfers w' = client_transfers w \<and> files w' = files w \<and> got w' = got w \<and>
     user_output_filename w' = user_output_filename w \<and> user_get_chunk_file w' = user_get_chunk_file w \<and>
     stack_packet w' = stack_packet w \<and> transfer_top w \<le> transfer_top w' \<and>
     (\<forall>u < transfer_top w. u \<notin> set (server_transfers w) \<longrightarrow> transfer_heap w' u = transfer_heap w u) \<and>
     (\<forall>p. peer_id (peer_heap w' p) = peer_id (peer_heap w p) \<and>
          peer_addr (peer_heap w' p) = peer_addr (peer_heap w p)) \<and>
     set (server_transfers w') \<subseteq> set (server_transfers w) \<union> {transfer_top w..<transfer_top w'}"

lemma server_frame_local: "local_to t w w' \<Longrightarrow> t \<in> set (server_transfers w) \<Longrightarrow> server_frame w w'"
  by (simp add: server_frame_def local_toD) (metis local_to_other)

lemma server_frame_refl [simp]: "server_frame w w"
  by (simp add: server_frame_def)

lemma server_frame_trans [trans]:
  assumes a: "server_frame w w1" and b: "server_frame w1 w2"
  shows "server_frame w w2"
proof -
  have "transfer_heap w2 u = transfer_heap w u" if u: "u < transfer_top w" "u \<notin> set (server_transfers w)" for u
  proof -
    have "u \<notin> set (server_transfers w1)" and "u < transfer_top w1"
      using a u by (fastforce simp: server_frame_def)+
    then show ?thesis using a b u by (simp add: server_frame_def)
  qed
  moreover have "set (server_transfers w2) \<subseteq> set (server_transfers w) \<union> {transfer_top w..<transfer_top w2}"
    using a b by (fastforce simp: server_frame_def)
  ultimately show ?thesis using a b by (simp add: server_frame_def)
qed

lemma delete_server_transfer_ok:
  assumes "server_ok w"
  shows "server_ok (delete_server_transfer t w)" and "server_frame w (delete_server_transfer t w)"
  using assms
  by (auto simp: server_ok_def serves_def have_sized_def delete_server_transfer_def delete_transfer_def
        server_frame_def world_defs dest: notin_set_remove1 set_remove1_subset [THEN subsetD])

lemma serves_chunk_sized:
  "server_ok w \<Longrightarrow> t \<in> set (server_transfers w) \<Longrightarrow> length (chunk_data (transfer_chunk w t)) = BT_CHUNK_SIZE"
  by (auto simp: server_ok_def serves_def have_sized_def)

lemma ack_window_ok:
  assumes ok: "server_ok w" and t: "t \<in> set (server_transfers w)"
  shows "\<exists>w'. ack_window t ack w = Inr w' \<and> local_to t w w' \<and> cc_ok (cc w' t) \<and> window_ok (cc w' t)"
proof -
  have c: "cc_ok (cc w t)" "window_ok (cc w t)" using ok t by (auto simp: server_ok_def serves_def)
  have step: "\<exists>w'. send_DATA t v = Inr w' \<and> local_to t w w' \<and> cc_ok (cc w' t) \<and> window_ok (cc w' t)"
    if "local_to t w v" "cc_ok (cc v t)" "window_ok (cc v t)" for v
  proof -
    have "length (chunk_data (transfer_chunk v t)) = BT_CHUNK_SIZE"
      using serves_chunk_sized [OF ok t] by (simp add: local_toD [OF that(1)])
    from send_DATA_ok [OF this] that local_to_trans [OF that(1)] show ?thesis by blast
  qed
  consider (new) "cc_begin (cc w t) < ack" | (dup) "ack = cc_begin (cc w t)" | (old) "ack < cc_begin (cc w t)"
    by (metis linorder_less_linear)
  then show ?thesis
  proof cases
    case new
    let ?a = "adjust_window t ack w" let ?v = "congestion_control t ?a"
    have a: "local_to t w ?a" "cc_ok (cc ?a t)" "window_ok (cc ?a t)"
      using c new by (auto simp: adjust_window_def Let_def world_defs cc_ok_def window_ok_def intro!: local_toI)
    have "window_ok (cc ?v t)"
      using congestion_position(1) [of t ?a] a(3) by (simp add: position_def window_ok_def)
    with step [of ?v] a cc_ok_ack [OF a(2)] local_to_trans [OF a(1) congestion_frame(1)] new
    show ?thesis by (simp add: ack_window_def)
  next
    case dup
    let ?d = "upd_cctrl t (\<lambda>c. c\<lparr>dup_count := dup_count c + 1\<rparr>) w"
    let ?a = "upd_cctrl t (\<lambda>c. c\<lparr>cc_index := cc_begin c\<rparr>) ?d" let ?v = "detected_first_loss t ?a"
    have d: "local_to t w ?d" "cc_ok (cc ?d t)" "window_ok (cc ?d t)"
      using c by (auto simp: world_defs cc_ok_def window_ok_def intro!: local_toI)
    have a: "local_to t w ?a" "cc_ok (cc ?a t)" "window_ok (cc ?a t)"
      using c by (auto simp: world_defs cc_ok_def window_ok_def intro!: local_toI)
    have "window_ok (cc ?v t)"
      using congestion_position(2) [of t ?a] a(3) by (simp add: position_def window_ok_def)
    with step [of ?v] cc_ok_loss [OF a(2)] local_to_trans [OF a(1) congestion_frame(2)] dup d
    show ?thesis by (simp add: ack_window_def Let_def)
  next
    case old
    then show ?thesis using c by (auto simp: ack_window_def)
  qed
qed

lemma receive_ACK_ok:
  assumes ok: "server_ok w"
  shows "\<exists>w'. receive_ACK pack p w = Inr w' \<and> server_ok w' \<and> server_frame w w'"
proof (cases "find_by_peer w (server_transfers w) p")
  case None
  then show ?thesis using ok by (simp add: receive_ACK_def)
next
  case (Some t)
  then have t: "t \<in> set (server_transfers w)" by (auto dest: find_by_peer_SomeD)
  show ?thesis
  proof (cases "ack_num pack = of_nat MAX_SEQ_NUM")
    case True
    then show ?thesis using Some delete_server_transfer_ok [OF ok] by (simp add: receive_ACK_def)
  next
    case False
    obtain v where v: "ack_window t (ack_num pack) w = Inr v" "local_to t w v" "cc_ok (cc v t)" "window_ok (cc v t)"
      using ack_window_ok [OF ok t] by blast
    let ?v1 = "upd_cctrl t (\<lambda>c. c\<lparr>timeout_count := 0\<rparr>) v"
    let ?v2 = "upd_transfer t (\<lambda>x. x\<lparr>timestamp := now_of ?v1\<rparr>) (snd (millitime ?v1))"
    have "local_to t v ?v2" by (rule local_toI) (simp add: world_defs)
    then have l: "local_to t w ?v2" by (rule local_to_trans [OF v(2)])
    have "cc_ok (cc ?v2 t) \<and> window_ok (cc ?v2 t)" using v(3,4) by (simp add: world_defs cc_ok_def window_ok_def)
    then have "server_ok ?v2" using server_ok_local [OF ok l] by blast
    moreover have "receive_ACK pack p w = Inr ?v2"
      using Some False v(1) by (simp add: receive_ACK_def Let_def millitime_def)
    ultimately show ?thesis using server_frame_local [OF l t] by blast
  qed
qed

lemma server_timeouts_ok:
  assumes "server_ok w" and "distinct ts" and "set ts \<subseteq> set (server_transfers w)"
  shows "server_ok (server_timeouts ts w) \<and> server_frame w (server_timeouts ts w)"
  using assms
proof (induction ts arbitrary: w)
  case (Cons t ts)
  let ?w0 = "snd (millitime w)"
  let ?w1 = "upd_cctrl t (\<lambda>c. c\<lparr>timeout_count := timeout_count c + 1\<rparr>) ?w0"
  have t: "t \<in> set (server_transfers w)" and rest: "set ts \<subseteq> set (server_transfers w) - {t}" using Cons.prems by auto
  have c: "cc_ok (cc w t)" "window_ok (cc w t)" using Cons.prems(1) t by (auto simp: server_ok_def serves_def)
  have l0: "local_to t w ?w0" by (rule local_to_intros)
  have l1: "local_to t w ?w1" by (rule local_to_trans [OF l0 local_to_intros(1)])
  have c1: "cc_ok (cc ?w1 t)" "window_ok (cc ?w1 t)" using c by (auto simp: world_defs cc_ok_def window_ok_def)
  have next_ok: "server_ok (server_timeouts ts v) \<and> server_frame w (server_timeouts ts v)"
    if "server_ok v" "server_frame w v" "set ts \<subseteq> set (server_transfers v)" for v
    using Cons.IH [OF that(1) _ that(3)] Cons.prems(2) server_frame_trans [OF that(2)] by auto
  have "server_ok ?w0" using server_ok_local [OF Cons.prems(1) l0] c by (simp add: world_defs)
  moreover have "server_frame w ?w0" by (rule server_frame_local [OF l0 t])
  ultimately have quiet: "server_ok (server_timeouts ts ?w0) \<and> server_frame w (server_timeouts ts ?w0)"
    using rest by (intro next_ok) (auto simp: world_defs)
  have ok1: "server_ok ?w1" using server_ok_local [OF Cons.prems(1) l1] c1 by blast
  have f1: "server_frame w ?w1" by (rule server_frame_local [OF l1 t])
  let ?del = "delete_server_transfer t ?w1" and ?loss = "detected_first_loss t ?w1"
  have dead: "server_ok (server_timeouts ts ?del) \<and> server_frame w (server_timeouts ts ?del)"
  proof (rule next_ok)
    show "set ts \<subseteq> set (server_transfers ?del)"
      using rest by (simp add: delete_server_transfer_def delete_transfer_def world_defs)
        (metis Diff_iff in_set_remove1 insertI1 subset_iff)
  qed (use delete_server_transfer_ok [OF ok1] server_frame_trans [OF f1] in auto)
  have ll: "local_to t w ?loss" by (rule local_to_trans [OF l1 congestion_frame(2)])
  have "window_ok (cc ?loss t)"
    using congestion_position(2) [of t ?w1] c1(2) by (simp add: position_def window_ok_def)
  then have "server_ok ?loss" using server_ok_local [OF Cons.prems(1) ll] cc_ok_loss [OF c1(1)] by blast
  then have lost: "server_ok (server_timeouts ts ?loss) \<and> server_frame w (server_timeouts ts ?loss)"
    using rest server_frame_local [OF ll t] by (intro next_ok) (auto simp: local_toD [OF ll])
  show ?case using quiet dead lost
    by (auto simp: transfer_has_timeout_def Let_def millitime_def split: prod.splits)
qed simp

lemma handle_server_timeout_ok:
  "server_ok w \<Longrightarrow> server_ok (handle_server_timeout w) \<and> server_frame w (handle_server_timeout w)"
  by (simp add: handle_server_timeout_def server_timeouts_ok server_ok_def [of w, THEN iffD1])

lemma receive_GET_ok:
  assumes ok: "server_ok w" and r: "receive_GET pack p limit w = Inr w'"
  shows "server_ok w' \<and> server_frame w w'"
proof -
  let ?h = "hash_list pack ! 0" let ?t = "transfer_top w"
  have ar: "packet_arrays (stack_packet w)" using ok by (simp add: server_ok_def)
  have no: "send_DENIED p w \<noteq> Inr v" for v using send_DENIED_faults [OF ar, of p] by simp
  from r obtain c where
    c: "find (\<lambda>c. compare_chunk_by_bin_hash (chunk_heap w c) ?h) (have_chunks w) = Some c"
    and cs: "(if find_by_chunk_hash w (server_transfers w) ?h = None then
             let (t, w) = create_transfer p c w; w = w\<lparr>server_transfers := t # server_transfers w\<rparr>
             in send_DATA t w else Inr w) = Inr w'"
    unfolding receive_GET_def by (auto simp: result_simps no split: option.splits if_splits)
  show ?thesis
  proof (cases "find_by_chunk_hash w (server_transfers w) ?h")
    case (Some u)
    then show ?thesis using cs ok by simp
  next
    case None
    let ?v = "(snd (create_transfer p c w))\<lparr>server_transfers := ?t # server_transfers w\<rparr>"
    have s: "send_DATA ?t ?v = Inr w'" using cs None by (simp add: create_transfer_def Let_def world_defs millitime_def)
    have "c \<in> set (have_chunks w)" using c by (auto simp: find_Some_iff)
    then have v: "server_ok ?v" "server_frame w ?v"
      using ok by (fastforce simp: server_ok_def serves_def have_sized_def server_frame_def create_transfer_def
          Let_def world_defs cc_ok_def window_ok_def zero_cctrl_def transfer_consts)+
    have t: "?t \<in> set (server_transfers ?v)" by simp
    from send_DATA_ok [OF serves_chunk_sized [OF v(1) t]] s
    have l: "local_to ?t ?v w'" and k: "cc_ok (cc ?v ?t) \<longrightarrow> cc_ok (cc w' ?t)" "window_ok (cc ?v ?t) \<longrightarrow> window_ok (cc w' ?t)"
      by auto
    have "serves ?v ?t" using v(1) t by (simp only: server_ok_def)
    then have "server_ok w'" using server_ok_local [OF v(1) l] k by (simp add: serves_def)
    then show ?thesis using server_frame_trans [OF v(2) server_frame_local [OF l t]] by simp
  qed
qed

lemma server_ok_emit: "server_ok (emit a m w) = server_ok w" "server_frame w (emit a m w)"
  by (simp_all add: server_ok_def serves_def have_sized_def server_frame_def emit_def)

lemma receive_WHOHAS_ok:
  assumes "server_ok w" and "receive_WHOHAS pack p w = Inr w'"
  shows "server_ok w' \<and> server_frame w w'"
proof -
  obtain a m where "w' = emit a m w"
    using assms(2) by (auto simp: receive_WHOHAS_def send_IHAVE_def send_packet_to_peer_def result_simps Let_def)
  then show ?thesis using assms(1) by (simp add: server_ok_emit)
qed

text \<open>The number of outgoing transfers stays within the configured limit.\<close>

lemma receive_GET_limit:
  assumes "int (length (server_transfers w)) \<le> limit" and "packet_arrays (stack_packet w)"
    and sized: "have_sized w" and "receive_GET pack p limit w = Inr w'"
  shows "int (length (server_transfers w')) \<le> limit"
proof -
  have no: "send_DENIED p w \<noteq> Inr v" for v using send_DENIED_faults [OF assms(2), of p] by simp
  let ?h = "hash_list pack ! 0"
  from assms(4) obtain c where
    c: "find (\<lambda>c. compare_chunk_by_bin_hash (chunk_heap w c) ?h) (have_chunks w) = Some c"
    and h: "hash_list pack \<noteq> []" and room: "int (length (server_transfers w)) < limit"
    and cs: "w' = w \<or> send_DATA (transfer_top w) ((snd (create_transfer p c w))\<lparr>server_transfers := transfer_top w # server_transfers w\<rparr>) = Inr w'"
    unfolding receive_GET_def
    by (auto simp: result_simps no create_transfer_def Let_def world_defs millitime_def
        split: option.splits if_splits)
  let ?v = "(snd (create_transfer p c w))\<lparr>server_transfers := transfer_top w # server_transfers w\<rparr>"
  have "length (chunk_data (chunk_heap w c)) = BT_CHUNK_SIZE"
    using c sized by (auto simp: have_sized_def find_Some_iff)
  then have "length (chunk_data (transfer_chunk ?v (transfer_top w))) = BT_CHUNK_SIZE"
    by (simp add: create_transfer_def Let_def world_defs)
  from send_DATA_ok [OF this] cs room show ?thesis by (auto simp: local_toD)
qed

section \<open>Rounds of time-outs\<close>

text \<open>The body of the loop of \<open>server_timeouts\<close>.\<close>

definition timeout_step :: "tptr \<Rightarrow> world \<Rightarrow> world" where
  "timeout_step t w =
     (let (timedout, w) = transfer_has_timeout t w
      in if timedout then
           let w = upd_cctrl t (\<lambda>c. c\<lparr>timeout_count := timeout_count c + 1\<rparr>) w
           in if MAX_TO_COUNTS \<le> timeout_count (cc w t) then delete_server_transfer t w else detected_first_loss t w
         else w)"

lemma server_timeouts_fold: "server_timeouts ts w = fold timeout_step ts w"
  by (induction ts arbitrary: w) (simp_all add: timeout_step_def Let_def split: prod.splits)

lemma handle_server_timeout_fold: "handle_server_timeout w = fold timeout_step (server_transfers w) w"
  by (simp add: handle_server_timeout_def server_timeouts_fold)

text \<open>A transfer has been silent for more than three seconds at the reading \<open>i\<close> of the clock.\<close>

definition overdue :: "world \<Rightarrow> nat \<Rightarrow> tptr \<Rightarrow> bool" where
  "overdue w i t \<longleftrightarrow> TIMEOUT_THRESHOLD < millitime_of (clock w i) - timestamp (transfer_heap w t)"

lemma clock_pos_detected_first_loss: "clock_pos w \<le> clock_pos (detected_first_loss t w)"
  by (simp add: congestion_defs)

lemma local_to_timestamp: "timestamp (transfer_heap (detected_first_loss t w) u) = timestamp (transfer_heap w u)"
  by (simp add: congestion_defs)

lemma timeout_step_early: "\<not> overdue w (clock_pos w) t \<Longrightarrow> timeout_step t w = snd (millitime w)"
  by (simp add: timeout_step_def transfer_has_timeout_def overdue_def millitime_def Let_def)

lemma unat_count_Suc: "unat (c :: u32) < 5 \<Longrightarrow> unat (c + 1) = Suc (unat c)"
  by (simp add: unat_word_ariths)

text \<open>The state in which the reaction to a time-out begins.\<close>

abbreviation counted :: "tptr \<Rightarrow> world \<Rightarrow> world" where
  "counted t w \<equiv> upd_cctrl t (\<lambda>c. c\<lparr>timeout_count := timeout_count c + 1\<rparr>) (snd (millitime w))"

lemma timeout_step_loss:
  assumes "overdue w (clock_pos w) t" and "unat (timeout_count (cc w t)) < 4"
  shows "timeout_step t w = detected_first_loss t (counted t w)"
proof -
  have "\<not> MAX_TO_COUNTS \<le> timeout_count (cc w t) + 1"
    using assms(2) unat_count_Suc [of "timeout_count (cc w t)"] by (simp add: MAX_TO_COUNTS_def word_le_nat_alt)
  then show ?thesis using assms(1)
    by (simp add: timeout_step_def transfer_has_timeout_def overdue_def Let_def) (simp add: world_defs)
qed

lemma timeout_step_last:
  assumes "overdue w (clock_pos w) t" and "unat (timeout_count (cc w t)) = 4"
  shows "timeout_step t w = delete_server_transfer t (counted t w)"
proof -
  have "MAX_TO_COUNTS \<le> timeout_count (cc w t) + 1"
    using assms(2) unat_count_Suc [of "timeout_count (cc w t)"] by (simp add: MAX_TO_COUNTS_def word_le_nat_alt)
  then show ?thesis using assms(1)
    by (simp add: timeout_step_def transfer_has_timeout_def overdue_def Let_def) (simp add: world_defs)
qed

text \<open>
  What holds when every transfer \<open>t\<close> of \<open>w0\<close> has been looked at \<open>m t\<close> times: the silent ones whose count
  reached five are gone and their peers available; the others have counted their time-outs and
  taken each for a loss.
\<close>

definition given_up :: "world \<Rightarrow> (tptr \<Rightarrow> bool) \<Rightarrow> (tptr \<Rightarrow> nat) \<Rightarrow> tptr \<Rightarrow> bool" where
  "given_up w0 silent m t \<longleftrightarrow> silent t \<and> 5 \<le> unat (timeout_count (cc w0 t)) + m t"

definition losses :: "world \<Rightarrow> tptr \<Rightarrow> nat \<Rightarrow> world \<Rightarrow> bool" where
  "losses w0 t n w \<longleftrightarrow> unat (timeout_count (cc w t)) = unat (timeout_count (cc w0 t)) + n \<and>
     (\<exists>ks. length ks = n \<and> set ks \<subseteq> (\<lambda>i. unat (millitime_of (clock w0 i))) ` {clock_pos w0..} \<and>
        window_of (cc w t) = fold loss_spec ks (window_of (cc w0 t)))"

definition looked_at :: "world \<Rightarrow> (tptr \<Rightarrow> bool) \<Rightarrow> (tptr \<Rightarrow> nat) \<Rightarrow> world \<Rightarrow> bool" where
  "looked_at w0 silent m w \<longleftrightarrow> clock w = clock w0 \<and> clock_pos w0 \<le> clock_pos w \<and>
     server_transfers w = filter (\<lambda>t. \<not> given_up w0 silent m t) (server_transfers w0) \<and>
     (\<forall>t \<in> set (server_transfers w0). tr_peer (transfer_heap w t) = tr_peer (transfer_heap w0 t) \<and>
        timestamp (transfer_heap w t) = timestamp (transfer_heap w0 t) \<and>
        (if \<not> silent t then transfer_heap w t = transfer_heap w0 t
         else if given_up w0 silent m t then available (peer_heap w (tr_peer (transfer_heap w0 t))) = 1
         else losses w0 t (m t) w))"

lemma losses_Suc:
  assumes "losses w0 t n w" and "clock w = clock w0" and "clock_pos w0 \<le> clock_pos w"
    and "unat (timeout_count (cc w t)) < 4"
  shows "losses w0 t (Suc n) (detected_first_loss t (counted t w))"
proof -
  let ?v = "counted t w"
  from assms(1) obtain ks where ks: "length ks = n" "set ks \<subseteq> (\<lambda>i. unat (millitime_of (clock w0 i))) ` {clock_pos w0..}"
    "window_of (cc w t) = fold loss_spec ks (window_of (cc w0 t))"
    and c: "unat (timeout_count (cc w t)) = unat (timeout_count (cc w0 t)) + n" by (auto simp: losses_def)
  have "window_of (cc ?v t) = window_of (cc w t)" by (simp add: world_defs window_of_def)
  then have "window_of (cc (detected_first_loss t ?v) t) = fold loss_spec (ks @ [unat (now_of ?v)]) (window_of (cc w0 t))"
    using loss_refines [of t ?v] ks(3) by simp
  moreover have "unat (now_of ?v) \<in> (\<lambda>i. unat (millitime_of (clock w0 i))) ` {clock_pos w0..}"
    using assms(2,3) by (auto simp: world_defs)
  moreover have "timeout_count (cc (detected_first_loss t ?v) t) = timeout_count (cc w t) + 1"
    using congestion_position(2) [of t ?v] by (simp add: position_def world_defs)
  then have "unat (timeout_count (cc (detected_first_loss t ?v) t)) = unat (timeout_count (cc w0 t)) + Suc n"
    using unat_count_Suc [of "timeout_count (cc w t)"] assms(4) c by simp
  ultimately show ?thesis
    unfolding losses_def using ks(1,2) by (intro conjI exI [of _ "ks @ [unat (now_of ?v)]"]) auto
qed

lemma looked_at_step:
  assumes l: "looked_at w0 silent m w" and t: "t \<in> set (server_transfers w)"
    and d: "distinct (server_transfers w0)" and o: "overdue w0 (clock_pos w) t = silent t"
    and n: "unat (timeout_count (cc w0 t)) < 5"
  shows "looked_at w0 silent (m(t := Suc (m t))) (timeout_step t w) \<and> clock_pos w < clock_pos (timeout_step t w)"
proof -
  have t0: "t \<in> set (server_transfers w0)" and live: "\<not> given_up w0 silent m t" using l t by (auto simp: looked_at_def)
  have o': "overdue w (clock_pos w) t = silent t" using o l t0 by (simp add: overdue_def looked_at_def)
  let ?m = "m(t := Suc (m t))"
  show ?thesis
  proof (cases "silent t")
    case False
    then have "given_up w0 silent ?m u = given_up w0 silent m u" for u by (simp add: given_up_def)
    moreover have "losses w0 u (?m u) (snd (millitime w)) = losses w0 u (m u) w" if "silent u" for u
      using that False by (auto simp: losses_def world_defs)
    ultimately have "looked_at w0 silent ?m (snd (millitime w))"
      using l by (simp add: looked_at_def world_defs)
    then show ?thesis using timeout_step_early [of w t] o' False by (simp add: world_defs)
  next
    case True
    have los: "losses w0 t (m t) w" using l t0 True live by (simp add: looked_at_def)
    then have cnt: "unat (timeout_count (cc w t)) = unat (timeout_count (cc w0 t)) + m t" by (simp add: losses_def)
    then have le: "unat (timeout_count (cc w t)) < 5" using live True by (simp add: given_up_def)
    let ?v = "counted t w"
    show ?thesis
    proof (cases "unat (timeout_count (cc w t)) = 4")
      case gone: True
      let ?w = "delete_server_transfer t ?v"
      have eq: "timeout_step t w = ?w" using timeout_step_last o' True gone by blast
      have w: "server_transfers ?w = remove1 t (server_transfers w)" "clock ?w = clock w" "clock_pos ?w = Suc (clock_pos w)"
        "transfer_heap ?w = transfer_heap ?v"
        "peer_heap ?w = (peer_heap w)(tr_peer (transfer_heap w t) := (transfer_peer w t)\<lparr>available := 1\<rparr>)"
        by (simp_all add: delete_server_transfer_def delete_transfer_def world_defs)
      have g: "given_up w0 silent ?m u \<longleftrightarrow> u = t \<or> given_up w0 silent m u" for u
        using cnt gone True by (auto simp: given_up_def)
      have "server_transfers ?w = filter (\<lambda>u. \<not> given_up w0 silent ?m u) (server_transfers w0)"
        using l d by (auto simp: w looked_at_def g distinct_remove1_removeAll removeAll_filter_not_eq intro: filter_cong)
      moreover have h: "transfer_heap ?v u = transfer_heap w u" if "u \<noteq> t" for u using that by (simp add: world_defs)
      have "tr_peer (transfer_heap ?v u) = tr_peer (transfer_heap w u)"
        "timestamp (transfer_heap ?v u) = timestamp (transfer_heap w u)" for u by (simp_all add: world_defs)
      moreover have "losses w0 u (?m u) ?w" if "losses w0 u (m u) w" "u \<noteq> t" for u
        using that h by (simp add: losses_def w)
      moreover have "transfer_heap ?w u = transfer_heap w u" if "\<not> silent u" for u
        using that True h [of u] by (auto simp: w)
      moreover have "available (peer_heap ?w p) = 1" if "available (peer_heap w p) = 1 \<or> p = tr_peer (transfer_heap w t)" for p
        using that by (auto simp: w)
      ultimately show ?thesis using l t0 by (simp add: eq looked_at_def g w(2-4))
    next
      case False
      then have eq: "timeout_step t w = detected_first_loss t ?v" and lt: "unat (timeout_count (cc w t)) < 4"
        using timeout_step_loss [of w t] o' True le by simp_all
      have g: "given_up w0 silent ?m u = given_up w0 silent m u" for u
        using cnt False le live by (auto simp: given_up_def)
      let ?w = "detected_first_loss t ?v"
      have loc: "local_to t w ?w"
        by (rule local_to_trans [OF local_to_trans [OF local_to_intros(2) local_to_intros(1)] congestion_frame(2)])
      have "losses w0 u (?m u) ?w" if "losses w0 u (m u) w" for u
        using that losses_Suc [OF los _ _ lt] local_to_other [OF loc, of u] l by (cases "u = t") (auto simp: losses_def looked_at_def)
      moreover have "timestamp (transfer_heap ?w u) = timestamp (transfer_heap w u)" for u
        by (simp add: local_to_timestamp world_defs)
      moreover have "clock_pos w < clock_pos ?w" 
        using clock_pos_detected_first_loss [of ?v t] by (simp add: world_defs)
      moreover have "transfer_heap ?w u = transfer_heap w u" if "\<not> silent u" for u
        using that True local_to_other [OF loc, of u] by fastforce
      ultimately show ?thesis using l by (simp add: eq looked_at_def g local_toD [OF loc])
    qed
  qed
qed

text \<open>The loop looks once at each transfer; then a round of the handler, and several.\<close>

lemma clock_pos_step: "clock_pos w < clock_pos (timeout_step t w)"
  using clock_pos_detected_first_loss [of "counted t w" t]
  by (simp add: timeout_step_def transfer_has_timeout_def Let_def millitime_def)
     (simp add: delete_server_transfer_def delete_transfer_def world_defs)

lemma clock_pos_fold: "clock_pos w \<le> clock_pos (fold timeout_step ts w)"
proof (induction ts arbitrary: w)
  case (Cons t ts)
  show ?case using order.trans [OF less_imp_le [OF clock_pos_step] Cons [of "timeout_step t w"]] by simp
qed simp

lemma looked_at_fold:
  assumes d: "distinct (server_transfers w0)" and n: "\<And>t. t \<in> set (server_transfers w0) \<Longrightarrow> unat (timeout_count (cc w0 t)) < 5"
    and "looked_at w0 silent m w" and "set ts \<subseteq> set (server_transfers w)" and "distinct ts"
    and "\<And>t i. t \<in> set (server_transfers w0) \<Longrightarrow> clock_pos w \<le> i \<Longrightarrow> i < clock_pos (fold timeout_step ts w) \<Longrightarrow>
      overdue w0 i t = silent t"
  shows "looked_at w0 silent (\<lambda>t. if t \<in> set ts then Suc (m t) else m t) (fold timeout_step ts w)"
  using assms(3-6)
proof (induction ts arbitrary: m w)
  case (Cons t ts)
  let ?v = "timeout_step t w" let ?m = "m(t := Suc (m t))"
  have t: "t \<in> set (server_transfers w)" "t \<in> set (server_transfers w0)" using Cons.prems(1,2) by (auto simp: looked_at_def)
  have pos: "clock_pos w < clock_pos ?v" "clock_pos ?v \<le> clock_pos (fold timeout_step ts ?v)"
    by (rule clock_pos_step, rule clock_pos_fold)
  have v: "looked_at w0 silent ?m ?v"
    using looked_at_step [OF Cons.prems(1) t(1) d _ n [OF t(2)]] Cons.prems(4) [OF t(2), of "clock_pos w"] pos by auto
  have "set ts \<subseteq> set (server_transfers ?v)"
    using Cons.prems(1-3) v by (auto simp: looked_at_def given_up_def)
  then have "looked_at w0 silent (\<lambda>u. if u \<in> set ts then Suc (?m u) else ?m u) (fold timeout_step ts ?v)"
    using Cons.prems(3,4) pos by (intro Cons.IH [OF v]) auto
  moreover have "(\<lambda>u. if u \<in> set ts then Suc (?m u) else ?m u) = (\<lambda>u. if u \<in> set (t # ts) then Suc (m u) else m u)"
    using Cons.prems(3) by auto
  ultimately show ?case by simp
qed simp

lemma looked_at_rounds:
  assumes d: "distinct (server_transfers w0)" and n: "\<And>t. t \<in> set (server_transfers w0) \<Longrightarrow> unat (timeout_count (cc w0 t)) < 5"
    and o: "\<And>t i. t \<in> set (server_transfers w0) \<Longrightarrow> clock_pos w0 \<le> i \<Longrightarrow>
      i < clock_pos ((handle_server_timeout ^^ k) w0) \<Longrightarrow> overdue w0 i t = silent t"
  shows "looked_at w0 silent (\<lambda>_. k) ((handle_server_timeout ^^ k) w0)"
  using o
proof (induction k)
  case 0
  have "\<not> given_up w0 silent (\<lambda>_. 0) t" if "t \<in> set (server_transfers w0)" for t
    using n [OF that] by (simp add: given_up_def)
  then show ?case by (auto simp: looked_at_def losses_def intro!: exI [of _ "[]"])
next
  case (Suc k)
  let ?w = "(handle_server_timeout ^^ k) w0" let ?ts = "server_transfers ?w"
  have w': "(handle_server_timeout ^^ Suc k) w0 = fold timeout_step ?ts ?w" by (simp add: handle_server_timeout_fold)
  have le: "clock_pos ?w \<le> clock_pos ((handle_server_timeout ^^ Suc k) w0)" unfolding w' by (rule clock_pos_fold)
  then have l: "looked_at w0 silent (\<lambda>_. k) ?w" by (intro Suc.IH Suc.prems) auto
  then have "distinct ?ts" "clock_pos w0 \<le> clock_pos ?w" using d by (auto simp: looked_at_def)
  then have l': "looked_at w0 silent (\<lambda>t. if t \<in> set ?ts then Suc k else k) (fold timeout_step ?ts ?w)"
    using Suc.prems unfolding w' by (intro looked_at_fold [OF d n l subset_refl]) auto
  have g: "given_up w0 silent (\<lambda>t. if t \<in> set ?ts then Suc k else k) t = given_up w0 silent (\<lambda>_. Suc k) t"
    if "t \<in> set (server_transfers w0)" for t
    using that l by (auto simp: looked_at_def given_up_def)
  have "t \<in> set ?ts" if "t \<in> set (server_transfers w0)" "\<not> given_up w0 silent (\<lambda>_. Suc k) t" for t
    using that l by (auto simp: looked_at_def given_up_def)
  then show ?case using l' g unfolding w' looked_at_def by (auto cong: filter_cong)
qed

section \<open>Properties\<close>


text \<open>A server that owns one chunk of zeros.\<close>

definition demo_server :: world where
  "demo_server = initial_world\<lparr>have_chunks := [0]\<rparr>"

lemma zero_packet_arrays: "packet_arrays zero_packet"
  by (simp add: packet_arrays_def zero_packet_def)

lemma zero_packet_hash: "hash_list zero_packet ! 0 = bin_hash zero_chunk"
  by (simp add: zero_packet_def zero_chunk_def packet_consts chunk_consts)

lemma demo_server_ok: "server_ok demo_server"
  using zero_packet_arrays
  by (simp add: server_ok_def have_sized_def demo_server_def initial_world_def) (simp add: zero_chunk_def)

lemma demo_get:
  "length (hash_list (zero_packet\<lparr>hash_num := 1\<rparr>)) = MAX_HASH_IN_PACKET"
  "find (\<lambda>c. compare_chunk_by_bin_hash (chunk_heap demo_server c) (hash_list (zero_packet\<lparr>hash_num := 1\<rparr>) ! 0))
     (have_chunks demo_server) = Some 0"
  "int (length (server_transfers demo_server)) < 4"
  "find_by_chunk_hash demo_server (server_transfers demo_server) (hash_list (zero_packet\<lparr>hash_num := 1\<rparr>) ! 0) = None"
  "length (chunk_data (chunk_heap demo_server 0)) = BT_CHUNK_SIZE"
  using zero_packet_arrays
  by (simp_all add: demo_server_def initial_world_def compare_chunk_by_bin_hash_def find_by_chunk_hash_def
      zero_packet_hash packet_arrays_def) (simp add: zero_chunk_def)

text \<open>
  Claim C14. \<open>send_DATA\<close> always returns and sends the part of the chunk the window covers: the data
  packets after the last one sent, up to the end of the window or the 525th packet, each once and
  in order, with 1000 bytes of the chunk (288 in the last packet) and its sequence number.
\<close>

theorem send_DATA_fills_window:
  assumes "length (chunk_data (transfer_chunk w t)) = BT_CHUNK_SIZE"
  shows "\<exists>w'. send_DATA t w = Inr w' \<and>
     sent w' = sent w @ map (\<lambda>i. (peer_addr (transfer_peer w t), data_bytes (chunk_data (transfer_chunk w t)) i))
                          [unat (cc_index (cc w t))..<window_end (cc w t)] \<and>
     unat (cc_index (cc w' t)) = window_end (cc w t) \<and> dup_count (cc w' t) = 0"
proof -
  have "unat (cc_index (cc w t)) < 2 ^ 32" using unsigned_less [of "cc_index (cc w t)"] by simp
  then have "window_end (cc w t) < 2 ^ 32" by (simp add: window_end_def chunk_consts)
  then have "unat (of_nat (window_end (cc w t)) :: u32) = window_end (cc w t)" by (simp add: unat_of_nat)
  with send_DATA_parts [OF assms] show ?thesis by (simp add: sent_parts_def world_defs)
qed

theorem send_DATA_fills_window_witness:
  "\<exists>w'. send_DATA 0 (snd (create_transfer 0 0 initial_world)) = Inr w' \<and> length (sent w') = 1"
  using send_DATA_fills_window [of "snd (create_transfer 0 0 initial_world)" 0]
  by (auto simp: create_transfer_def initial_world_def Let_def world_defs zero_chunk_def window_end_def
      zero_cctrl_def transfer_consts chunk_consts)

text \<open>
  What the server puts on the wire for part \<open>i\<close> of a chunk is what the client parses: the
  datagram, followed by anything, is read back as the data packet with sequence number \<open>i + 1\<close> and
  the bytes of that part.
\<close>

lemma data_packet_arrives: "deserialize_packet (data_bytes d i @ junk) = Inr (Some (data_packet d i))"
proof -
  have n: "length (part d i) \<le> 1000" using length_part_le [of d i] by (simp add: DATA_SIZE_def)
  then have "unat (of_nat (16 + length (part d i)) :: u16) = 16 + length (part d i)"
    by (simp add: unat_of_nat del: of_nat_add)
  then have "received (data_packet d i) = data_packet d i"
    using n by (simp add: received_def data_packet_def has_hashes_def Let_def del: of_nat_add)
      (simp add: zero_packet_def)
  then show ?thesis
    using wire_roundtrip [OF data_packet_wire, of d i] serialize_data_packet [of d i] by auto
qed

text \<open>
  Claim C23. The answer to \<open>WHOHAS\<close> is one \<open>IHAVE\<close> datagram with the hash of every owned chunk that
  was asked for, in the order of the question; if more than 74 chunks match, the local array of
  hashes overflows. The question is a decoded packet, with at most 74 hashes.
\<close>

theorem whohas_answer:
  assumes "packet_arrays (stack_packet w)" and "packet_arrays pack" and "unat (hash_num pack) \<le> MAX_HASH_IN_PACKET"
    and "have_sized w"
  shows "receive_WHOHAS pack p w =
     (let r = concat (map (owned w) (take (unat (hash_num pack)) (hash_list pack)))
      in if length r \<le> MAX_HASH_IN_PACKET
         then Inr (emit (peer_addr (peer_heap w p)) (hash_message IHAVE 0 r) w)
         else Inl Out_Of_Bounds)"
  using assms by (intro receive_WHOHAS_reply) (auto simp: packet_arrays_def have_sized_def)

theorem whohas_answer_witness:
  "receive_WHOHAS (zero_packet\<lparr>hash_num := 1\<rparr>) 3 demo_server =
     Inr (emit (peer_addr (peer_heap initial_world 3)) (hash_message IHAVE 0 [replicate 20 0]) demo_server)"
proof -
  have o: "owned demo_server (replicate 20 0) = [replicate 20 0]"
    by (simp add: owned_def demo_server_def initial_world_def zero_chunk_def BIN_HASH_SIZE_def)
  have t: "take 1 (hash_list zero_packet) = [replicate 20 0]"
    by (simp add: zero_packet_def packet_consts chunk_consts)
  have "packet_arrays (zero_packet\<lparr>hash_num := 1\<rparr>)" using zero_packet_arrays by (simp add: packet_arrays_def)
  then show ?thesis
    using whohas_answer [of demo_server "zero_packet\<lparr>hash_num := 1\<rparr>" 3] o t demo_server_ok
    by (simp add: server_ok_def packet_consts chunk_consts) (simp add: demo_server_def)
qed

text \<open>
  A \<open>GET\<close> for an owned chunk that is not in flight, below the connection limit, opens a
  transfer for that chunk and peer, marks the peer busy, and sends the first data packet of the
  chunk and nothing else.
\<close>

lemma get_starts_transfer:
  assumes "length (hash_list pack) = MAX_HASH_IN_PACKET"
    and "find (\<lambda>c. compare_chunk_by_bin_hash (chunk_heap w c) (hash_list pack ! 0)) (have_chunks w) = Some c"
    and "int (length (server_transfers w)) < limit"
    and "find_by_chunk_hash w (server_transfers w) (hash_list pack ! 0) = None"
    and "length (chunk_data (chunk_heap w c)) = BT_CHUNK_SIZE"
  shows "\<exists>w'. receive_GET pack p limit w = Inr w' \<and>
     server_transfers w' = transfer_top w # server_transfers w \<and>
     tr_chunk (transfer_heap w' (transfer_top w)) = c \<and> tr_peer (transfer_heap w' (transfer_top w)) = p \<and>
     cc_index (cc w' (transfer_top w)) = 1 \<and> available (peer_heap w' p) = 0 \<and>
     sent w' = sent w @ [(peer_addr (peer_heap w p), data_bytes (chunk_data (chunk_heap w c)) 0)]"
  using assms by (rule receive_GET_new)

text \<open>
  Claim C35. A \<open>GET\<close> for a chunk the peer does not own, or at the connection limit, is meant to be
  answered with \<open>DENIED\<close>; building that packet always writes out of bounds.
\<close>

theorem get_refusal_overflows:
  assumes "packet_arrays (stack_packet w)" and "hash_list pack \<noteq> []"
    and "find (\<lambda>c. compare_chunk_by_bin_hash (chunk_heap w c) (hash_list pack ! 0)) (have_chunks w) = None \<or>
         limit \<le> int (length (server_transfers w))"
  shows "receive_GET pack p limit w = Inl Out_Of_Bounds"
  using assms by (auto simp: receive_GET_def array_get_def send_DENIED_faults split: option.splits)

theorem get_refusal_overflows_witness: "receive_GET zero_packet 3 4 initial_world = Inl Out_Of_Bounds"
  by (rule get_refusal_overflows)
     (simp_all add: initial_world_def packet_arrays_def zero_packet_def packet_consts chunk_consts)

text \<open>
  \<open>receive_GET\<close> never brings the number of outgoing transfers above the configured limit.
\<close>

lemma get_respects_limit:
  assumes "server_ok w" and "int (length (server_transfers w)) \<le> limit" and "receive_GET pack p limit w = Inr w'"
  shows "int (length (server_transfers w')) \<le> limit"
  using receive_GET_limit [OF assms(2) _ _ assms(3)] assms(1) by (simp add: server_ok_def)

text \<open>
  Claim C18. \<open>receive_ACK\<close> never faults, whatever number the datagram acknowledges, and keeps the
  invariant of the serving side: each transfer serves an owned chunk, its window does not end before
  it begins, and it has sent at most 525 packets or stands at the acknowledged position.
\<close>

theorem ack_is_safe:
  assumes "server_ok w"
  shows "\<exists>w'. receive_ACK pack p w = Inr w' \<and> server_ok w'"
  using receive_ACK_ok [OF assms] by blast

theorem ack_is_safe_witness: "\<exists>w'. receive_ACK (zero_packet\<lparr>ack_num := 4000000000\<rparr>) 3 initial_world = Inr w' \<and> server_ok w'"
  by (rule ack_is_safe) (simp add: server_ok_def have_sized_def initial_world_def packet_arrays_def zero_packet_def)

text \<open>
  Claim C19. An acknowledgement beyond the start of the window slides it: the window then begins at
  the acknowledged packet, nothing before it is sent again, and the transfer counts as alive. The last
  acknowledgement, 525, is not meant: it ends the transfer.
\<close>

theorem new_ack_slides_window:
  assumes ok: "server_ok w" and t: "find_by_peer w (server_transfers w) p = Some t"
    and new: "cc_begin (cc w t) < ack_num pack" and last: "ack_num pack \<noteq> of_nat MAX_SEQ_NUM"
  shows "\<exists>w'. receive_ACK pack p w = Inr w' \<and> cc_begin (cc w' t) = ack_num pack \<and>
     timeout_count (cc w' t) = 0 \<and>
     (\<exists>seqs. sent w' = sent w @ map (\<lambda>i. (peer_addr (transfer_peer w t), data_bytes (chunk_data (transfer_chunk w t)) i)) seqs \<and>
        (\<forall>i \<in> set seqs. unat (ack_num pack) \<le> i \<and> i < MAX_SEQ_NUM))"
proof -
  let ?ack = "ack_num pack"
  let ?a = "adjust_window t ?ack w" let ?v = "congestion_control t ?a"
  have tin: "t \<in> set (server_transfers w)" using t by (auto dest: find_by_peer_SomeD)
  have l: "local_to t w ?v"
    by (rule local_to_trans [OF _ congestion_frame(1)]) (auto simp: adjust_window_def Let_def world_defs intro!: local_toI)
  have pos: "cc_begin (cc ?v t) = ?ack" "?ack \<le> cc_index (cc ?v t)"
    using congestion_position(1) [of t ?a] by (auto simp: position_def adjust_window_def Let_def world_defs)
  have same: "transfer_peer ?v t = transfer_peer w t" "transfer_chunk ?v t = transfer_chunk w t"
    by (simp_all add: local_toD [OF l])
  have "sent ?v = sent w"
    by (auto simp: congestion_defs adjust_window_def split: CongestType.splits)
  moreover have "length (chunk_data (transfer_chunk ?v t)) = BT_CHUNK_SIZE"
    using serves_chunk_sized [OF ok tin] same by simp
  ultimately show ?thesis
    using t last new pos
    by (auto simp: receive_ACK_def ack_window_def send_DATA_parts Let_def sent_parts_def world_defs same
        window_end_def word_le_nat_alt intro!: exI [of _ "[unat (cc_index (cc ?v t))..<window_end (cc ?v t)]"])
qed

text \<open>The same server, with a transfer of its chunk to peer 3 under way.\<close>

definition demo_serving :: world where
  "demo_serving = (snd (create_transfer 3 0 demo_server))\<lparr>server_transfers := [0]\<rparr>"

lemmas demo_serving_defs = demo_serving_def demo_server_def initial_world_def create_transfer_def
  zero_cctrl_def Let_def world_defs transfer_consts

lemma demo_serving_ok: "server_ok demo_serving" "find_by_peer demo_serving (server_transfers demo_serving) 3 = Some 0"
proof -
  have "serves demo_serving 0"
    by (simp add: serves_def cc_ok_def window_ok_def demo_serving_defs chunk_consts)
  moreover have "have_sized demo_serving" "packet_arrays (stack_packet demo_serving)"
    using demo_server_ok by (simp_all add: server_ok_def have_sized_def demo_serving_defs)
  ultimately show "server_ok demo_serving"
    by (simp add: server_ok_def) (simp add: demo_serving_defs)
  show "find_by_peer demo_serving (server_transfers demo_serving) 3 = Some 0"
    by (simp add: find_by_peer_iff demo_serving_defs)
qed

theorem new_ack_slides_window_witness:
  "\<exists>w'. receive_ACK (zero_packet\<lparr>ack_num := 1\<rparr>) 3 demo_serving = Inr w' \<and> cc_begin (cc w' 0) = 1 \<and>
     timeout_count (cc w' 0) = 0"
  using new_ack_slides_window [OF demo_serving_ok, of "zero_packet\<lparr>ack_num := 1\<rparr>"]
  by (auto simp: chunk_consts) (auto simp: demo_serving_defs)

text \<open>
  Claim C20. The third duplicate of an acknowledgement triggers a fast retransmission: the loss is
  handed to congestion control and the packets are sent again from the first unacknowledged one up
  to the end of the window that congestion control left. The acknowledgement is not the last one, 525,
  which ends the transfer.
\<close>

theorem third_duplicate_retransmits:
  assumes ok: "server_ok w" and t: "find_by_peer w (server_transfers w) p = Some t"
    and dup: "ack_num pack = cc_begin (cc w t)" "dup_count (cc w t) = 2" and last: "ack_num pack \<noteq> of_nat MAX_SEQ_NUM"
  shows "\<exists>w'. receive_ACK pack p w = Inr w' \<and> dup_count (cc w' t) = 0 \<and>
     window_of (cc w' t) = loss_spec (unat (now_of w)) (window_of (cc w t)) \<and>
     sent w' = sent w @ map (\<lambda>i. (peer_addr (transfer_peer w t), data_bytes (chunk_data (transfer_chunk w t)) i))
       [unat (cc_begin (cc w t))..<max (unat (cc_begin (cc w t)))
          (min MAX_SEQ_NUM (unat (cc_begin (cc w t) + wind_size (cc w' t))))]"
proof -
  let ?d = "upd_cctrl t (\<lambda>c. c\<lparr>cc_index := cc_begin c\<rparr>) (upd_cctrl t (\<lambda>c. c\<lparr>dup_count := dup_count c + 1\<rparr>) w)"
  define v where "v = detected_first_loss t ?d"
  have tin: "t \<in> set (server_transfers w)" using t by (auto dest: find_by_peer_SomeD)
  have l: "local_to t w v" unfolding v_def
    by (rule local_to_trans [OF _ congestion_frame(2)]) (auto simp: world_defs intro!: local_toI)
  have pos: "cc_begin (cc v t) = cc_begin (cc w t)" "cc_index (cc v t) = cc_begin (cc w t)"
    unfolding v_def using congestion_position(2) [of t ?d] by (auto simp: position_def world_defs)
  have same: "transfer_peer v t = transfer_peer w t" "transfer_chunk v t = transfer_chunk w t"
    by (simp_all add: local_toD [OF l])
  have win: "window_of (cc v t) = loss_spec (unat (now_of w)) (window_of (cc w t))"
    unfolding v_def using loss_refines [of t ?d] by (simp add: world_defs window_of_def)
  have sent: "sent v = sent w" unfolding v_def by (auto simp: congestion_defs split: CongestType.splits)
  have size: "length (chunk_data (transfer_chunk v t)) = BT_CHUNK_SIZE"
    using serves_chunk_sized [OF ok tin] same by simp
  have "MAX_DUP_ACKS \<le> dup_count (cc w t) + 1" using dup by (simp add: MAX_DUP_ACKS_def)
  then have "ack_window t (ack_num pack) w = send_DATA t v"
    using dup(1) by (simp add: ack_window_def Let_def v_def) (simp add: world_defs)
  then show ?thesis
    using t last sent pos win send_DATA_parts [OF size]
    by (simp add: receive_ACK_def Let_def millitime_def upd_cctrl_def upd_transfer_def sent_parts_def same
        window_end_def window_of_def)
qed

theorem third_duplicate_retransmits_witness:
  "\<exists>w'. receive_ACK zero_packet 3 (upd_cctrl 0 (\<lambda>c. c\<lparr>dup_count := 2\<rparr>) demo_serving) = Inr w' \<and>
     length (sent w') = 1"
proof -
  let ?w = "upd_cctrl 0 (\<lambda>c. c\<lparr>dup_count := 2\<rparr>) demo_serving"
  have l: "local_to 0 demo_serving ?w" by (rule local_to_intros)
  have "serves demo_serving 0" using demo_serving_ok(1) by (simp add: server_ok_def) (simp add: demo_serving_defs)
  then have "cc_ok (cc ?w 0) \<and> window_ok (cc ?w 0)"
    by (simp add: serves_def world_defs cc_ok_def window_ok_def)
  then have ok: "server_ok ?w" using server_ok_local [OF demo_serving_ok(1) l] by blast
  have f: "find_by_peer ?w (server_transfers ?w) 3 = Some 0"
    using demo_serving_ok(2) by (simp add: find_by_peer_iff local_toD [OF l])
  have c: "cc_begin (cc ?w 0) = 0" "dup_count (cc ?w 0) = 2" "sent ?w = []" "wind_size (cc ?w 0) = 1" "congest_state (cc ?w 0) = SS"
    by (simp_all add: demo_serving_defs)
  obtain w' where r: "receive_ACK zero_packet 3 ?w = Inr w'"
    and win: "window_of (cc w' 0) = loss_spec (unat (now_of ?w)) (window_of (cc ?w 0))"
    and s: "length (sent w') = max 0 (min MAX_SEQ_NUM (unat (wind_size (cc w' 0))))"
    using third_duplicate_retransmits [OF ok f, of zero_packet] c by (auto simp: zero_packet_def chunk_consts)
  from win have "unat (wind_size (cc w' 0)) = 1" using c by (simp add: window_of_def loss_spec_def)
  then show ?thesis using r s by (auto simp: chunk_consts)
qed

text \<open>
  Claim C25. A server gives a silent transfer up at the fifth time-out in a row, and counts each
  earlier one as a loss. Take any number of different transfers of which none has counted five time-outs yet,
  and let the handler of time-outs run any number of times while no acknowledgement arrives (which
  would set the count of its transfer back to 0). If each transfer is either overdue at all readings
  of the clock in between or at none, then: exactly the overdue ones whose count has reached five are
  gone from the list, in whose order the others stay, and their peers are available again; each other
  overdue one has counted one more time-out per round and gone through one loss of the congestion
  specification per round, at times the clock showed; and those in time are as they were.
\<close>

theorem server_gives_up:
  assumes "distinct (server_transfers w)"
    and "\<And>t. t \<in> set (server_transfers w) \<Longrightarrow> unat (timeout_count (cc w t)) < 5"
    and "w' = (handle_server_timeout ^^ n) w"
    and "\<And>t i. t \<in> set (server_transfers w) \<Longrightarrow> clock_pos w \<le> i \<Longrightarrow> i < clock_pos w' \<Longrightarrow>
      (TIMEOUT_THRESHOLD < millitime_of (clock w i) - timestamp (transfer_heap w t)) = silent t"
  shows "server_transfers w' =
      filter (\<lambda>t. \<not> (silent t \<and> 5 \<le> unat (timeout_count (cc w t)) + n)) (server_transfers w) \<and>
    (\<forall>t \<in> set (server_transfers w) - set (server_transfers w'). available (peer_heap w' (tr_peer (transfer_heap w t))) = 1) \<and>
    (\<forall>t \<in> set (server_transfers w').
      if silent t
      then unat (timeout_count (cc w' t)) = unat (timeout_count (cc w t)) + n \<and>
        (\<exists>times. length times = n \<and> set times \<subseteq> (\<lambda>i. unat (millitime_of (clock w i))) ` {clock_pos w..} \<and>
           window_of (cc w' t) = fold loss_spec times (window_of (cc w t)))
      else transfer_heap w' t = transfer_heap w t)"
proof -
  have "looked_at w silent (\<lambda>_. n) w'"
    using looked_at_rounds [of w n silent] assms unfolding overdue_def by blast
  then show ?thesis by (auto simp: looked_at_def given_up_def losses_def)
qed

text \<open>Two transfers when the clock shows 0: of the first the last message came, as it seems, before the clock wrapped.\<close>

definition demo_silent :: world where
  "demo_silent = (upd_transfer 0 (\<lambda>x. x\<lparr>timestamp := 1000, cctrl := (cctrl x)\<lparr>timeout_count := 3\<rparr>\<rparr>) demo_serving)
     \<lparr>server_transfers := [0, 1]\<rparr>"

theorem server_gives_up_witness:
  "server_transfers (handle_server_timeout demo_silent) = [0, 1] \<and>
   server_transfers (handle_server_timeout (handle_server_timeout demo_silent)) = [1]"
proof -
  have f: "server_transfers demo_silent = [0, 1]" "unat (timeout_count (cc demo_silent 0)) = 3"
    "unat (timeout_count (cc demo_silent 1)) = 0"
    by (simp_all add: demo_silent_def demo_serving_defs)
  have o: "(TIMEOUT_THRESHOLD < millitime_of (clock demo_silent i) - timestamp (transfer_heap demo_silent t)) = (t = 0)"
    if "t \<in> {0, 1}" for t i
    using that by (auto simp: demo_silent_def demo_serving_defs millitime_of_def)
  have c: "unat (timeout_count (cc demo_silent t)) < 5" if "t \<in> set (server_transfers demo_silent)" for t
    using that f by auto
  have d: "distinct (server_transfers demo_silent)" by (simp add: f)
  have "server_transfers ((handle_server_timeout ^^ n) demo_silent) =
      filter (\<lambda>t. \<not> (t = 0 \<and> 5 \<le> unat (timeout_count (cc demo_silent t)) + n)) [0, 1]" for n
    using server_gives_up [of demo_silent "(handle_server_timeout ^^ n) demo_silent" n "\<lambda>t. t = 0", OF d c refl] o
    unfolding f(1) by simp
  from this [of 1] this [of 2] show ?thesis using f by (simp add: numeral_2_eq_2)
qed

end
