(* ===== verification/Client.thy ===== *)
theory Client
  imports Server
begin

text \<open>
  The downloading side of a peer: \<^verbatim>\<open>src/code/bt_client.c\<close>. It asks for the missing chunks with
  \<open>WHOHAS\<close>, records who has them, requests each chunk from one available peer at a time, stores
  the data packets, verifies a complete chunk by its hash and writes the output file when nothing
  is missing.
\<close>

section \<open>The code\<close>

fun peer_exist_in_list :: "world \<Rightarrow> pptr list \<Rightarrow> pptr \<Rightarrow> bool" where
  "peer_exist_in_list w [] target = False"
| "peer_exist_in_list w (p # ps) target =
     (if peer_id (peer_heap w p) = peer_id (peer_heap w target) then True
      else peer_exist_in_list w ps target)"

text \<open>\<open>fseek\<close> and \<open>fwrite\<close>: a gap before the position is filled with zeros.\<close>

definition file_write :: "byte list \<Rightarrow> nat \<Rightarrow> byte list \<Rightarrow> byte list" where
  "file_write f off bs = take off (f @ replicate (off - length f) 0) @ bs @ drop (off + length bs) f"

text \<open>
  The offset \<open>c->id * BT_CHUNK_SIZE\<close> is computed in 32 bits. Opening, seeking and writing
  the output file succeed; the source looks at none of the results.
\<close>

definition construct_data :: "world \<Rightarrow> world result" where
  "construct_data w =
     (case (user_output_filename w, user_get_chunk_file w) of
        (Some out, Some getf) \<Rightarrow>
          let f = fold (\<lambda>c f. file_write f (unat (chunk_id (chunk_heap w c) * of_nat BT_CHUNK_SIZE))
                                (chunk_data (chunk_heap w c))) (wanted_chunks w) []
          in Inr (w\<lparr>files := (files w)(out \<mapsto> f), got := got w @ [getf],
                    user_output_filename := None, user_get_chunk_file := None\<rparr>)
      | _ \<Rightarrow> Inl Invalid_Pointer)"

definition check_all_received :: "world \<Rightarrow> world result" where
  "check_all_received w =
     (if length (missing_chunks w) \<noteq> 0 then Inr w
      else bind_result (construct_data w) (\<lambda>w. Inr (w\<lparr>wanted_chunks := []\<rparr>)))"

definition delete_client_transfer :: "tptr \<Rightarrow> world \<Rightarrow> world" where
  "delete_client_transfer t w =
     snd (delete_transfer (Some t) (w\<lparr>client_transfers := remove1 t (client_transfers w)\<rparr>))"

definition send_GET :: "pptr \<Rightarrow> byte list \<Rightarrow> u32 \<Rightarrow> world \<Rightarrow> world result" where
  "send_GET p h count w =
     (case find_by_peer w (client_transfers w) p of
        None \<Rightarrow> Inr w
      | Some t \<Rightarrow>
          let pack = (stack_packet w)\<lparr>ptype := GET, header_len := of_nat STANDARD_HEADER_LEN,
                packet_len := of_nat (STANDARD_HEADER_LEN + HEADER_PAD_LEN + BIN_HASH_SIZE),
                seq_num := count, ack_num := 0, hash_num := 1\<rparr>
          in bind_result (array_set (hash_list pack) 0 h) (\<lambda>hl.
               let (now, w) = millitime w;
                   w = upd_transfer t (\<lambda>x. x\<lparr>timestamp := now\<rparr>) w
               in send_packet_to_peer (pack\<lparr>hash_list := hl\<rparr>) p w))"

fun get_chunk_loop :: "cptr list \<Rightarrow> nat \<Rightarrow> world \<Rightarrow> (nat \<times> world) result" where
  "get_chunk_loop [] count w = Inr (count, w)"
| "get_chunk_loop (c # cs) count w =
     (let transfer_node = find_by_chunk_hash w (client_transfers w) (bin_hash (chunk_heap w c));
          peer = find_first_available_peer (peer_heap w) (chunk_heap w c)
      in case (peer, transfer_node) of
           (Some p, None) \<Rightarrow>
             let (t, w) = create_transfer p c w;
                 w = w\<lparr>client_transfers := t # client_transfers w\<rparr>
             in bind_result (send_GET p (bin_hash (chunk_heap w c)) 1 w)
                  (get_chunk_loop cs (Suc count))
         | _ \<Rightarrow> get_chunk_loop cs count w)"

definition get_chunk_data :: "world \<Rightarrow> (nat \<times> world) result" where
  "get_chunk_data w = get_chunk_loop (missing_chunks w) 0 w"

definition init_data_transfer :: "world \<Rightarrow> (int \<times> world) result" where
  "init_data_transfer w = bind_result (get_chunk_data w) (\<lambda>r. Inr (EXIT_FAILURE, snd r))"

text \<open>The inner loop deletes every node whose peer has the identity of the dead one.\<close>

definition drop_peer :: "world \<Rightarrow> pptr \<Rightarrow> chunk \<Rightarrow> chunk" where
  "drop_peer w p c =
     c\<lparr>chunk_peer := filter (\<lambda>q. peer_id (peer_heap w q) \<noteq> peer_id (peer_heap w p)) (chunk_peer c)\<rparr>"

definition handle_transfer_dead :: "tptr \<Rightarrow> world \<Rightarrow> world" where
  "handle_transfer_dead t w =
     (let peer = tr_peer (transfer_heap w t);
          w = fold (\<lambda>c w. upd_chunk c (drop_peer w peer) w) (missing_chunks w) w
      in delete_client_transfer t w)"

text \<open>The loop stays inside the array \<open>bits\<close>, which has \<open>MAX_SEQ_NUM\<close> elements.\<close>

function consec_from :: "byte list \<Rightarrow> nat \<Rightarrow> nat" where
  "consec_from bs i = (if i < MAX_SEQ_NUM \<and> bs ! i \<noteq> 0 then consec_from bs (Suc i) else i)"
  by pat_completeness auto
termination by (relation "measure (\<lambda>(bs, i). MAX_SEQ_NUM - i)") auto

declare consec_from.simps [simp del]

definition data_find_largest_consec_seq :: "tptr \<Rightarrow> world \<Rightarrow> u32" where
  "data_find_largest_consec_seq t w = of_nat (consec_from (bits (transfer_chunk w t)) 0)"

definition send_ACK :: "pptr \<Rightarrow> u32 \<Rightarrow> world \<Rightarrow> world result" where
  "send_ACK p ack w =
     (let packet = (stack_packet w)\<lparr>ptype := ACK, header_len := of_nat STANDARD_HEADER_LEN,
            packet_len := of_nat STANDARD_HEADER_LEN, seq_num := 0, ack_num := ack\<rparr>
      in case find_by_peer w (client_transfers w) p of
           None \<Rightarrow> Inr w
         | Some t \<Rightarrow>
             let (now, w) = millitime w;
                 w = upd_transfer t (\<lambda>x. x\<lparr>timestamp := now\<rparr>) w
             in send_packet_to_peer packet p w)"

fun whohas_loop :: "bt_config_t \<Rightarrow> cptr list \<Rightarrow> Packet \<Rightarrow> nat \<Rightarrow> world \<Rightarrow> world result" where
  "whohas_loop config [] pack count w = Inr w"
| "whohas_loop config (c # cs) pack count w =
     bind_result (array_set (hash_list pack) count (bin_hash (chunk_heap w c))) (\<lambda>hl.
       let pack = pack\<lparr>hash_list := hl\<rparr>; count = Suc count
       in if count = MAX_HASH_IN_PACKET \<or> cs = [] then
            let pack = pack\<lparr>ptype := WHOHAS, header_len := of_nat STANDARD_HEADER_LEN,
                  packet_len := of_nat (STANDARD_HEADER_LEN + HEADER_PAD_LEN + count * BIN_HASH_SIZE),
                  seq_num := 0, ack_num := 0, hash_num := of_nat count\<rparr>
            in bind_result (send_packet_to_all pack config w) (whohas_loop config cs zero_packet 0)
          else whohas_loop config cs pack count w)"

definition send_WHOHAS :: "bt_config_t \<Rightarrow> world \<Rightarrow> world result" where
  "send_WHOHAS config w = whohas_loop config (missing_chunks w) zero_packet 0 w"

fun client_timeouts :: "tptr list \<Rightarrow> world \<Rightarrow> world result" where
  "client_timeouts [] w = Inr w"
| "client_timeouts (t # ts) w =
     (let c = tr_chunk (transfer_heap w t); (timedout, w) = transfer_has_timeout t w
      in if timedout then
           let w = upd_cctrl t (\<lambda>cc. cc\<lparr>timeout_count := timeout_count cc + 1\<rparr>) w
           in if MAX_TO_COUNTS \<le> timeout_count (cc w t)
              then client_timeouts ts (handle_transfer_dead t w)
              else if bits_count (chunk_heap w c) = 0
              then bind_result (send_GET (tr_peer (transfer_heap w t)) (bin_hash (chunk_heap w c)) 1 w)
                     (client_timeouts ts)
              else bind_result (send_ACK (tr_peer (transfer_heap w t)) (data_find_largest_consec_seq t w) w)
                     (client_timeouts ts)
         else client_timeouts ts w)"

definition handle_client_timeout :: "bt_config_t \<Rightarrow> world \<Rightarrow> world result" where
  "handle_client_timeout config w =
     (if length (missing_chunks w) = 0 then Inr w
      else
        bind_result (client_timeouts (client_transfers w) w) (\<lambda>w.
        bind_result (init_data_transfer w) (\<lambda>r.
          if length (client_transfers (snd r)) < length (missing_chunks (snd r))
          then send_WHOHAS config (snd r) else Inr (snd r))))"

definition receive_DENIED :: "bt_config_t \<Rightarrow> sockaddr_in \<Rightarrow> world \<Rightarrow> world result" where
  "receive_DENIED config from w =
     (case find_peer (peer_heap w) config from of
        None \<Rightarrow> Inr w
      | Some p \<Rightarrow>
          (case find_by_peer w (client_transfers w) p of
             None \<Rightarrow> Inr w
           | Some t \<Rightarrow> Inr (delete_client_transfer t w)))"

text \<open>The body of the inner loop of \<open>receive_IHAVE\<close>.\<close>

definition ihave_chunk :: "pptr \<Rightarrow> byte list \<Rightarrow> cptr \<Rightarrow> world \<Rightarrow> world" where
  "ihave_chunk p h c w =
     (if compare_bin_hash (bin_hash (chunk_heap w c)) h then
        if \<not> peer_exist_in_list w (chunk_peer (chunk_heap w c)) p
        then upd_chunk c (\<lambda>x. x\<lparr>chunk_peer := p # chunk_peer x\<rparr>) w else w
      else w)"

definition receive_IHAVE :: "Packet \<Rightarrow> bt_config_t \<Rightarrow> sockaddr_in \<Rightarrow> world \<Rightarrow> world result" where
  "receive_IHAVE pack config from w =
     (case find_peer (peer_heap w) config from of
        None \<Rightarrow> Inr w
      | Some p \<Rightarrow>
          bind_result
            (fold_result
               (\<lambda>i w. bind_result (array_get (hash_list pack) i)
                  (\<lambda>h. Inr (fold (ihave_chunk p h) (missing_chunks w) w)))
               [0..<unat (hash_num pack)] w) (\<lambda>w.
          let (now, w) = millitime w;
              w = upd_peer p (\<lambda>x. x\<lparr>peer_timer := now\<rparr>) w
          in bind_result (init_data_transfer w) (\<lambda>r. Inr (snd r))))"

definition data_already_stored :: "Packet \<Rightarrow> tptr \<Rightarrow> world \<Rightarrow> bool result" where
  "data_already_stored pack t w =
     bind_result (array_get (bits (transfer_chunk w t)) (unat (seq_num pack - 1))) (\<lambda>b. Inr (b \<noteq> 0))"

definition data_store :: "Packet \<Rightarrow> tptr \<Rightarrow> world \<Rightarrow> world result" where
  "data_store pack t w =
     (let c = tr_chunk (transfer_heap w t) in
      bind_result (payload_size pack) (\<lambda>n.
      bind_result (mem_read (pdata pack) 0 n) (\<lambda>bytes.
      bind_result (mem_write (chunk_data (chunk_heap w c))
                     (unat ((seq_num pack - 1) * of_nat DATA_SIZE)) bytes) (\<lambda>d.
      bind_result (array_set (bits (chunk_heap w c)) (unat (seq_num pack - 1)) 1) (\<lambda>bs.
        Inr (upd_chunk c (\<lambda>x. x\<lparr>chunk_data := d, bits := bs, bits_count := bits_count x + 1\<rparr>) w))))))"

definition chunk_bits_all_received :: "tptr \<Rightarrow> world \<Rightarrow> bool" where
  "chunk_bits_all_received t w \<longleftrightarrow> bits_count (transfer_chunk w t) = int MAX_SEQ_NUM"

definition validate_chunk :: "tptr \<Rightarrow> world \<Rightarrow> (bool \<times> world) result" where
  "validate_chunk t w =
     (let c = tr_chunk (transfer_heap w t) in
      bind_result (shahash (chunk_data (chunk_heap w c))) (\<lambda>hash.
        if compare_bin_hash hash (bin_hash (chunk_heap w c)) then
          (case find (\<lambda>m. compare_chunk_by_bin_hash (chunk_heap w m) (bin_hash (chunk_heap w c)))
                  (missing_chunks w) of
             None \<Rightarrow> Inr (True, w)
           | Some m \<Rightarrow> Inr (True, w\<lparr>missing_chunks := remove1 m (missing_chunks w),
                                    have_chunks := c # have_chunks w\<rparr>))
        else
          Inr (False, upd_chunk c (\<lambda>x. x\<lparr>chunk_data := replicate BT_CHUNK_SIZE 0,
                 bits := replicate MAX_SEQ_NUM 0, bits_count := 0\<rparr>) w)))"

text \<open>What \<open>receive_DATA\<close> does once every part of the chunk is there.\<close>

definition finish_chunk :: "tptr \<Rightarrow> world \<Rightarrow> world result" where
  "finish_chunk t w =
     bind_result (validate_chunk t w) (\<lambda>v.
     bind_result (if fst v then check_all_received (snd v) else Inr (snd v)) (\<lambda>w.
     bind_result (init_data_transfer (delete_client_transfer t w)) (\<lambda>r. Inr (snd r))))"

definition receive_DATA :: "Packet \<Rightarrow> pptr \<Rightarrow> world \<Rightarrow> world result" where
  "receive_DATA pack p w =
     (case find_by_peer w (client_transfers w) p of
        None \<Rightarrow> Inr w
      | Some t \<Rightarrow>
          bind_result (data_already_stored pack t w) (\<lambda>stored.
          bind_result (if \<not> stored then data_store pack t w else Inr w) (\<lambda>w.
          bind_result (send_ACK p (data_find_largest_consec_seq t w) w) (\<lambda>w.
            if chunk_bits_all_received t w then finish_chunk t w else Inr w))))"

section \<open>The invariant of the downloading side\<close>

definition chunk_sized :: "chunk \<Rightarrow> bool" where
  "chunk_sized c \<longleftrightarrow> length (bin_hash c) = BIN_HASH_SIZE \<and> length (chunk_data c) = BT_CHUNK_SIZE \<and>
     length (bits c) = MAX_SEQ_NUM"

definition bits_counted :: "chunk \<Rightarrow> bool" where
  "bits_counted c \<longleftrightarrow> bits_count c = int (length (filter (\<lambda>b. b \<noteq> 0) (bits c)))"

definition verified :: "chunk \<Rightarrow> bool" where
  "verified c \<longleftrightarrow> fips_sha1 (chunk_data c) = bin_hash c"

text \<open>
  The chunks: what is missing is missing once, under its own hash, and not in the have list; every
  chunk in the have list carries the data its hash names; a wanted chunk is one or the other.
\<close>

definition chunks_ok :: "(cptr \<Rightarrow> chunk) \<Rightarrow> cptr list \<Rightarrow> cptr list \<Rightarrow> cptr list \<Rightarrow> bool" where
  "chunks_ok h missing havel wanted \<longleftrightarrow>
     distinct missing \<and> inj_on (\<lambda>c. bin_hash (h c)) (set missing) \<and> set missing \<inter> set havel = {} \<and>
     (\<forall>c \<in> set missing \<union> set havel. chunk_sized (h c)) \<and>
     (\<forall>c \<in> set missing. bits_counted (h c)) \<and> (\<forall>c \<in> set havel. verified (h c)) \<and>
     set wanted \<subseteq> set missing \<union> set havel"

text \<open>The incoming transfers: each for a missing chunk, at most one per chunk.\<close>

definition transfers_ok :: "world \<Rightarrow> bool" where
  "transfers_ok w \<longleftrightarrow>
     distinct (map (\<lambda>t. tr_chunk (transfer_heap w t)) (client_transfers w)) \<and>
     (\<forall>t \<in> set (client_transfers w). t < transfer_top w \<and> t \<notin> set (server_transfers w) \<and>
        tr_chunk (transfer_heap w t) \<in> set (missing_chunks w))"

text \<open>The file names are there as long as something is missing, and all chunks are allocated.\<close>

definition request_ok :: "world \<Rightarrow> bool" where
  "request_ok w \<longleftrightarrow>
     (missing_chunks w \<noteq> [] \<longrightarrow> user_output_filename w \<noteq> None \<and> user_get_chunk_file w \<noteq> None) \<and>
     (\<forall>c \<in> set (missing_chunks w) \<union> set (have_chunks w). c < chunk_top w)"

definition peer_ok :: "world \<Rightarrow> bool" where
  "peer_ok w \<longleftrightarrow> server_ok w \<and> chunks_ok (chunk_heap w) (missing_chunks w) (have_chunks w) (wanted_chunks w) \<and>
     transfers_ok w \<and> request_ok w"

subsection \<open>Changes that keep the invariant\<close>

lemma peer_ok_local:
  assumes ok: "peer_ok w" and l: "local_to t w w'" and t: "t \<in> set (client_transfers w)"
  shows "peer_ok w'"
proof -
  have "t \<notin> set (server_transfers w)" using ok t by (auto simp: peer_ok_def transfers_ok_def)
  then have "server_ok w'" using ok l by (auto simp: peer_ok_def intro: server_ok_local)
  then show ?thesis using ok by (simp add: peer_ok_def transfers_ok_def request_ok_def local_toD [OF l])
qed

text \<open>The invariant does not look at the peers, the clock, or what was sent and written.\<close>

definition same_core :: "world \<Rightarrow> world \<Rightarrow> bool" where
  "same_core w w' \<longleftrightarrow>
     transfer_heap w' = transfer_heap w \<and> transfer_top w' = transfer_top w \<and> chunk_top w' = chunk_top w \<and>
     server_transfers w' = server_transfers w \<and> client_transfers w' = client_transfers w \<and>
     have_chunks w' = have_chunks w \<and> missing_chunks w' = missing_chunks w \<and>
     wanted_chunks w' = wanted_chunks w \<and> stack_packet w' = stack_packet w \<and>
     user_output_filename w' = user_output_filename w \<and> user_get_chunk_file w' = user_get_chunk_file w \<and>
     files w' = files w \<and> got w' = got w"

lemma same_core_trans [trans]: "same_core w w1 \<Longrightarrow> same_core w1 w2 \<Longrightarrow> same_core w w2"
  by (simp add: same_core_def)

lemma same_core_refl [simp]: "same_core w w"
  by (simp add: same_core_def)

text \<open>What a chunk holds, apart from the peers that offer it.\<close>

definition content :: "chunk \<Rightarrow> chunk" where
  "content c = c\<lparr>chunk_peer := []\<rparr>"

lemma content_eqD:
  "content c = content d \<Longrightarrow> chunk_data c = chunk_data d \<and> bin_hash c = bin_hash d \<and> bits c = bits d \<and>
     bits_count c = bits_count d \<and> chunk_id c = chunk_id d"
  by (metis content_def chunk.select_convs chunk.surjective chunk.update_convs(7))

lemma content_peer [simp]: "content (chunk_peer_update f c) = content c"
  by (simp add: content_def)

definition same_content :: "world \<Rightarrow> world \<Rightarrow> bool" where
  "same_content w w' \<longleftrightarrow> (\<forall>c. content (chunk_heap w' c) = content (chunk_heap w c))"

lemma same_content_trans [trans]: "same_content w w1 \<Longrightarrow> same_content w1 w2 \<Longrightarrow> same_content w w2"
  by (simp add: same_content_def)

lemma same_content_refl [simp]: "same_content w w"
  by (simp add: same_content_def)

lemma same_contentD:
  assumes "same_content w w'"
  shows "chunk_data (chunk_heap w' c) = chunk_data (chunk_heap w c)"
    "bin_hash (chunk_heap w' c) = bin_hash (chunk_heap w c)" "bits (chunk_heap w' c) = bits (chunk_heap w c)"
    "bits_count (chunk_heap w' c) = bits_count (chunk_heap w c)" "chunk_id (chunk_heap w' c) = chunk_id (chunk_heap w c)"
  using assms content_eqD [of "chunk_heap w' c" "chunk_heap w c"] by (auto simp: same_content_def)

lemma peer_ok_core:
  assumes "peer_ok w" and "same_core w w'" and "same_content w w'"
  shows "peer_ok w'"
  using assms(1,2)
  by (simp add: peer_ok_def same_core_def server_ok_def serves_def have_sized_def chunks_ok_def chunk_sized_def
      bits_counted_def verified_def transfers_ok_def request_ok_def same_contentD [OF assms(3)])

lemma create_client_ok:
  assumes ok: "peer_ok w" and c: "c \<in> set (missing_chunks w)"
    and free: "find_by_chunk_hash w (client_transfers w) (bin_hash (chunk_heap w c)) = None"
    and cr: "create_transfer p c w = (t, v)"
  shows "peer_ok (v\<lparr>client_transfers := t # client_transfers v\<rparr>)"
proof -
  let ?v = "v\<lparr>client_transfers := t # client_transfers v\<rparr>"
  have t: "t = transfer_top w" and top: "transfer_top v = Suc t"
    and old: "u \<noteq> t \<Longrightarrow> transfer_heap v u = transfer_heap w u"
    and new: "tr_chunk (transfer_heap v t) = c"
    and same: "chunk_heap v = chunk_heap w" "missing_chunks v = missing_chunks w" "have_chunks v = have_chunks w"
      "wanted_chunks v = wanted_chunks w" "client_transfers v = client_transfers w" "server_transfers v = server_transfers w"
      "stack_packet v = stack_packet w" "user_output_filename v = user_output_filename w"
      "user_get_chunk_file v = user_get_chunk_file w" "chunk_top v = chunk_top w" for u
    using cr by (auto simp: create_transfer_def Let_def world_defs)
  have lt: "u \<noteq> t" if "u \<in> set (client_transfers w) \<union> set (server_transfers w)" for u
    using that ok by (auto simp: t peer_ok_def transfers_ok_def server_ok_def serves_def)
  have "c \<noteq> tr_chunk (transfer_heap w u)" if "u \<in> set (client_transfers w)" for u
    using free that by (auto simp: find_by_chunk_hash_iff find_None_iff)
  moreover have "map (\<lambda>u. tr_chunk (transfer_heap w u)) (client_transfers w) =
      map (\<lambda>u. tr_chunk (transfer_heap v u)) (client_transfers w)"
    using lt old by simp
  then have "distinct (map (\<lambda>u. tr_chunk (transfer_heap v u)) (client_transfers w))"
    using ok unfolding peer_ok_def transfers_ok_def by metis
  ultimately have "transfers_ok ?v"
    using ok lt old c new unfolding transfers_ok_def peer_ok_def by (auto simp: same top t less_Suc_eq)
  moreover have "server_ok ?v"
    using ok lt old by (auto simp: peer_ok_def server_ok_def serves_def have_sized_def same top t)
  ultimately show ?thesis using ok by (simp add: peer_ok_def request_ok_def same)
qed

lemma delete_client_ok: "peer_ok w \<Longrightarrow> peer_ok (delete_client_transfer t w)"
  by (auto simp: peer_ok_def transfers_ok_def delete_client_transfer_def delete_transfer_def world_defs
      server_ok_def serves_def have_sized_def request_ok_def distinct_map
      dest: set_remove1_subset [THEN subsetD] elim: inj_on_subset)

subsection \<open>Requests and acknowledgements\<close>

lemma send_GET_local:
  assumes "send_GET p h n w = Inr w'"
  shows "w' = w \<or> (\<exists>t \<in> set (client_transfers w). local_to t w w')"
proof (cases "find_by_peer w (client_transfers w) p")
  case (Some t)
  then have "t \<in> set (client_transfers w)" by (auto dest: find_by_peer_SomeD)
  moreover have "local_to t w w'"
    using assms Some
    by (auto simp: send_GET_def send_packet_to_peer_def result_simps Let_def world_defs emit_def intro!: local_toI)
  ultimately show ?thesis by blast
qed (use assms in \<open>simp add: send_GET_def\<close>)

lemma send_ACK_local:
  assumes "send_ACK p n w = Inr w'"
  shows "w' = w \<or> (\<exists>t \<in> set (client_transfers w). local_to t w w')"
proof (cases "find_by_peer w (client_transfers w) p")
  case (Some t)
  then have "t \<in> set (client_transfers w)" by (auto dest: find_by_peer_SomeD)
  moreover have "local_to t w w'"
    using assms Some
    by (auto simp: send_ACK_def send_packet_to_peer_def result_simps Let_def world_defs emit_def intro!: local_toI)
  ultimately show ?thesis by blast
qed (use assms in \<open>simp add: send_ACK_def\<close>)

text \<open>What a request or an acknowledgement cannot change.\<close>

definition same_chunks :: "world \<Rightarrow> world \<Rightarrow> bool" where
  "same_chunks w w' \<longleftrightarrow> same_content w w' \<and> missing_chunks w' = missing_chunks w \<and>
     have_chunks w' = have_chunks w \<and> wanted_chunks w' = wanted_chunks w \<and> files w' = files w \<and> got w' = got w"

lemma same_chunks_trans [trans]: "same_chunks w w1 \<Longrightarrow> same_chunks w1 w2 \<Longrightarrow> same_chunks w w2"
  unfolding same_chunks_def using same_content_trans by auto

lemma same_chunks_refl [simp]: "same_chunks w w"
  by (simp add: same_chunks_def)

lemma same_chunks_local: "local_to t w w' \<Longrightarrow> same_chunks w w'"
  by (simp add: same_chunks_def same_content_def local_toD)

lemma same_chunks_core: "same_core w w' \<Longrightarrow> same_content w w' \<Longrightarrow> same_chunks w w'"
  by (simp add: same_chunks_def same_core_def)

lemma send_GET_ok: "peer_ok w \<Longrightarrow> send_GET p h n w = Inr w' \<Longrightarrow> peer_ok w' \<and> same_chunks w w'"
  by (metis send_GET_local peer_ok_local same_chunks_local same_chunks_refl)

lemma send_ACK_ok: "peer_ok w \<Longrightarrow> send_ACK p n w = Inr w' \<Longrightarrow> peer_ok w' \<and> same_chunks w w'"
  by (metis send_ACK_local peer_ok_local same_chunks_local same_chunks_refl)

lemma get_chunk_loop_ok:
  assumes "peer_ok w" and "set cs \<subseteq> set (missing_chunks w)" and "get_chunk_loop cs n w = Inr (m, w')"
  shows "peer_ok w' \<and> same_chunks w w'"
  using assms
proof (induction cs arbitrary: n w)
  case (Cons c cs)
  let ?h = "bin_hash (chunk_heap w c)"
  show ?case
  proof (cases "\<exists>p. find_first_available_peer (peer_heap w) (chunk_heap w c) = Some p \<and>
      find_by_chunk_hash w (client_transfers w) ?h = None")
    case True
    then obtain p where p: "find_first_available_peer (peer_heap w) (chunk_heap w c) = Some p"
      and free: "find_by_chunk_hash w (client_transfers w) ?h = None" by blast
    obtain t v where cr: "create_transfer p c w = (t, v)" by (cases "create_transfer p c w")
    let ?v = "v\<lparr>client_transfers := t # client_transfers v\<rparr>"
    have v: "peer_ok ?v" using Cons.prems by (intro create_client_ok [OF _ _ free cr]) auto
    have sv: "same_chunks w ?v" using cr by (auto simp: same_chunks_def same_content_def create_transfer_def Let_def world_defs)
    from Cons.prems(3) p free cr obtain u where
      u: "send_GET p (bin_hash (chunk_heap ?v c)) 1 ?v = Inr u" "get_chunk_loop cs (Suc n) u = Inr (m, w')"
      by (auto simp: result_simps Let_def)
    have ok: "peer_ok u" "same_chunks ?v u" using send_GET_ok [OF v u(1)] by auto
    have su: "same_chunks w u" by (rule same_chunks_trans [OF sv ok(2)])
    then have "set cs \<subseteq> set (missing_chunks u)" using Cons.prems(2) by (simp add: same_chunks_def)
    with Cons.IH [OF ok(1) _ u(2)] show ?thesis using same_chunks_trans [OF su] by blast
  next
    case False
    then have "get_chunk_loop cs n w = Inr (m, w')"
      using Cons.prems(3) by (auto simp: Let_def split: option.splits)
    then show ?thesis using Cons by auto
  qed
qed simp

lemma init_data_transfer_ok:
  "peer_ok w \<Longrightarrow> init_data_transfer w = Inr (x, w') \<Longrightarrow> peer_ok w' \<and> same_chunks w w'"
  by (auto simp: init_data_transfer_def get_chunk_data_def result_simps dest: get_chunk_loop_ok)

subsection \<open>Time-outs\<close>

lemma drop_peer_fold:
  "same_core w (fold (\<lambda>c w. upd_chunk c (drop_peer w p) w) cs w) \<and>
   same_content w (fold (\<lambda>c w. upd_chunk c (drop_peer w p) w) cs w)"
proof (induction cs arbitrary: w)
  case (Cons c cs)
  have "same_core w (upd_chunk c (drop_peer w p) w)" "same_content w (upd_chunk c (drop_peer w p) w)"
    by (simp_all add: same_core_def same_content_def world_defs drop_peer_def)
  with Cons show ?case using same_core_trans same_content_trans by fastforce
qed simp

lemma handle_transfer_dead_ok:
  assumes "peer_ok w"
  shows "peer_ok (handle_transfer_dead t w)" "same_chunks w (handle_transfer_dead t w)"
    "client_transfers (handle_transfer_dead t w) = remove1 t (client_transfers w)"
proof -
  let ?v = "fold (\<lambda>c w. upd_chunk c (drop_peer w (tr_peer (transfer_heap w t))) w) (missing_chunks w) w"
  let ?u = "fold (\<lambda>c v. upd_chunk c (drop_peer v (tr_peer (transfer_heap w t))) v) (missing_chunks w) w"
  have u: "same_core w ?u" "same_content w ?u" using drop_peer_fold by blast+
  have eq: "handle_transfer_dead t w = delete_client_transfer t ?u"
    by (simp add: handle_transfer_dead_def Let_def)
  show "peer_ok (handle_transfer_dead t w)"
    unfolding eq by (rule delete_client_ok [OF peer_ok_core [OF assms u]])
  show "client_transfers (handle_transfer_dead t w) = remove1 t (client_transfers w)"
    using u(1) unfolding eq by (simp add: delete_client_transfer_def delete_transfer_def world_defs same_core_def)
  have "same_chunks ?u (delete_client_transfer t ?u)"
    by (simp add: same_chunks_def same_content_def delete_client_transfer_def delete_transfer_def world_defs)
  then show "same_chunks w (handle_transfer_dead t w)"
    unfolding eq using same_chunks_trans [OF same_chunks_core [OF u]] by blast
qed

text \<open>The transfer at the head of the list did not time out, is dead, or a message was sent for it.\<close>

lemma client_timeouts_cases:
  assumes "client_timeouts (t # ts) w = Inr w'"
  defines "w0 \<equiv> snd (millitime w)"
  defines "w1 \<equiv> upd_cctrl t (\<lambda>c. c\<lparr>timeout_count := timeout_count c + 1\<rparr>) w0"
  obtains (quiet) "client_timeouts ts w0 = Inr w'"
    | (dead) "client_timeouts ts (handle_transfer_dead t w1) = Inr w'"
    | (sent) v where "v = w1 \<or> (\<exists>u \<in> set (client_transfers w1). local_to u w1 v)" "client_timeouts ts v = Inr w'"
proof -
  let ?c = "tr_chunk (transfer_heap w t)"
  let ?get = "send_GET (tr_peer (transfer_heap w1 t)) (bin_hash (chunk_heap w1 ?c)) 1 w1"
  let ?ack = "send_ACK (tr_peer (transfer_heap w1 t)) (data_find_largest_consec_seq t w1) w1"
  have step: "client_timeouts (t # ts) w =
      (if TIMEOUT_THRESHOLD < now_of w - timestamp (transfer_heap w t) then
         if MAX_TO_COUNTS \<le> timeout_count (cc w1 t) then client_timeouts ts (handle_transfer_dead t w1)
         else if bits_count (chunk_heap w1 ?c) = 0
         then bind_result ?get (client_timeouts ts) else bind_result ?ack (client_timeouts ts)
       else client_timeouts ts w0)"
    by (simp add: transfer_has_timeout_def Let_def millitime_def w1_def w0_def)
  consider "client_timeouts ts w0 = Inr w'" | "client_timeouts ts (handle_transfer_dead t w1) = Inr w'"
    | v where "?get = Inr v" "client_timeouts ts v = Inr w'" | v where "?ack = Inr v" "client_timeouts ts v = Inr w'"
    using assms(1) unfolding step by (auto simp only: bind_result_eq_Inr split: if_splits)
  then show ?thesis
  proof cases
    case 3
    show ?thesis by (rule sent [OF send_GET_local [OF 3(1)] 3(2)])
  next
    case 4
    show ?thesis by (rule sent [OF send_ACK_local [OF 4(1)] 4(2)])
  qed (fact quiet dead)+
qed

lemma client_timeouts_ok:
  assumes "peer_ok w" and "distinct ts" and "set ts \<subseteq> set (client_transfers w)"
    and "client_timeouts ts w = Inr w'"
  shows "peer_ok w' \<and> same_chunks w w'"
  using assms
proof (induction ts arbitrary: w)
  case (Cons t ts)
  let ?w0 = "snd (millitime w)"
  let ?w1 = "upd_cctrl t (\<lambda>c. c\<lparr>timeout_count := timeout_count c + 1\<rparr>) ?w0"
  have t: "t \<in> set (client_transfers w)" and rest: "set ts \<subseteq> set (client_transfers w) - {t}" using Cons.prems by auto
  have l0: "local_to t w ?w0" by (rule local_to_intros)
  have l1: "local_to t w ?w1" by (rule local_to_trans [OF l0 local_to_intros(1)])
  have ok1: "peer_ok ?w1" by (rule peer_ok_local [OF Cons.prems(1) l1 t])
  have c1: "client_transfers ?w1 = client_transfers w" by (rule local_toD [OF l1])
  have next_ok: "peer_ok w' \<and> same_chunks w w'"
    if "peer_ok v" "same_chunks w v" "set ts \<subseteq> set (client_transfers v)" "client_timeouts ts v = Inr w'" for v
    using Cons.IH [OF that(1) _ that(3,4)] Cons.prems(2) same_chunks_trans [OF that(2)] by auto
  have sent: "peer_ok w' \<and> same_chunks w w'"
    if "v = ?w1 \<or> (\<exists>u \<in> set (client_transfers ?w1). local_to u ?w1 v)" "client_timeouts ts v = Inr w'" for v
  proof (rule next_ok [OF _ _ _ that(2)])
    show "peer_ok v" using that(1) ok1 peer_ok_local by blast
    have "same_chunks ?w1 v" using that(1) same_chunks_local by auto
    then show "same_chunks w v" by (rule same_chunks_trans [OF same_chunks_local [OF l1]])
    show "set ts \<subseteq> set (client_transfers v)" using that(1) rest c1 by (auto simp: local_toD)
  qed
  from Cons.prems(4) consider (quiet) "client_timeouts ts ?w0 = Inr w'"
    | (dead) "client_timeouts ts (handle_transfer_dead t ?w1) = Inr w'"
    | (sent) v where "v = ?w1 \<or> (\<exists>u \<in> set (client_transfers ?w1). local_to u ?w1 v)" "client_timeouts ts v = Inr w'"
    by (rule client_timeouts_cases)
  then show ?case
  proof cases
    case quiet
    then show ?thesis using rest t peer_ok_local [OF Cons.prems(1) l0 t] same_chunks_local [OF l0]
      by (intro next_ok) (auto simp: world_defs)
  next
    case dead
    show ?thesis
    proof (rule next_ok [OF _ _ _ dead])
      show "set ts \<subseteq> set (client_transfers (handle_transfer_dead t ?w1))"
        using rest c1 by (simp add: handle_transfer_dead_ok(3) [OF ok1])
          (metis Diff_iff in_set_remove1 insertI1 subset_iff)
    qed (use handle_transfer_dead_ok [OF ok1] same_chunks_trans [OF same_chunks_local [OF l1]] in auto)
  qed (rule sent)
qed simp

lemma send_to_others_core:
  "same_core w (send_to_others config msg ps w) \<and> same_content w (send_to_others config msg ps w)"
proof (induction ps arbitrary: w)
  case (Cons p ps)
  have "same_core w (emit a m (upd_peer p f (snd (millitime w))))" "same_content w (emit a m (upd_peer p f (snd (millitime w))))"
    for a m f by (simp_all add: same_core_def same_content_def world_defs emit_def)
  with Cons show ?case using same_core_trans same_content_trans by (fastforce simp: Let_def millitime_def)
qed simp

lemma whohas_loop_core:
  "whohas_loop config cs pack n w = Inr w' \<Longrightarrow> same_core w w' \<and> same_content w w'"
proof (induction cs arbitrary: pack n w)
  case (Cons c cs)
  have all: "same_core u v \<and> same_content u v" if "send_packet_to_all q config u = Inr v" for q u v
    using that send_to_others_core by (auto simp: send_packet_to_all_def result_simps)
  from Cons.prems show ?case
    by (auto simp: result_simps Let_def split: if_splits
        dest!: Cons.IH all intro: same_core_trans same_content_trans)
qed simp

lemma handle_client_timeout_ok:
  assumes "peer_ok w" and "handle_client_timeout config w = Inr w'"
  shows "peer_ok w' \<and> same_chunks w w'"
proof (cases "length (missing_chunks w) = 0")
  case True
  then show ?thesis using assms by (simp add: handle_client_timeout_def)
next
  case False
  with assms(2) obtain v x u where v: "client_timeouts (client_transfers w) w = Inr v"
    and u: "init_data_transfer v = Inr (x, u)" and last: "w' = u \<or> send_WHOHAS config u = Inr w'"
    by (auto simp: handle_client_timeout_def result_simps split: if_splits)
  have "distinct (client_transfers w)"
    using assms(1) by (auto simp: peer_ok_def transfers_ok_def distinct_map)
  then have "peer_ok v \<and> same_chunks w v" using client_timeouts_ok [OF assms(1) _ _ v] by simp
  then have uo: "peer_ok u \<and> same_chunks w u"
    using init_data_transfer_ok [OF _ u] same_chunks_trans by blast
  have "same_core u w' \<and> same_content u w'"
    using last whohas_loop_core by (auto simp: send_WHOHAS_def)
  then show ?thesis using uo peer_ok_core same_chunks_core same_chunks_trans by blast
qed

subsection \<open>\<open>DENIED\<close> and \<open>IHAVE\<close>\<close>

lemma receive_DENIED_ok:
  assumes "peer_ok w" and "receive_DENIED config from w = Inr w'"
  shows "peer_ok w' \<and> same_chunks w w'"
proof -
  have "same_chunks w (delete_client_transfer t w)" for t
    by (simp add: same_chunks_def same_content_def delete_client_transfer_def delete_transfer_def world_defs)
  then show ?thesis
    using assms delete_client_ok by (auto simp: receive_DENIED_def split: option.splits)
qed

lemma ihave_chunk_core: "same_core w (ihave_chunk p h c w) \<and> same_content w (ihave_chunk p h c w)"
  by (simp add: ihave_chunk_def same_core_def same_content_def world_defs)

lemma ihave_fold_core:
  "same_core w (fold (ihave_chunk p h) cs w) \<and> same_content w (fold (ihave_chunk p h) cs w)"
proof (induction cs arbitrary: w)
  case (Cons c cs)
  then show ?case using ihave_chunk_core same_core_trans same_content_trans by fastforce
qed simp

lemma receive_IHAVE_ok:
  assumes "peer_ok w" and "receive_IHAVE pack config from w = Inr w'"
  shows "peer_ok w' \<and> same_chunks w w'"
proof (cases "find_peer (peer_heap w) config from")
  case None
  then show ?thesis using assms by (simp add: receive_IHAVE_def)
next
  case (Some p)
  let ?loop = "\<lambda>i w. bind_result (array_get (hash_list pack) i) (\<lambda>h. Inr (fold (ihave_chunk p h) (missing_chunks w) w))"
  from Some assms(2) obtain v x u where
    v: "fold_result ?loop [0..<unat (hash_num pack)] w = Inr v"
    and u: "init_data_transfer (upd_peer p (\<lambda>x. x\<lparr>peer_timer := now_of v\<rparr>) (snd (millitime v))) = Inr (x, w')"
    by (auto simp: receive_IHAVE_def result_simps Let_def millitime_def)
  have "same_core w v \<and> same_content w v"
    by (rule fold_result_invariant [OF v, where P = "\<lambda>v. same_core w v \<and> same_content w v"])
       (auto simp: result_simps intro: same_core_trans same_content_trans ihave_fold_core [THEN conjunct1] ihave_fold_core [THEN conjunct2])
  moreover have "same_core v (upd_peer p f (snd (millitime v)))" "same_content v (upd_peer p f (snd (millitime v)))" for f
    by (simp_all add: same_core_def same_content_def world_defs)
  ultimately have "same_core w (upd_peer p f (snd (millitime v)))" "same_content w (upd_peer p f (snd (millitime v)))" for f
    using same_core_trans same_content_trans by blast+
  then show ?thesis
    using init_data_transfer_ok [OF _ u] peer_ok_core [OF assms(1)] same_chunks_core same_chunks_trans by blast
qed

end
