(* ===== verification/Download.thy ===== *)
theory Download
  imports Client
begin

text \<open>
  The course of a download: what the client side of \<^verbatim>\<open>src/code/bt_client.c\<close> does with a
  data packet, from storing it to the verified chunk and the output file; the acknowledgement numbers;
  and the broadcast of the missing hashes.
\<close>

section \<open>Data packets\<close>

lemma filter_update_count:
  assumes "i < length bs" and "bs ! i = (0 :: byte)"
  shows "length (filter (\<lambda>b. b \<noteq> 0) (bs[i := 1])) = Suc (length (filter (\<lambda>b. b \<noteq> 0) bs))"
  using assms by (induction bs arbitrary: i) (auto split: nat.splits simp: nth_Cons')

lemma find_member: "c \<in> set xs \<Longrightarrow> find (\<lambda>m. m = c) xs = Some c"
  by (induction xs) auto

lemma all_bits_set: "bits_counted c \<Longrightarrow> chunk_sized c \<Longrightarrow> bits_count c = int MAX_SEQ_NUM \<Longrightarrow> b \<in> set (bits c) \<Longrightarrow> b \<noteq> 0"
  by (metis (mono_tags, lifting) bits_counted_def chunk_sized_def filter_True int_int_eq length_filter_less order_less_irrefl)

text \<open>An update of a missing chunk that keeps its sizes, its hash and the count of its bits.\<close>

lemma peer_ok_upd_missing:
  assumes ok: "peer_ok w" and c: "c \<in> set (missing_chunks w)"
    and f: "chunk_sized (f (chunk_heap w c))" "bits_counted (f (chunk_heap w c))"
      "bin_hash (f (chunk_heap w c)) = bin_hash (chunk_heap w c)"
  shows "peer_ok (upd_chunk c f w)"
proof -
  have "c \<notin> set (have_chunks w)" using ok c by (auto simp: peer_ok_def chunks_ok_def)
  then have other: "chunk_heap (upd_chunk c f w) d = chunk_heap w d" if "d \<in> set (have_chunks w)" for d
    using that by (auto simp: world_defs)
  have hash: "(\<lambda>d. bin_hash (chunk_heap (upd_chunk c f w) d)) = (\<lambda>d. bin_hash (chunk_heap w d))"
    using f(3) by (auto simp: world_defs)
  have "chunks_ok (chunk_heap (upd_chunk c f w)) (missing_chunks w) (have_chunks w) (wanted_chunks w)"
    unfolding chunks_ok_def hash using ok f other by (auto simp: peer_ok_def chunks_ok_def world_defs)
  moreover have "have_sized (upd_chunk c f w)"
    using ok other by (simp add: peer_ok_def server_ok_def have_sized_def) (simp add: world_defs)
  ultimately show ?thesis
    using ok by (simp add: peer_ok_def server_ok_def serves_def transfers_ok_def request_ok_def)
      (simp add: world_defs)
qed

lemma data_store_ok:
  assumes ok: "peer_ok w" and t: "t \<in> set (client_transfers w)"
    and fresh: "data_already_stored pack t w = Inr False" and st: "data_store pack t w = Inr w'"
  shows "peer_ok w'"
proof -
  let ?c = "tr_chunk (transfer_heap w t)" let ?i = "unat (seq_num pack - 1)"
  have c: "?c \<in> set (missing_chunks w)" using ok t by (auto simp: peer_ok_def transfers_ok_def)
  have sz: "chunk_sized (chunk_heap w ?c)" "bits_counted (chunk_heap w ?c)"
    using ok c by (auto simp: peer_ok_def chunks_ok_def)
  from fresh have bit: "?i < length (bits (chunk_heap w ?c))" "bits (chunk_heap w ?c) ! ?i = 0"
    by (auto simp: data_already_stored_def result_simps)
  from st obtain d where d: "length d = length (chunk_data (chunk_heap w ?c))"
    and w': "w' = upd_chunk ?c (\<lambda>x. x\<lparr>chunk_data := d, bits := (bits (chunk_heap w ?c))[?i := 1], bits_count := bits_count x + 1\<rparr>) w"
    by (auto simp: data_store_def bind_result_eq_Inr array_set_eq_Inr Let_def dest: mem_write_length)
  show ?thesis unfolding w'
    using sz d filter_update_count [OF bit]
    by (intro peer_ok_upd_missing [OF ok c]) (auto simp: chunk_sized_def bits_counted_def)
qed

lemma verified_iff:
  "chunk_sized c \<Longrightarrow> compare_bin_hash (fips_sha1 (chunk_data c)) (bin_hash c) \<longleftrightarrow> verified c"
  by (simp add: chunk_sized_def verified_def compare_bin_hash_iff length_fips_sha1)

text \<open>A complete chunk is moved to the have list if its data matches its hash, and cleared otherwise.\<close>

lemma validate_chunk_eq:
  assumes ok: "peer_ok w" and t: "t \<in> set (client_transfers w)"
  defines "c \<equiv> tr_chunk (transfer_heap w t)"
  shows "validate_chunk t w =
    (if verified (chunk_heap w c)
     then Inr (True, w\<lparr>missing_chunks := remove1 c (missing_chunks w), have_chunks := c # have_chunks w\<rparr>)
     else Inr (False, upd_chunk c (\<lambda>x. x\<lparr>chunk_data := replicate BT_CHUNK_SIZE 0,
            bits := replicate MAX_SEQ_NUM 0, bits_count := 0\<rparr>) w))"
proof -
  have c: "c \<in> set (missing_chunks w)" using ok t by (auto simp: peer_ok_def transfers_ok_def c_def)
  have sz: "chunk_sized (chunk_heap w m)" if "m \<in> set (missing_chunks w)" for m
    using ok that by (auto simp: peer_ok_def chunks_ok_def)
  have cmp: "compare_chunk_by_bin_hash (chunk_heap w m) (bin_hash (chunk_heap w c)) \<longleftrightarrow> m = c"
    if "m \<in> set (missing_chunks w)" for m
    using ok that c sz [OF that] sz [OF c]
    by (auto simp: compare_chunk_by_bin_hash_def compare_bin_hash_iff chunk_sized_def peer_ok_def chunks_ok_def dest: inj_onD)
  have "find (\<lambda>m. compare_chunk_by_bin_hash (chunk_heap w m) (bin_hash (chunk_heap w c))) (missing_chunks w) =
      find (\<lambda>m. m = c) (missing_chunks w)"
    using cmp by (intro find_cong) auto
  also have "\<dots> = Some c" using c by (rule find_member)
  finally show ?thesis
    using verified_iff [OF sz [OF c]] by (simp add: validate_chunk_def c_def shahash_fips Let_def)
qed

lemma check_all_received_ok:
  assumes "peer_ok w" and "check_all_received w = Inr w'"
  shows "peer_ok w'"
proof (cases "missing_chunks w = []")
  case False
  then show ?thesis using assms by (simp add: check_all_received_def)
next
  case True
  then obtain f g where "w' = w\<lparr>files := f, got := g, user_output_filename := None, user_get_chunk_file := None, wanted_chunks := []\<rparr>"
    using assms(2) by (auto simp: check_all_received_def construct_data_def result_simps Let_def split: option.splits)
  then show ?thesis using assms(1) True
    by (simp add: peer_ok_def server_ok_def serves_def have_sized_def chunks_ok_def transfers_ok_def request_ok_def)
qed

lemma check_all_received_delete:
  "check_all_received w = Inr w' \<Longrightarrow> check_all_received (delete_client_transfer t w) = Inr (delete_client_transfer t w')"
  by (auto simp: check_all_received_def construct_data_def delete_client_transfer_def delete_transfer_def
      world_defs result_simps Let_def split: option.splits if_splits)

text \<open>After a verified chunk was moved, its transfer is deleted before anything else is requested.\<close>

lemma complete_ok:
  assumes ok: "peer_ok w" and t: "t \<in> set (client_transfers w)"
    and c: "c = tr_chunk (transfer_heap w t)" and v: "verified (chunk_heap w c)"
    and chk: "check_all_received (w\<lparr>missing_chunks := remove1 c (missing_chunks w), have_chunks := c # have_chunks w\<rparr>) = Inr w2"
  shows "peer_ok (delete_client_transfer t w2)"
proof -
  let ?w1 = "w\<lparr>missing_chunks := remove1 c (missing_chunks w), have_chunks := c # have_chunks w\<rparr>"
  have cm: "c \<in> set (missing_chunks w)" and d: "distinct (missing_chunks w)"
    using ok t c by (auto simp: peer_ok_def transfers_ok_def chunks_ok_def)
  have m: "set (remove1 c (missing_chunks w)) = set (missing_chunks w) - {c}" using d by (rule set_remove1_eq)
  have chunks: "chunks_ok (chunk_heap w) (remove1 c (missing_chunks w)) (c # have_chunks w) (wanted_chunks w)"
    using ok v cm d unfolding peer_ok_def chunks_ok_def m by (auto intro: inj_on_subset)
  have dt: "distinct (client_transfers w)" using ok by (simp add: peer_ok_def transfers_ok_def distinct_map)
  have ts: "set (remove1 t (client_transfers w)) = set (client_transfers w) - {t}" using dt by (rule set_remove1_eq)
  have "transfers_ok (delete_client_transfer t ?w1)"
    using ok t c dt unfolding peer_ok_def transfers_ok_def
    by (auto simp: delete_client_transfer_def delete_transfer_def world_defs ts m [unfolded c] distinct_map
        dest: inj_onD elim: inj_on_subset)
  moreover have "server_ok (delete_client_transfer t ?w1)"
    using ok cm by (auto simp: peer_ok_def server_ok_def serves_def have_sized_def delete_client_transfer_def
        delete_transfer_def world_defs chunks_ok_def chunk_sized_def)
  moreover have "request_ok (delete_client_transfer t ?w1)"
    using ok cm m by (auto simp: peer_ok_def request_ok_def delete_client_transfer_def delete_transfer_def world_defs)
  ultimately have "peer_ok (delete_client_transfer t ?w1)"
    using chunks by (simp add: peer_ok_def) (simp add: delete_client_transfer_def delete_transfer_def world_defs)
  then show ?thesis using check_all_received_delete [OF chk] by (rule check_all_received_ok)
qed

lemma check_all_received_sent: "check_all_received w = Inr w' \<Longrightarrow> sent w' = sent w"
  by (auto simp: check_all_received_def construct_data_def result_simps Let_def split: option.splits if_splits)

text \<open>The end of \<open>finish_chunk\<close>: the transfer is deleted, and the next requests go out in a state in order.\<close>

lemma finish_chunk_request:
  assumes ok: "peer_ok w" and t: "t \<in> set (client_transfers w)" and r: "finish_chunk t w = Inr w'"
  obtains v x where "peer_ok (delete_client_transfer t v)" "init_data_transfer (delete_client_transfer t v) = Inr (x, w')"
    "sent v = sent w"
proof -
  let ?c = "tr_chunk (transfer_heap w t)"
  let ?f = "\<lambda>x. x\<lparr>chunk_data := replicate BT_CHUNK_SIZE 0, bits := replicate MAX_SEQ_NUM 0, bits_count := 0\<rparr>"
  note vc = validate_chunk_eq [OF ok t]
  show thesis
  proof (cases "verified (chunk_heap w ?c)")
    case True
    then obtain v x where
      v: "check_all_received (w\<lparr>missing_chunks := remove1 ?c (missing_chunks w), have_chunks := ?c # have_chunks w\<rparr>) = Inr v"
      and i: "init_data_transfer (delete_client_transfer t v) = Inr (x, w')"
      using r vc by (auto simp: finish_chunk_def bind_result_eq_Inr)
    then show ?thesis using that complete_ok [OF ok t refl True v] check_all_received_sent [OF v] by simp
  next
    case False
    then obtain x where i: "init_data_transfer (delete_client_transfer t (upd_chunk ?c ?f w)) = Inr (x, w')"
      using r vc by (auto simp: finish_chunk_def bind_result_eq_Inr)
    have "?c \<in> set (missing_chunks w)" "chunk_sized (chunk_heap w ?c)"
      using ok t by (auto simp: peer_ok_def transfers_ok_def chunks_ok_def)
    then have "peer_ok (upd_chunk ?c ?f w)"
      by (intro peer_ok_upd_missing [OF ok]) (auto simp: chunk_sized_def bits_counted_def)
    from that [OF delete_client_ok [OF this] i] show ?thesis by (simp add: world_defs)
  qed
qed

lemma finish_chunk_ok:
  assumes "peer_ok w" and "t \<in> set (client_transfers w)" and "finish_chunk t w = Inr w'"
  shows "peer_ok w'"
  by (rule finish_chunk_request [OF assms]) (use init_data_transfer_ok in blast)

text \<open>The steps before that: store the data unless it is there, acknowledge.\<close>

lemma receive_DATA_steps:
  assumes ok: "peer_ok w" and r: "receive_DATA pack p w = Inr w'" and f: "find_by_peer w (client_transfers w) p = Some t"
  obtains w2 where "peer_ok w2" "t \<in> set (client_transfers w2)"
    "(if chunk_bits_all_received t w2 then finish_chunk t w2 else Inr w2) = Inr w'"
    "missing_chunks w2 = missing_chunks w" "have_chunks w2 = have_chunks w" "wanted_chunks w2 = wanted_chunks w"
    "files w2 = files w" "got w2 = got w" "user_output_filename w2 = user_output_filename w"
    "\<And>c. bin_hash (chunk_heap w2 c) = bin_hash (chunk_heap w c) \<and> chunk_id (chunk_heap w2 c) = chunk_id (chunk_heap w c)"
proof -
  have t: "t \<in> set (client_transfers w)" using f by (auto dest: find_by_peer_SomeD)
  from f r obtain stored w1 w2 where
    s: "data_already_stored pack t w = Inr stored" "(if \<not> stored then data_store pack t w else Inr w) = Inr w1"
    and a: "send_ACK p (data_find_largest_consec_seq t w1) w1 = Inr w2"
    and rest: "(if chunk_bits_all_received t w2 then finish_chunk t w2 else Inr w2) = Inr w'"
    by (auto simp: receive_DATA_def bind_result_eq_Inr)
  have ok1: "peer_ok w1" using s ok data_store_ok [OF ok t] by (auto split: if_splits)
  have same: "client_transfers w1 = client_transfers w" "missing_chunks w1 = missing_chunks w" "have_chunks w1 = have_chunks w"
    "wanted_chunks w1 = wanted_chunks w" "files w1 = files w" "got w1 = got w" "user_output_filename w1 = user_output_filename w"
    "bin_hash (chunk_heap w1 c) = bin_hash (chunk_heap w c)" "chunk_id (chunk_heap w1 c) = chunk_id (chunk_heap w c)" for c
    using s(2) by (auto simp: data_store_def result_simps Let_def world_defs split: if_splits)
  from send_ACK_local [OF a] show ?thesis
    using that [OF _ _ rest] send_ACK_ok [OF ok1 a] t by (auto simp: same local_toD)
qed

lemma receive_DATA_ok:
  assumes "peer_ok w" and "receive_DATA pack p w = Inr w'"
  shows "peer_ok w'"
proof (cases "find_by_peer w (client_transfers w) p")
  case None
  then show ?thesis using assms by (simp add: receive_DATA_def)
next
  case (Some t)
  then show ?thesis
    by (rule receive_DATA_steps [OF assms]) (auto split: if_splits intro: finish_chunk_ok)
qed

section \<open>The output file\<close>

definition block :: "byte list \<Rightarrow> nat \<Rightarrow> byte list" where
  "block f j = take BT_CHUNK_SIZE (drop (j * BT_CHUNK_SIZE) f)"

lemma length_file_write [simp]: "length (file_write f off bs) = max (length f) (off + length bs)"
  by (auto simp: file_write_def max_def min_def)

lemma nth_file_write:
  assumes "i < length f"
  shows "file_write f off bs ! i = (if off \<le> i \<and> i < off + length bs then bs ! (i - off) else f ! i)"
  using assms by (auto simp: file_write_def nth_append min_def)

lemma block_write_same: "length bs = BT_CHUNK_SIZE \<Longrightarrow> block (file_write f (j * BT_CHUNK_SIZE) bs) j = bs"
  by (simp add: block_def file_write_def)

lemma block_write_other:
  assumes "length bs = BT_CHUNK_SIZE" and "j \<noteq> k" and "Suc k * BT_CHUNK_SIZE \<le> length f"
  shows "block (file_write f (j * BT_CHUNK_SIZE) bs) k = block f k"
proof (rule nth_equalityI)
  let ?B = BT_CHUNK_SIZE
  show "length (block (file_write f (j * ?B) bs) k) = length (block f k)" using assms by (simp add: block_def)
  fix i assume "i < length (block (file_write f (j * ?B) bs) k)"
  then have i: "i < ?B" by (simp add: block_def)
  have "\<not> (j * ?B \<le> k * ?B + i \<and> k * ?B + i < j * ?B + ?B)"
  proof
    assume "j * ?B \<le> k * ?B + i \<and> k * ?B + i < j * ?B + ?B"
    then have "(k * ?B + i) div ?B = j" by (intro div_nat_eqI) (auto simp: mult.commute)
    with i \<open>j \<noteq> k\<close> show False by simp
  qed
  then show "block (file_write f (j * ?B) bs) k ! i = block f k ! i"
    using i assms by (auto simp: block_def nth_file_write)
qed

text \<open>The file \<open>construct_data\<close> writes; below 8192 the 32-bit offset does not wrap.\<close>

definition output_of :: "(cptr \<Rightarrow> chunk) \<Rightarrow> cptr list \<Rightarrow> byte list" where
  "output_of h cs = fold (\<lambda>c f. file_write f (unat (chunk_id (h c) * of_nat BT_CHUNK_SIZE)) (chunk_data (h c))) cs []"

lemma unat_offset: "unat (i :: u32) < 8192 \<Longrightarrow> unat (i * of_nat BT_CHUNK_SIZE) = unat i * BT_CHUNK_SIZE"
  by (simp add: unat_word_ariths BT_CHUNK_SIZE_def)

lemma output_of_snoc:
  "unat (chunk_id (h c)) < 8192 \<Longrightarrow>
   output_of h (cs @ [c]) = file_write (output_of h cs) (unat (chunk_id (h c)) * BT_CHUNK_SIZE) (chunk_data (h c))"
  by (simp add: output_of_def unat_offset)

lemma output_blocks:
  assumes "distinct (map (\<lambda>c. unat (chunk_id (h c))) cs)"
    and "\<And>c. c \<in> set cs \<Longrightarrow> unat (chunk_id (h c)) < 8192 \<and> length (chunk_data (h c)) = BT_CHUNK_SIZE"
    and "c \<in> set cs"
  shows "block (output_of h cs) (unat (chunk_id (h c))) = chunk_data (h c) \<and>
         Suc (unat (chunk_id (h c))) * BT_CHUNK_SIZE \<le> length (output_of h cs)"
  using assms
proof (induction cs rule: rev_induct)
  case (snoc d cs)
  have d: "unat (chunk_id (h d)) < 8192" "length (chunk_data (h d)) = BT_CHUNK_SIZE" using snoc.prems(2) by auto
  show ?case
  proof (cases "c = d")
    case True
    then show ?thesis using d by (simp add: output_of_snoc block_write_same)
  next
    case False
    then have c: "c \<in> set cs" "unat (chunk_id (h d)) \<noteq> unat (chunk_id (h c))" using snoc.prems by auto
    have "block (output_of h cs) (unat (chunk_id (h c))) = chunk_data (h c) \<and>
        Suc (unat (chunk_id (h c))) * BT_CHUNK_SIZE \<le> length (output_of h cs)"
      using snoc.prems c(1) by (intro snoc.IH) auto
    then show ?thesis using c(2) d by (auto simp: output_of_snoc block_write_other)
  qed
qed simp

lemma length_output:
  assumes "\<And>c. c \<in> set cs \<Longrightarrow> unat (chunk_id (h c)) < n \<and> length (chunk_data (h c)) = BT_CHUNK_SIZE" and "n \<le> 8192"
  shows "length (output_of h cs) \<le> n * BT_CHUNK_SIZE"
  using assms(1)
proof (induction cs rule: rev_induct)
  case (snoc d cs)
  then have d: "unat (chunk_id (h d)) < n" "unat (chunk_id (h d)) < 8192" "length (chunk_data (h d)) = BT_CHUNK_SIZE"
    using assms(2) by force+
  then have "unat (chunk_id (h d)) * BT_CHUNK_SIZE + BT_CHUNK_SIZE \<le> n * BT_CHUNK_SIZE"
    using mult_le_mono1 [of "Suc (unat (chunk_id (h d)))" n BT_CHUNK_SIZE] by simp
  then show ?case using snoc d by (simp add: output_of_snoc)
qed (simp add: output_of_def)

lemma file_by_blocks:
  assumes "length f = n * BT_CHUNK_SIZE" and "length g = n * BT_CHUNK_SIZE" and "\<And>j. j < n \<Longrightarrow> block f j = block g j"
  shows "f = g"
proof (rule nth_equalityI)
  fix i assume i: "i < length f"
  let ?j = "i div BT_CHUNK_SIZE" and ?r = "i mod BT_CHUNK_SIZE"
  have j: "?j < n" using i assms(1) by (simp add: less_mult_imp_div_less)
  have "block x ?j ! ?r = x ! i" if "length x = n * BT_CHUNK_SIZE" for x
  proof -
    have "?j * BT_CHUNK_SIZE \<le> length x"
      using that i assms(1) div_times_less_eq_dividend [of i BT_CHUNK_SIZE] by linarith
    then have "drop (?j * BT_CHUNK_SIZE) x ! ?r = x ! (?j * BT_CHUNK_SIZE + ?r)" by (rule nth_drop)
    then show ?thesis by (simp add: block_def)
  qed
  with assms(1,2) assms(3) [OF j] show "f ! i = g ! i" by metis
qed (simp add: assms)

text \<open>If the wanted chunks are the pieces of a file, the output is that file.\<close>

lemma output_is_file:
  assumes "length f = n * BT_CHUNK_SIZE" and "n \<le> 8192" and "distinct (map (\<lambda>c. unat (chunk_id (h c))) cs)"
    and ids: "(\<lambda>c. unat (chunk_id (h c))) ` set cs = {..<n}"
    and data: "\<And>c. c \<in> set cs \<Longrightarrow> chunk_data (h c) = block f (unat (chunk_id (h c)))"
  shows "output_of h cs = f"
proof (rule file_by_blocks [where n = n])
  have sized: "unat (chunk_id (h c)) < n \<and> length (chunk_data (h c)) = BT_CHUNK_SIZE" if "c \<in> set cs" for c
  proof -
    have id: "unat (chunk_id (h c)) < n" using ids that by auto
    then have "Suc (unat (chunk_id (h c))) * BT_CHUNK_SIZE \<le> n * BT_CHUNK_SIZE" by (intro mult_le_mono1) simp
    then show ?thesis using id data [OF that] assms(1) by (simp add: block_def)
  qed
  have blk: "block (output_of h cs) (unat (chunk_id (h c))) = chunk_data (h c) \<and>
      Suc (unat (chunk_id (h c))) * BT_CHUNK_SIZE \<le> length (output_of h cs)" if "c \<in> set cs" for c
    using sized assms(2) that by (intro output_blocks [OF assms(3)]) force+
  show "block (output_of h cs) j = block f j" if "j < n" for j
  proof -
    obtain c where "c \<in> set cs" "j = unat (chunk_id (h c))" using ids \<open>j < n\<close> by auto
    then show ?thesis using blk data by simp
  qed
  have "n * BT_CHUNK_SIZE \<le> length (output_of h cs)"
  proof (cases n)
    case (Suc m)
    then obtain c where "c \<in> set cs" "m = unat (chunk_id (h c))" using ids by (auto simp: image_iff set_eq_iff)
    then show ?thesis using blk Suc by auto
  qed simp
  moreover have "length (output_of h cs) \<le> n * BT_CHUNK_SIZE" using sized assms(2) by (rule length_output)
  ultimately show "length (output_of h cs) = n * BT_CHUNK_SIZE" by simp
qed (rule assms(1))

text \<open>The data packet that completes the last missing chunk writes the output file.\<close>

lemma check_all_received_empty:
  assumes "check_all_received w = Inr w'" and "missing_chunks w = []"
  shows "\<exists>out. user_output_filename w = Some out \<and> files w' = (files w)(out \<mapsto> output_of (chunk_heap w) (wanted_chunks w))"
  using assms
  by (auto simp: check_all_received_def construct_data_def output_of_def result_simps Let_def split: option.splits)

lemma finish_chunk_last:
  assumes ok: "peer_ok w" and t: "t \<in> set (client_transfers w)" and r: "finish_chunk t w = Inr w'"
    and m: "missing_chunks w \<noteq> []" "missing_chunks w' = []"
  shows "\<exists>out. user_output_filename w = Some out \<and> files w' = (files w)(out \<mapsto> output_of (chunk_heap w) (wanted_chunks w)) \<and>
    (\<forall>c \<in> set (wanted_chunks w). verified (chunk_heap w c) \<and> chunk_sized (chunk_heap w c))"
proof -
  let ?c = "tr_chunk (transfer_heap w t)"
  let ?v = "w\<lparr>missing_chunks := remove1 ?c (missing_chunks w), have_chunks := ?c # have_chunks w\<rparr>"
  note vc = validate_chunk_eq [OF ok t]
  have after: "missing_chunks v = missing_chunks w' \<and> files v = files w'"
    if "peer_ok (delete_client_transfer t v)" "init_data_transfer (delete_client_transfer t v) = Inr (x, w')" for v x
    using init_data_transfer_ok [OF that]
    by (simp add: same_chunks_def delete_client_transfer_def delete_transfer_def world_defs)
  have ver: "verified (chunk_heap w ?c)"
  proof (rule ccontr)
    let ?f = "\<lambda>x. x\<lparr>chunk_data := replicate BT_CHUNK_SIZE 0, bits := replicate MAX_SEQ_NUM 0, bits_count := 0\<rparr>"
    assume "\<not> ?thesis"
    then obtain x where i: "init_data_transfer (delete_client_transfer t (upd_chunk ?c ?f w)) = Inr (x, w')"
      using r vc by (auto simp: finish_chunk_def bind_result_eq_Inr)
    have "?c \<in> set (missing_chunks w)" "chunk_sized (chunk_heap w ?c)"
      using ok t by (auto simp: peer_ok_def transfers_ok_def chunks_ok_def)
    then have "peer_ok (delete_client_transfer t (upd_chunk ?c ?f w))"
      by (intro delete_client_ok peer_ok_upd_missing [OF ok]) (auto simp: chunk_sized_def bits_counted_def)
    from after [OF this i] m show False by (simp add: world_defs)
  qed
  then obtain v x where v: "check_all_received ?v = Inr v" and i: "init_data_transfer (delete_client_transfer t v) = Inr (x, w')"
    using r vc by (auto simp: finish_chunk_def bind_result_eq_Inr)
  have a: "missing_chunks v = [] \<and> files v = files w'"
    using after [OF complete_ok [OF ok t refl ver v] i] m by simp
  moreover have "missing_chunks v = missing_chunks ?v"
    using v by (auto simp: check_all_received_def construct_data_def result_simps Let_def split: if_splits option.splits)
  ultimately have e: "remove1 ?c (missing_chunks w) = []" by simp
  then have "set (missing_chunks w) \<subseteq> {?c}" by (metis empty_iff in_set_remove1 list.set(1) singletonI subsetI)
  then have "\<forall>c \<in> set (wanted_chunks w). verified (chunk_heap w c) \<and> chunk_sized (chunk_heap w c)"
    using ok ver unfolding peer_ok_def chunks_ok_def by blast
  then show ?thesis using check_all_received_empty [OF v] e a by auto
qed

lemma receive_DATA_last:
  assumes ok: "peer_ok w" and r: "receive_DATA pack p w = Inr w'"
    and m: "missing_chunks w \<noteq> []" "missing_chunks w' = []"
    and ids: "distinct (map (\<lambda>c. unat (chunk_id (chunk_heap w c))) (wanted_chunks w))"
      "\<And>c. c \<in> set (wanted_chunks w) \<Longrightarrow> unat (chunk_id (chunk_heap w c)) < 8192"
  shows "\<exists>out f. user_output_filename w = Some out \<and> files w' out = Some f \<and>
    (\<forall>c \<in> set (wanted_chunks w). fips_sha1 (block f (unat (chunk_id (chunk_heap w c)))) = bin_hash (chunk_heap w c))"
proof (cases "find_by_peer w (client_transfers w) p")
  case None
  then show ?thesis using r m by (simp add: receive_DATA_def)
next
  case (Some t)
  show ?thesis
  proof (rule receive_DATA_steps [OF ok r Some])
    fix w2 assume w2: "peer_ok w2" "t \<in> set (client_transfers w2)"
      "(if chunk_bits_all_received t w2 then finish_chunk t w2 else Inr w2) = Inr w'"
      and same: "missing_chunks w2 = missing_chunks w" "wanted_chunks w2 = wanted_chunks w"
      "user_output_filename w2 = user_output_filename w"
      "\<And>c. bin_hash (chunk_heap w2 c) = bin_hash (chunk_heap w c) \<and> chunk_id (chunk_heap w2 c) = chunk_id (chunk_heap w c)"
    have "finish_chunk t w2 = Inr w'" using w2(3) same(1) m by (auto split: if_splits)
    from finish_chunk_last [OF w2(1,2) this] m same obtain out where
      out: "user_output_filename w = Some out" "files w' = (files w2)(out \<mapsto> output_of (chunk_heap w2) (wanted_chunks w))"
      and ok: "\<And>c. c \<in> set (wanted_chunks w) \<Longrightarrow> verified (chunk_heap w2 c) \<and> chunk_sized (chunk_heap w2 c)"
      by auto
    have "fips_sha1 (block (output_of (chunk_heap w2) (wanted_chunks w)) (unat (chunk_id (chunk_heap w c)))) = bin_hash (chunk_heap w c)"
      if "c \<in> set (wanted_chunks w)" for c
      using output_blocks [of "chunk_heap w2" "wanted_chunks w" c] that ids ok same(4)
      by (auto simp: chunk_sized_def verified_def)
    then show ?thesis using out by auto
  qed
qed

section \<open>Acknowledgement numbers\<close>

lemma consec_from_take:
  assumes "length bs = MAX_SEQ_NUM" and "i \<le> MAX_SEQ_NUM"
  shows "consec_from bs i = i + length (takeWhile (\<lambda>b. b \<noteq> 0) (drop i bs))"
  using assms
proof (induction bs i rule: consec_from.induct)
  case (1 bs i)
  show ?case
  proof (cases "i < MAX_SEQ_NUM")
    case True
    then have "drop i bs = bs ! i # drop (Suc i) bs" using "1.prems" by (simp add: Cons_nth_drop_Suc)
    then show ?thesis using 1 True by (subst consec_from.simps) simp
  next
    case False
    then show ?thesis using "1.prems" by (subst consec_from.simps) simp
  qed
qed

section \<open>Broadcasts of the missing hashes\<close>

text \<open>The hashes are sent in packets of at most 74, in list order.\<close>

fun batches :: "'a list \<Rightarrow> 'a list \<Rightarrow> 'a list list" where
  "batches acc [] = []"
| "batches acc (h # hs) =
     (if Suc (length acc) = MAX_HASH_IN_PACKET \<or> hs = [] then (acc @ [h]) # batches [] hs
      else batches (acc @ [h]) hs)"

lemma concat_batches: "hs \<noteq> [] \<Longrightarrow> concat (batches acc hs) = acc @ hs"
proof (induction acc hs rule: batches.induct)
  case (2 acc h hs)
  then show ?case by (cases hs) auto
qed simp

lemma batches_bound:
  "length acc < MAX_HASH_IN_PACKET \<Longrightarrow> b \<in> set (batches acc hs) \<Longrightarrow> length b \<le> MAX_HASH_IN_PACKET"
proof (induction acc hs rule: batches.induct)
  case (2 acc h hs)
  then show ?case by (auto simp: packet_consts chunk_consts split: if_splits)
qed simp

definition recipients :: "bt_config_t \<Rightarrow> world \<Rightarrow> sockaddr_in list" where
  "recipients config w = map (\<lambda>p. peer_addr (peer_heap w p))
     (filter (\<lambda>p. identity config \<noteq> peer_id (peer_heap w p)) (config_peers config))"

lemma send_to_others_peers:
  "chunk_heap (send_to_others config m ps w) = chunk_heap w \<and>
   peer_addr (peer_heap (send_to_others config m ps w) p) = peer_addr (peer_heap w p) \<and>
   peer_id (peer_heap (send_to_others config m ps w) p) = peer_id (peer_heap w p)"
  by (induction ps arbitrary: w) (auto simp: Let_def world_defs emit_def)

lemma recipients_send: "recipients config (send_to_others config' m ps w) = recipients config w"
  by (simp add: recipients_def send_to_others_peers)

lemma send_to_others_recipients:
  "sent (send_to_others config m (config_peers config) w) = sent w @ map (\<lambda>a. (a, m)) (recipients config w)"
  by (simp add: send_to_others_sent recipients_def)

text \<open>A full or last packet is sent to every other peer.\<close>

lemma send_whohas_batch:
  assumes "length hs \<le> MAX_HASH_IN_PACKET" and "\<And>h. h \<in> set hs \<Longrightarrow> length h = BIN_HASH_SIZE"
  shows "send_packet_to_all (zero_packet\<lparr>hash_list := hs @ drop (length hs) (hash_list zero_packet),
            ptype := WHOHAS, header_len := of_nat STANDARD_HEADER_LEN,
            packet_len := of_nat (STANDARD_HEADER_LEN + HEADER_PAD_LEN + length hs * BIN_HASH_SIZE),
            seq_num := 0, ack_num := 0, hash_num := of_nat (length hs)\<rparr>) config w =
         Inr (send_to_others config (hash_message WHOHAS 0 hs) (config_peers config) w)"
proof -
  let ?p = "zero_packet\<lparr>hash_list := hs @ drop (length hs) (hash_list zero_packet),
            ptype := WHOHAS, header_len := of_nat STANDARD_HEADER_LEN,
            packet_len := of_nat (STANDARD_HEADER_LEN + HEADER_PAD_LEN + length hs * BIN_HASH_SIZE),
            seq_num := 0, ack_num := 0, hash_num := of_nat (length hs)\<rparr>"
  have "serialize_packet ?p = Inr (hash_message (ptype ?p) (seq_num ?p) hs)"
    using assms
    by (intro serialize_hash_message)
       (auto simp: packet_arrays_def has_hashes_def packet_consts zero_packet_def dest: in_set_dropD)
  then show ?thesis by (simp add: send_packet_to_all_eq)
qed

lemma whohas_loop_sent:
  assumes "length acc < MAX_HASH_IN_PACKET" and "\<And>h. h \<in> set acc \<Longrightarrow> length h = BIN_HASH_SIZE"
    and "\<And>c. c \<in> set cs \<Longrightarrow> length (bin_hash (chunk_heap w c)) = BIN_HASH_SIZE"
  shows "\<exists>w'. whohas_loop config cs (zero_packet\<lparr>hash_list := acc @ drop (length acc) (hash_list zero_packet)\<rparr>) (length acc) w = Inr w' \<and>
    sent w' = sent w @ concat (map (\<lambda>hs. map (\<lambda>a. (a, hash_message WHOHAS 0 hs)) (recipients config w))
                            (batches acc (map (\<lambda>c. bin_hash (chunk_heap w c)) cs)))"
  using assms
proof (induction cs arbitrary: acc w)
  case (Cons c cs)
  let ?h = "bin_hash (chunk_heap w c)" let ?z = "hash_list zero_packet"
  have "length acc < length ?z" using Cons.prems(1) by (simp add: zero_packet_def)
  then have row: "array_set (acc @ drop (length acc) ?z) (length acc) ?h =
      Inr ((acc @ [?h]) @ drop (length (acc @ [?h])) ?z)"
    by (simp add: array_set_def list_update_append Cons_nth_drop_Suc [symmetric])
  have sz: "\<And>h. h \<in> set (acc @ [?h]) \<Longrightarrow> length h = BIN_HASH_SIZE" using Cons.prems by auto
  show ?case
  proof (cases "Suc (length acc) = MAX_HASH_IN_PACKET \<or> cs = []")
    case True
    let ?w = "send_to_others config (hash_message WHOHAS 0 (acc @ [?h])) (config_peers config) w"
    have "whohas_loop config (c # cs) (zero_packet\<lparr>hash_list := acc @ drop (length acc) ?z\<rparr>) (length acc) w =
        whohas_loop config cs zero_packet 0 ?w"
      using True row send_whohas_batch [of "acc @ [?h]" config w] sz Cons.prems(1) by (simp add: Let_def)
    moreover obtain w' where "whohas_loop config cs zero_packet 0 ?w = Inr w'"
      "sent w' = sent ?w @ concat (map (\<lambda>hs. map (\<lambda>a. (a, hash_message WHOHAS 0 hs)) (recipients config ?w))
                            (batches [] (map (\<lambda>c. bin_hash (chunk_heap ?w c)) cs)))"
      using Cons.IH [of "[]" ?w] Cons.prems(3) by (auto simp: send_to_others_peers packet_consts chunk_consts)
    ultimately show ?thesis using True
      by (auto simp: send_to_others_recipients recipients_send send_to_others_peers)
  next
    case False
    then have "whohas_loop config (c # cs) (zero_packet\<lparr>hash_list := acc @ drop (length acc) ?z\<rparr>) (length acc) w =
        whohas_loop config cs (zero_packet\<lparr>hash_list := (acc @ [?h]) @ drop (length (acc @ [?h])) ?z\<rparr>) (length (acc @ [?h])) w"
      using row by (simp add: Let_def)
    then show ?thesis using Cons.IH [of "acc @ [?h]" w] Cons.prems sz False by simp
  qed
qed simp

lemma send_WHOHAS_sent:
  assumes "\<And>c. c \<in> set (missing_chunks w) \<Longrightarrow> length (bin_hash (chunk_heap w c)) = BIN_HASH_SIZE"
  shows "\<exists>w'. send_WHOHAS config w = Inr w' \<and>
    sent w' = sent w @ concat (map (\<lambda>hs. map (\<lambda>a. (a, hash_message WHOHAS 0 hs)) (recipients config w))
                            (batches [] (map (\<lambda>c. bin_hash (chunk_heap w c)) (missing_chunks w))))"
  using whohas_loop_sent [of "[]" "missing_chunks w" w config] assms
  by (simp add: send_WHOHAS_def packet_consts chunk_consts)

section \<open>Properties\<close>


subsection \<open>A chunk is rebuilt from its parts in any order\<close>

lemma part_write:
  assumes "length a = BT_CHUNK_SIZE" "length d = BT_CHUNK_SIZE" "i < MAX_SEQ_NUM"
  shows "\<exists>b. mem_write a (i * DATA_SIZE) (part d i) = Inr b \<and> length b = BT_CHUNK_SIZE \<and>
           (\<forall>j. part b j = (if j = i then part d i else part a j))"
proof -
  let ?n = "length (part d i)"
  have n: "?n = min 1000 (524288 - i * 1000)" using length_part [OF assms(2), of i] by (simp add: chunk_consts)
  have fits: "i * DATA_SIZE + ?n \<le> length a" using assms n by (simp add: chunk_consts)
  let ?b = "take (i * DATA_SIZE) a @ part d i @ drop (i * DATA_SIZE + ?n) a"
  have len: "length ?b = BT_CHUNK_SIZE" using fits assms(1) by simp
  have "part ?b j = (if j = i then part d i else part a j)" for j
  proof (rule nth_equalityI)
    have "length (part ?b j) = length (part a j)" using length_part [OF len] length_part [OF assms(1)] by simp
    moreover have "length (part d i) = length (part a i)" using assms by (simp add: length_part)
    ultimately show "length (part ?b j) = length (if j = i then part d i else part a j)" by simp
    fix k assume "k < length (part ?b j)"
    then have k: "k < 1000" "j * 1000 + k < 524288"
      using length_part [OF len, of j] by (auto simp: chunk_consts)
    have nth: "part x j ! k = x ! (j * 1000 + k)" if "length x = BT_CHUNK_SIZE" for x
      using that k by (simp add: part_def chunk_consts)
    show "part ?b j ! k = (if j = i then part d i else part a j) ! k"
    proof (cases "j = i")
      case True
      then have "k < ?n" using k n by simp
      then show ?thesis using True nth [OF len] fits assms(1) by (simp add: nth_append chunk_consts)
    next
      case False
      then have "j * 1000 + k < i * 1000 \<or> i * 1000 + ?n \<le> j * 1000 + k"
        using k n by (cases "j < i") auto
      then show ?thesis
        using False nth [OF len] nth [OF assms(1)] fits assms(1) by (auto simp: nth_append chunk_consts)
    qed
  qed
  then show ?thesis using fits len assms(1) by (auto simp: mem_write_def)
qed

lemma file_by_parts:
  assumes "length a = BT_CHUNK_SIZE" "length b = BT_CHUNK_SIZE" and "\<And>j. j < MAX_SEQ_NUM \<Longrightarrow> part a j = part b j"
  shows "a = b"
proof (rule nth_equalityI)
  fix i assume "i < length a"
  then have i: "i < 524288" using assms(1) by (simp add: BT_CHUNK_SIZE_def)
  have "part x (i div 1000) ! (i mod 1000) = x ! i" if "length x = BT_CHUNK_SIZE" for x
    using that i by (simp add: part_def chunk_consts)
  moreover have "i div 1000 < MAX_SEQ_NUM" using i by (simp add: chunk_consts)
  ultimately show "a ! i = b ! i" using assms by metis
qed (use assms in simp)

text \<open>Storing the data packet for part \<open>i\<close> replaces that part of the chunk and sets its bit.\<close>

lemma data_store_part:
  assumes sz: "chunk_sized (transfer_chunk w t)" and d: "length d = BT_CHUNK_SIZE" and i: "i < MAX_SEQ_NUM"
  shows "\<exists>b. data_store (data_packet d i) t w =
      Inr (upd_chunk (tr_chunk (transfer_heap w t)) (\<lambda>x. x\<lparr>chunk_data := b, bits := (bits (transfer_chunk w t))[i := 1], bits_count := bits_count x + 1\<rparr>) w) \<and>
    length b = BT_CHUNK_SIZE \<and> (\<forall>j. part b j = (if j = i then part d i else part (chunk_data (transfer_chunk w t)) j))"
proof -
  have i': "i \<le> 524" using i by (simp add: chunk_consts)
  have seq: "seq_num (data_packet d i) - 1 = of_nat i" by (simp add: data_packet_def)
  have off: "unat (of_nat i * of_nat DATA_SIZE :: u32) = i * DATA_SIZE" "unat (of_nat i :: u32) = i"
    using i' by (simp_all add: DATA_SIZE_def unat_word_ariths unat_of_nat)
  have le: "length (part d i) \<le> 1000" using length_part_le [of d i] by (simp add: DATA_SIZE_def)
  then have "unat (of_nat (16 + length (part d i)) :: u16) = 16 + length (part d i)"
    by (simp add: unat_of_nat del: of_nat_add)
  then have "payload_size (data_packet d i) = Inr (length (part d i))"
    by (simp add: payload_size_def data_packet_def word_less_nat_alt del: of_nat_add)
  moreover have "mem_read (pdata (data_packet d i)) 0 (length (part d i)) = Inr (part d i)"
    using le by (simp add: mem_read_def data_packet_def DATA_SIZE_def)
  moreover have "i < length (bits (transfer_chunk w t))" using sz i by (simp add: chunk_sized_def)
  ultimately show ?thesis
    using part_write [OF _ d i, of "chunk_data (transfer_chunk w t)"] sz
    by (auto simp: data_store_def seq off array_set_def chunk_sized_def Let_def)
qed

definition store_parts :: "byte list \<Rightarrow> tptr \<Rightarrow> nat list \<Rightarrow> world \<Rightarrow> world result" where
  "store_parts d t = fold_result (\<lambda>i w. data_store (data_packet d i) t w)"

lemma store_parts_result:
  assumes "chunk_sized (transfer_chunk w t)" and "length d = BT_CHUNK_SIZE" and "set is \<subseteq> {..<MAX_SEQ_NUM}"
  shows "\<exists>w'. store_parts d t is w = Inr w' \<and> chunk_sized (transfer_chunk w' t) \<and>
    bin_hash (transfer_chunk w' t) = bin_hash (transfer_chunk w t) \<and>
    bits_count (transfer_chunk w' t) = bits_count (transfer_chunk w t) + int (length is) \<and>
    (\<forall>j. part (chunk_data (transfer_chunk w' t)) j =
       (if j \<in> set is then part d j else part (chunk_data (transfer_chunk w t)) j))"
  using assms
proof (induction "is" arbitrary: w)
  case Nil
  then show ?case by (simp add: store_parts_def)
next
  case (Cons i "is")
  let ?c = "tr_chunk (transfer_heap w t)"
  from data_store_part [OF Cons.prems(1,2), of i] Cons.prems(3) obtain b where
    st: "data_store (data_packet d i) t w = Inr (upd_chunk ?c (\<lambda>x. x\<lparr>chunk_data := b,
      bits := (bits (transfer_chunk w t))[i := 1], bits_count := bits_count x + 1\<rparr>) w)" (is "_ = Inr ?v")
    and b: "length b = BT_CHUNK_SIZE" "\<And>j. part b j = (if j = i then part d i else part (chunk_data (transfer_chunk w t)) j)"
    by auto
  have v: "chunk_sized (transfer_chunk ?v t)" using Cons.prems(1) b(1) by (simp add: world_defs chunk_sized_def)
  have "store_parts d t (i # is) w = store_parts d t is ?v" using st by (simp add: store_parts_def)
  then show ?case using Cons.IH [OF v Cons.prems(2)] Cons.prems(3) b(2) by (auto simp: world_defs)
qed

text \<open>
  Claim C11. A chunk is rebuilt whatever the order of its packets: storing the 525 data packets that
  a server sends for a chunk, in any order and each once, into a chunk structure with any content
  and a counter of received parts at 0 succeeds and leaves exactly the server's data there, with all
  525 parts counted.
\<close>

theorem chunk_rebuilt_in_any_order:
  assumes "chunk_sized (transfer_chunk w t)" and "length d = BT_CHUNK_SIZE"
    and "set order = {..<MAX_SEQ_NUM}" and "distinct order" and "bits_count (transfer_chunk w t) = 0"
  shows "\<exists>w'. store_parts d t order w = Inr w' \<and> chunk_data (transfer_chunk w' t) = d \<and>
    chunk_bits_all_received t w'"
proof -
  from store_parts_result [OF assms(1,2), of order] assms(3) obtain w' where
    w': "store_parts d t order w = Inr w'" "chunk_sized (transfer_chunk w' t)"
      "bits_count (transfer_chunk w' t) = int (length order)"
      "\<And>j. j < MAX_SEQ_NUM \<Longrightarrow> part (chunk_data (transfer_chunk w' t)) j = part d j"
    using assms(5) by auto
  have "chunk_data (transfer_chunk w' t) = d"
    by (rule file_by_parts) (use w' assms(2) in \<open>auto simp: chunk_sized_def\<close>)
  moreover have "length order = MAX_SEQ_NUM" using distinct_card [OF assms(4)] assms(3) by simp
  ultimately show ?thesis using w' by (auto simp: chunk_bits_all_received_def)
qed

theorem chunk_rebuilt_in_any_order_witness:
  "\<exists>w'. store_parts (replicate 524288 7) 0 (rev [0..<525]) initial_world = Inr w' \<and>
     chunk_data (transfer_chunk w' 0) = replicate 524288 7"
proof -
  have "chunk_sized (transfer_chunk initial_world 0)" "bits_count (transfer_chunk initial_world 0) = 0"
    by (simp_all add: initial_world_def chunk_sized_def zero_chunk_def)
  then show ?thesis
    using chunk_rebuilt_in_any_order [of initial_world 0 "replicate 524288 7" "rev [0..<525]"]
    by (auto simp: chunk_consts atLeast0LessThan)
qed

text \<open>
  Claim C12. \<open>construct_data\<close> writes the wanted file: if the wanted chunks are numbered from 0 to
  \<open>n - 1\<close>, in any order, and hold the pieces of a file of \<open>n\<close> chunks (\<open>n\<close> at most 8192, where the
  32-bit offset does not wrap), the output file is that file, byte for byte.
\<close>

theorem output_file_is_assembled:
  assumes "user_output_filename w = Some out" and "user_get_chunk_file w = Some g"
    and "length f = n * BT_CHUNK_SIZE" and "n \<le> 8192"
    and "distinct (map (\<lambda>c. unat (chunk_id (chunk_heap w c))) (wanted_chunks w))"
    and "(\<lambda>c. unat (chunk_id (chunk_heap w c))) ` set (wanted_chunks w) = {..<n}"
    and "\<And>c. c \<in> set (wanted_chunks w) \<Longrightarrow> chunk_data (chunk_heap w c) = block f (unat (chunk_id (chunk_heap w c)))"
  shows "\<exists>w'. construct_data w = Inr w' \<and> files w' out = Some f \<and> got w' = got w @ [g]"
  using output_is_file [OF assms(3-7)] assms(1,2)
  by (simp add: construct_data_def output_of_def Let_def)

text \<open>Two wanted chunks, the second one first in the list.\<close>

definition demo_wanted :: world where
  "demo_wanted = initial_world\<lparr>wanted_chunks := [1, 0], user_output_filename := Some ''out'', user_get_chunk_file := Some ''get'',
     chunk_heap := (\<lambda>c. zero_chunk\<lparr>chunk_id := of_nat c, chunk_data := replicate BT_CHUNK_SIZE (of_nat c)\<rparr>)\<rparr>"

theorem output_file_is_assembled_witness:
  "\<exists>w'. construct_data demo_wanted = Inr w' \<and>
     files w' ''out'' = Some (replicate BT_CHUNK_SIZE 0 @ replicate BT_CHUNK_SIZE 1)"
proof -
  let ?f = "replicate BT_CHUNK_SIZE 0 @ replicate BT_CHUNK_SIZE 1"
  have "\<exists>w'. construct_data demo_wanted = Inr w' \<and> files w' ''out'' = Some ?f \<and> got w' = got demo_wanted @ [''get'']"
  proof (rule output_file_is_assembled [where n = 2])
    show "chunk_data (chunk_heap demo_wanted c) = block ?f (unat (chunk_id (chunk_heap demo_wanted c)))"
      if "c \<in> set (wanted_chunks demo_wanted)" for c
      using that by (auto simp: demo_wanted_def block_def)
  qed (auto simp: demo_wanted_def)
  then show ?thesis by blast
qed

text \<open>A client that waits for the last acknowledged part of its only chunk.\<close>

definition demo_client :: world where
  "demo_client = (snd (create_transfer 3 0 initial_world))
     \<lparr>chunk_heap := (\<lambda>_. zero_chunk\<lparr>bin_hash := fips_sha1 (replicate BT_CHUNK_SIZE 0), bits := replicate MAX_SEQ_NUM 1,
        bits_count := int MAX_SEQ_NUM\<rparr>),
      chunk_top := 1, missing_chunks := [0], wanted_chunks := [0], client_transfers := [0],
      user_output_filename := Some ''out'', user_get_chunk_file := Some ''get''\<rparr>"

lemmas demo_client_defs = demo_client_def initial_world_def create_transfer_def zero_cctrl_def Let_def world_defs
  transfer_consts

lemma demo_client_ok: "peer_ok demo_client"
proof -
  have "chunk_sized (chunk_heap demo_client 0)" "bits_counted (chunk_heap demo_client 0)"
    by (simp_all add: demo_client_defs chunk_sized_def bits_counted_def length_fips_sha1 zero_chunk_def)
  moreover have "packet_arrays (stack_packet demo_client)"
    by (simp add: demo_client_defs packet_arrays_def zero_packet_def)
  ultimately show ?thesis
    by (simp add: peer_ok_def chunks_ok_def transfers_ok_def request_ok_def server_ok_def have_sized_def)
       (simp add: demo_client_defs)
qed


lemma demo_client_data:
  "\<exists>w'. receive_DATA (zero_packet\<lparr>seq_num := 1\<rparr>) 3 demo_client = Inr w' \<and> missing_chunks w' = []"
proof -
  have f: "find_by_peer demo_client (client_transfers demo_client) 3 = Some 0"
    by (simp add: find_by_peer_iff demo_client_defs)
  have st: "data_already_stored (zero_packet\<lparr>seq_num := 1\<rparr>) 0 demo_client = Inr True"
    by (simp add: data_already_stored_def array_get_def demo_client_defs chunk_consts)
  let ?n = "data_find_largest_consec_seq 0 demo_client"
  let ?p = "(stack_packet demo_client)\<lparr>ptype := ACK, header_len := of_nat STANDARD_HEADER_LEN,
            packet_len := of_nat STANDARD_HEADER_LEN, seq_num := 0, ack_num := ?n\<rparr>"
  have "serialize_packet ?p = Inr (header_bytes ?p)" by (simp add: serialize_ack mem_write_zeros packet_consts)
  then have a: "send_ACK 3 ?n demo_client = Inr (emit (peer_addr (peer_heap demo_client 3)) (header_bytes ?p)
      (upd_transfer 0 (\<lambda>x. x\<lparr>timestamp := now_of demo_client\<rparr>) (snd (millitime demo_client))))" (is "_ = Inr ?v")
    using f by (simp add: send_ACK_def send_packet_to_peer_eq Let_def millitime_def) (simp add: world_defs)
  have ok: "peer_ok ?v" using send_ACK_ok [OF demo_client_ok a] by simp
  have t: "0 \<in> set (client_transfers ?v)" by (simp add: emit_def demo_client_defs)
  have ver: "verified (chunk_heap ?v (tr_chunk (transfer_heap ?v 0)))" by (simp add: verified_def emit_def demo_client_defs zero_chunk_def)
  let ?u = "?v\<lparr>missing_chunks := [], have_chunks := [0]\<rparr>"
  have val: "validate_chunk 0 ?v = Inr (True, ?u)"
    using validate_chunk_eq [OF ok t] ver by (simp add: emit_def demo_client_defs)
  obtain w2 where c: "check_all_received ?u = Inr w2" and m: "missing_chunks w2 = []"
    by (simp add: check_all_received_def construct_data_def Let_def emit_def demo_client_defs)
  have i: "init_data_transfer (delete_client_transfer 0 w2) = Inr (EXIT_FAILURE, delete_client_transfer 0 w2)"
    using m by (simp add: init_data_transfer_def get_chunk_data_def delete_client_transfer_def delete_transfer_def world_defs)
  have "chunk_bits_all_received 0 ?v" by (simp add: chunk_bits_all_received_def emit_def demo_client_defs)
  then have "receive_DATA (zero_packet\<lparr>seq_num := 1\<rparr>) 3 demo_client = Inr (delete_client_transfer 0 w2)"
    using f st a val c i by (simp add: receive_DATA_def finish_chunk_def)
  then show ?thesis using m by (simp add: delete_client_transfer_def delete_transfer_def world_defs)
qed


text \<open>
  The acknowledgement number is cumulative: \<open>data_find_largest_consec_seq\<close> returns the
  number of parts received without a gap from the start of the chunk.
\<close>

lemma ack_number_is_cumulative:
  assumes "length (bits (transfer_chunk w t)) = MAX_SEQ_NUM"
  shows "unat (data_find_largest_consec_seq t w) = length (takeWhile (\<lambda>b. b \<noteq> 0) (bits (transfer_chunk w t)))"
proof -
  let ?n = "length (takeWhile (\<lambda>b. b \<noteq> 0) (bits (transfer_chunk w t)))"
  have "?n \<le> 525" using length_takeWhile_le [of "\<lambda>b. b \<noteq> 0" "bits (transfer_chunk w t)"] assms by (simp add: chunk_consts)
  then show ?thesis
    using consec_from_take [OF assms, of 0] by (simp add: data_find_largest_consec_seq_def unat_of_nat)
qed

text \<open>
  Claim C24. \<open>send_WHOHAS\<close> asks every other peer for every missing chunk: the hashes go out in packets
  of at most 74 that together are the list of missing hashes in order, each packet to each other peer
  of the configuration once, and nothing faults.
\<close>

theorem whohas_covers_missing:
  assumes "\<And>c. c \<in> set (missing_chunks w) \<Longrightarrow> length (bin_hash (chunk_heap w c)) = BIN_HASH_SIZE"
  shows "\<exists>w' packets. send_WHOHAS config w = Inr w' \<and>
    concat packets = map (\<lambda>c. bin_hash (chunk_heap w c)) (missing_chunks w) \<and>
    list_all (\<lambda>hs. length hs \<le> MAX_HASH_IN_PACKET) packets \<and>
    sent w' = sent w @ concat (map (\<lambda>hs. map (\<lambda>a. (a, hash_message WHOHAS 0 hs)) (recipients config w)) packets)"
proof -
  let ?h = "map (\<lambda>c. bin_hash (chunk_heap w c)) (missing_chunks w)"
  have "concat (batches [] ?h) = ?h" using concat_batches [of ?h "[]"] by (cases "?h = []") simp_all
  moreover have "list_all (\<lambda>hs. length hs \<le> MAX_HASH_IN_PACKET) (batches [] ?h)"
    using batches_bound [of "[]" _ ?h] by (simp add: list_all_iff packet_consts chunk_consts)
  ultimately show ?thesis using send_WHOHAS_sent [OF assms, of config] by blast
qed

theorem whohas_covers_missing_witness:
  "\<exists>w'. send_WHOHAS \<lparr>chunk_file = [], has_chunk_file = [], output_file = [], peer_list_file = [], max_conn = 4, identity = 1,
       myport = 0, config_peers = [1, 2]\<rparr> (initial_world\<lparr>missing_chunks := [0]\<rparr>) = Inr w'"
  using whohas_covers_missing [of "initial_world\<lparr>missing_chunks := [0]\<rparr>"
      "\<lparr>chunk_file = [], has_chunk_file = [], output_file = [], peer_list_file = [], max_conn = 4, identity = 1,
       myport = 0, config_peers = [1, 2]\<rparr>"]
  by (auto simp: initial_world_def zero_chunk_def)

text \<open>
  Claim C37. The sequence number of a data packet is not checked: number 0, or one above 525, makes
  \<open>receive_DATA\<close> read outside the array of received parts.
\<close>

theorem bad_sequence_number:
  assumes "find_by_peer w (client_transfers w) p = Some t" and "length (bits (transfer_chunk w t)) = MAX_SEQ_NUM"
    and "seq_num pack = 0 \<or> of_nat MAX_SEQ_NUM < seq_num pack"
  shows "receive_DATA pack p w = Inl Out_Of_Bounds"
proof -
  have "\<not> unat (seq_num pack - 1) < 525"
  proof (cases "seq_num pack = 0")
    case False
    then have "1 \<le> seq_num pack" by (simp add: word_le_nat_alt word_unat_eq_iff)
    moreover have "525 < unat (seq_num pack)" using False assms(3) by (simp add: word_less_nat_alt chunk_consts)
    ultimately show ?thesis by (simp add: unat_sub)
  qed (simp add: unsigned_minus_1_eq_mask mask_eq_exp_minus_1)
  then show ?thesis
    using assms(1,2) by (simp add: receive_DATA_def data_already_stored_def array_get_def chunk_consts)
qed

theorem bad_sequence_number_witness: "receive_DATA (zero_packet\<lparr>seq_num := 526\<rparr>) 3 demo_client = Inl Out_Of_Bounds"
  by (rule bad_sequence_number [of _ _ 0])
     (simp_all add: find_by_peer_iff demo_client_defs chunk_consts)

lemma drop_peer_heap:
  "distinct cs \<Longrightarrow> chunk_heap (fold (\<lambda>c w. upd_chunk c (drop_peer w p) w) cs w) =
     (\<lambda>c. if c \<in> set cs then drop_peer w p (chunk_heap w c) else chunk_heap w c)"
proof (induction cs arbitrary: w)
  case (Cons c cs)
  then show ?case by (auto simp: world_defs drop_peer_def)
qed simp

text \<open>
  A dead transfer is forgotten: \<open>handle_transfer_dead\<close> takes every peer with the identity of
  the dead one off the list of every missing chunk, keeps the other peers in order, deletes the
  transfer and keeps the invariant.
\<close>

lemma dead_peer_is_dropped:
  assumes "peer_ok w" and "t \<in> set (client_transfers w)" and "c \<in> set (missing_chunks w)"
  shows "peer_ok (handle_transfer_dead t w) \<and> t \<notin> set (client_transfers (handle_transfer_dead t w)) \<and>
    chunk_peer (chunk_heap (handle_transfer_dead t w) c) =
      filter (\<lambda>q. peer_id (peer_heap w q) \<noteq> peer_id (transfer_peer w t)) (chunk_peer (chunk_heap w c))"
proof -
  have d: "distinct (client_transfers w)" "distinct (missing_chunks w)"
    using assms(1) by (auto simp: peer_ok_def transfers_ok_def distinct_map chunks_ok_def)
  have "chunk_heap (handle_transfer_dead t w) c = drop_peer w (tr_peer (transfer_heap w t)) (chunk_heap w c)"
    using drop_peer_heap [OF d(2), of "tr_peer (transfer_heap w t)" w] assms(3)
    by (simp add: handle_transfer_dead_def Let_def delete_client_transfer_def delete_transfer_def) (simp add: upd_peer_def)
  then show ?thesis
    using handle_transfer_dead_ok [OF assms(1), of t] d(1) by (simp add: drop_peer_def)
qed

end
