(* ===== verification/Bt_Io.thy ===== *)
theory Bt_Io
  imports Text_Io World
begin

text \<open>
  Chunk files and chunk data on disk: \<^verbatim>\<open>src/code/bt_io.c\<close>.

  A chunk file has one line for each chunk, its number and the 40 hexadecimal digits of its hash. The
  array \<open>hash\<close> that receives the digits is declared with 40 elements and the NUL behind them is stored
  too, so what happens to the byte behind the array matters: the local variables are a parameter of
  the model, the number and an array as long as the memory that can be written from the start of
  \<open>hash\<close>. With the declared 40 bytes a complete line overflows it; with at least one byte of padding
  behind it the line is read.
\<close>

section \<open>The code\<close>

definition FILE_LEN :: nat where "FILE_LEN = 1024"
definition PATH_LEN :: nat where "PATH_LEN = 128"

text \<open>The local variables \<open>id\<close> and \<open>hash\<close>.\<close>

type_synonym line_vars = "u32 \<times> byte list"

text \<open>
  The data of chunk \<open>id\<close>: the number of bytes read, or -1, and the buffer. The offset is computed in
  32 bits. \<open>read_fails\<close> says whether the device reports an error for the file; the function then frees
  the buffer, which the only caller passes as an array inside a chunk, not as an allocation.
\<close>

definition read_chunk_data_file_by_id ::
  "(string \<Rightarrow> bool) \<Rightarrow> string option \<Rightarrow> u32 \<Rightarrow> byte list \<Rightarrow> world \<Rightarrow> (u64 \<times> byte list) result" where
  "read_chunk_data_file_by_id read_fails filename cid buf w =
     (case filename of
        None \<Rightarrow> Inr (- 1, buf)
      | Some name \<Rightarrow>
          case files w name of
            None \<Rightarrow> Inr (- 1, buf)
          | Some file \<Rightarrow>
              if read_fails name then Inl Invalid_Pointer
              else
                let offset = unat (cid * of_nat BT_CHUNK_SIZE);
                    data = take BT_CHUNK_SIZE (drop offset file)
                in bind_result (mem_write buf 0 data) (\<lambda>buf. Inr (of_nat (length data), buf)))"

text \<open>The loop over the lines; the chunks go to the front of the list.\<close>

function parse_lines :: "line_vars \<Rightarrow> byte list \<Rightarrow> cptr list \<Rightarrow> world \<Rightarrow> (cptr list \<times> world) result" where
  "parse_lines vars text lst w =
     (case fgets FILE_LEN text of
        None \<Rightarrow> Inr (lst, w)
      | Some (line, rest) \<Rightarrow>
          bind_result (sscanf_int_word (c_string line) vars) (\<lambda>(n, vars).
            if n < 2 then Inr (lst, w)
            else
              bind_result (create_chunk (ucast (fst vars)) (snd vars)) (\<lambda>new.
                let c = chunk_top w;
                    w = w\<lparr>chunk_heap := (chunk_heap w)(c := new), chunk_top := Suc c\<rparr>
                in parse_lines vars rest (c # lst) w)))"
  by pat_completeness auto
termination
  by (relation "measure (\<lambda>(vars, text, lst, w). length text)")
     (auto simp: FILE_LEN_def dest: fgets_shorter)

declare parse_lines.simps [simp del]

definition parse_chunkfile :: "line_vars \<Rightarrow> cptr list \<Rightarrow> string \<Rightarrow> world \<Rightarrow> (cptr list \<times> world) result" where
  "parse_chunkfile vars lst chunkfile w =
     (case files w chunkfile of
        None \<Rightarrow> Inl Assertion_Failed
      | Some text \<Rightarrow> parse_lines vars text lst w)"

section \<open>Reading a chunk file\<close>

text \<open>The text of one line, and of a chunk file.\<close>

definition chunk_line :: "nat \<times> byte list \<Rightarrow> byte list" where
  "chunk_line l = dec_bytes (fst l) @ 32 # snd l @ [10]"

definition chunk_text :: "(nat \<times> byte list) list \<Rightarrow> byte list" where
  "chunk_text ls = concat (map chunk_line ls)"

text \<open>A number that fits an \<open>int\<close> and a hash of 40 characters without white space.\<close>

definition line_ok :: "nat \<times> byte list \<Rightarrow> bool" where
  "line_ok l \<longleftrightarrow> fst l < 2 ^ 31 \<and> length (snd l) = HEX_HASH_SIZE \<and> (\<forall>b \<in> set (snd l). \<not> isspace b \<and> b \<noteq> 0)"

lemma fgets_chunk_line:
  assumes "line_ok l"
  shows "fgets FILE_LEN (chunk_line l @ rest) = Some (chunk_line l, rest)" "c_string (chunk_line l) = chunk_line l"
proof -
  let ?t = "dec_bytes (fst l) @ 32 # snd l"
  have sp: "isspace 10" "isspace 32" by (simp_all add: isspace_def)
  have d: "b \<noteq> 10 \<and> b \<noteq> 0" if "b \<in> set (dec_bytes (fst l))" for b
    using isdigit_cases dec_bytes_digits [OF that] by blast
  have no: "10 \<notin> set ?t" "0 \<notin> set ?t"
    using assms d sp by (fastforce simp: line_ok_def)+
  have "fst l < 10 ^ 10" using assms by (simp add: line_ok_def)
  then have "length (dec_bytes (fst l)) \<le> 10" by (rule length_dec_bytes) simp
  then have "length ?t + 1 < FILE_LEN" using assms by (simp add: line_ok_def FILE_LEN_def chunk_consts)
  from fgets_line [OF no(1) this] show "fgets FILE_LEN (chunk_line l @ rest) = Some (chunk_line l, rest)"
    by (simp add: chunk_line_def)
  show "c_string (chunk_line l) = chunk_line l"
    using no(2) by (auto simp: c_string_def chunk_line_def takeWhile_eq_all_conv)
qed

text \<open>The chunk that a line makes, and the world with the chunks of some lines allocated in order.\<close>

definition chunk_of_line :: "nat \<times> byte list \<Rightarrow> chunk" where
  "chunk_of_line l = zero_chunk\<lparr>chunk_id := of_nat (fst l mod 256),
     bin_hash := (case hex2binary (snd l) of Inr bs \<Rightarrow> bs | Inl e \<Rightarrow> []), hex_hash := snd l @ [0]\<rparr>"

fun add_chunks :: "chunk list \<Rightarrow> cptr list \<times> world \<Rightarrow> cptr list \<times> world" where
  "add_chunks [] lw = lw"
| "add_chunks (x # xs) (lst, w) =
     add_chunks xs (chunk_top w # lst, w\<lparr>chunk_heap := (chunk_heap w)(chunk_top w := x), chunk_top := Suc (chunk_top w)\<rparr>)"

lemma ucast_of_nat_byte: "ucast (ucast (of_nat n :: u32) :: byte) = (of_nat (n mod 256) :: u32)"
proof (rule word_unat_eq_iff [THEN iffD2])
  have "n mod 4294967296 mod 256 = n mod 256" by (rule mod_mod_cancel) simp
  then show "unat (ucast (ucast (of_nat n :: u32) :: byte) :: u32) = unat (of_nat (n mod 256) :: u32)"
    by (simp add: unsigned_ucast_eq unsigned_of_nat take_bit_eq_mod)
qed

lemma create_chunk_line:
  assumes "line_ok l"
  shows "create_chunk (ucast (of_nat (fst l) :: u32)) (snd l @ tail) = Inr (chunk_of_line l)"
proof -
  have len: "length (snd l) = HEX_HASH_SIZE" using assms by (simp add: line_ok_def)
  then obtain bin where bin: "hex2binary (snd l) = Inr bin"
    using hex2binary_even [of "snd l"] by (auto simp: chunk_consts)
  then have "length bin = BIN_HASH_SIZE" using length_hex2binary len by (fastforce simp: chunk_consts)
  then show ?thesis
    using len bin ucast_of_nat_byte [of "fst l"]
    by (simp add: create_chunk_def chunk_of_line_def mem_read_def mem_write_def zero_chunk_def)
       (simp add: chunk_consts)
qed

lemma parse_lines_text:
  assumes "\<And>l. l \<in> set ls \<Longrightarrow> line_ok l" and "HEX_HASH_SIZE < length (snd vars)"
  shows "parse_lines vars (chunk_text ls) lst w = Inr (add_chunks (map chunk_of_line ls) (lst, w))"
  using assms
proof (induction ls arbitrary: vars lst w)
  case Nil
  then show ?case by (simp add: chunk_text_def parse_lines.simps)
next
  case (Cons l ls)
  let ?buf = "snd l @ 0 # drop (Suc (length (snd l))) (snd vars)"
  have ok: "line_ok l" using Cons.prems by simp
  have len: "length (snd l) = HEX_HASH_SIZE" "snd l \<noteq> []" using ok by (auto simp: line_ok_def chunk_consts)
  have line: "fgets FILE_LEN (chunk_text (l # ls)) = Some (chunk_line l, chunk_text ls)" "c_string (chunk_line l) = chunk_line l"
    using fgets_chunk_line [OF ok] by (simp_all add: chunk_text_def)
  have scan: "sscanf_int_word (chunk_line l) vars = Inr (2, of_nat (fst l), ?buf)"
    using sscanf_int_word_line [of "fst l" "snd l" "[10]" "snd vars" "fst vars"] ok Cons.prems(2) len
    by (auto simp: chunk_line_def line_ok_def isspace_def)
  have "HEX_HASH_SIZE < length ?buf" using Cons.prems(2) len by simp
  then show ?case
    using Cons.IH [of "(of_nat (fst l), ?buf)"] Cons.prems(1) line scan create_chunk_line [OF ok, of "0 # drop (Suc (length (snd l))) (snd vars)"]
    by (simp add: parse_lines.simps [of vars] Let_def)
qed

text \<open>With the declared size of \<open>hash\<close> the first complete line is a fault.\<close>

lemma sscanf_chunk_line_overflow:
  assumes "line_ok l" and "length (snd vars) \<le> HEX_HASH_SIZE"
  shows "sscanf_int_word (chunk_line l) vars = Inl Out_Of_Bounds"
proof -
  have "snd l \<noteq> []" using assms(1) by (auto simp: line_ok_def chunk_consts)
  moreover have "sscanf_int_word (dec_bytes (fst l) @ 32 # snd l @ [10]) (fst vars, snd vars) = Inl Out_Of_Bounds"
    using assms calculation by (intro sscanf_int_word_overflow) (auto simp: line_ok_def isspace_def)
  ultimately show ?thesis by (simp add: chunk_line_def)
qed

lemma parse_chunkfile_overflow:
  assumes "line_ok l" and "files w name = Some (chunk_line l @ rest)" and "length (snd vars) \<le> HEX_HASH_SIZE"
  shows "parse_chunkfile vars lst name w = Inl Out_Of_Bounds"
  using assms(2) fgets_chunk_line [OF assms(1)] sscanf_chunk_line_overflow [OF assms(1,3)]
  by (simp add: parse_chunkfile_def parse_lines.simps [of vars])

lemma add_chunks_snoc: "add_chunks (xs @ [x]) lw =
   (case add_chunks xs lw of (lst, w) \<Rightarrow>
      (chunk_top w # lst, w\<lparr>chunk_heap := (chunk_heap w)(chunk_top w := x), chunk_top := Suc (chunk_top w)\<rparr>))"
proof (induction xs arbitrary: lw)
  case Nil
  show ?case by (cases lw) (simp add: fun_upd_def)
next
  case (Cons y ys)
  then show ?case by (cases lw) simp
qed

text \<open>The chunks stand on the list in the reverse order of the lines; nothing else of the world changes.\<close>

lemma add_chunks_result:
  assumes "add_chunks xs (lst, w) = (lst', w')"
  shows "lst' = rev [chunk_top w..<chunk_top w + length xs] @ lst"
    and "w' = w\<lparr>chunk_heap := chunk_heap w', chunk_top := chunk_top w + length xs\<rparr>"
    and "map (chunk_heap w') [chunk_top w..<chunk_top w + length xs] = xs"
    and "\<And>c. c < chunk_top w \<Longrightarrow> chunk_heap w' c = chunk_heap w c"
  using assms
proof (induction xs arbitrary: lst' w' rule: rev_induct)
  case (snoc x xs)
  obtain l v where v: "add_chunks xs (lst, w) = (l, v)" by force
  have IH: "l = rev [chunk_top w..<chunk_top w + length xs] @ lst"
    "v = w\<lparr>chunk_heap := chunk_heap v, chunk_top := chunk_top w + length xs\<rparr>"
    "map (chunk_heap v) [chunk_top w..<chunk_top w + length xs] = xs"
    "\<And>c. c < chunk_top w \<Longrightarrow> chunk_heap v c = chunk_heap w c"
    using snoc.IH(1-3) [OF v] snoc.IH(4) [OF _ v] by blast+
  have top: "chunk_top v = chunk_top w + length xs" using IH(2) by (metis world.select_convs(5) world.surjective world.update_convs(5))
  { case 1
    then show ?case using v IH(1) top by (auto simp: add_chunks_snoc)
  next
    case 2
    then have w': "w' = v\<lparr>chunk_heap := chunk_heap w', chunk_top := Suc (chunk_top v)\<rparr>" using v by (auto simp: add_chunks_snoc)
    show ?case by (subst w', subst IH(2)) (simp add: top)
  next
    case 3
    then have h: "chunk_heap w' = (chunk_heap v)(chunk_top w + length xs := x)" using v top by (auto simp: add_chunks_snoc)
    have "map (chunk_heap w') [chunk_top w..<chunk_top w + length xs] = xs"
      unfolding h using map_fun_upd [of "chunk_top w + length xs" "[chunk_top w..<chunk_top w + length xs]"] IH(3) by simp
    moreover have "chunk_heap w' (chunk_top w + length xs) = x" by (simp add: h)
    ultimately show ?case by simp
  next
    case (4 c)
    then show ?case using v IH(4) top by (auto simp: add_chunks_snoc)
  }
qed auto

end
