(* ===== verification/Peer.thy ===== *)
theory Peer
  imports Download Bt_Io
begin

text \<open>
  The main loop of a peer: \<^verbatim>\<open>src/code/peer.c\<close>. One turn of the loop of \<open>peer_run\<close> handles an
  inbound datagram, a request of the user, or the time-out of \<open>select\<close>.

  A datagram is the content of the 1500-byte receive buffer: what was received, followed by what
  the buffer held before. The variables \<open>id\<close> and \<open>hash\<close> of \<open>create_wanted_missing_list\<close> are a
  parameter, as in \<open>Bt_Io\<close>: a line that \<open>sscanf\<close> cannot read leaves them as they were, and the
  function does not look at its result.
\<close>

section \<open>The code\<close>

text \<open>The \<open>switch\<close> on the type of the packet.\<close>

definition dispatch :: "bt_config_t \<Rightarrow> sockaddr_in \<Rightarrow> pptr \<Rightarrow> Packet \<Rightarrow> world \<Rightarrow> world result" where
  "dispatch config from peer pack w =
     (case ptype pack of
        WHOHAS \<Rightarrow> receive_WHOHAS pack peer w
      | GET \<Rightarrow> receive_GET pack peer (max_conn config) w
      | ACK \<Rightarrow> receive_ACK pack peer w
      | IHAVE \<Rightarrow> receive_IHAVE pack config from w
      | DENIED \<Rightarrow> receive_DENIED config from w
      | DATA \<Rightarrow> receive_DATA pack peer w
      | INVALID b \<Rightarrow> Inl Assertion_Failed)"

definition process_inbound_udp :: "bt_config_t \<Rightarrow> sockaddr_in \<Rightarrow> byte list \<Rightarrow> world \<Rightarrow> world result" where
  "process_inbound_udp config from buf w =
     (case find_peer (peer_heap w) config from of
        None \<Rightarrow> Inr w
      | Some peer \<Rightarrow>
          let (now, w) = millitime w;
              w = upd_peer peer (\<lambda>p. p\<lparr>peer_timer := now, peer_timeout_count := 0\<rparr>) w
          in bind_result (deserialize_packet buf) (\<lambda>packet.
               case packet of
                 None \<Rightarrow> Inr w
               | Some pack \<Rightarrow> dispatch config from peer pack w))"

text \<open>One line of the get-chunk file.\<close>

definition want_chunk :: "u32 \<times> byte list \<Rightarrow> world \<Rightarrow> world result" where
  "want_chunk line w =
     (case line of (cid, hash) \<Rightarrow>
        bind_result
          (case find (\<lambda>c. compare_chunk_by_hex_hash (chunk_heap w c) hash) (have_chunks w) of
             None \<Rightarrow>
               bind_result (create_chunk (ucast cid) hash) (\<lambda>new.
                 let c = chunk_top w
                 in Inr (c, w\<lparr>chunk_heap := (chunk_heap w)(c := new), chunk_top := Suc c,
                              missing_chunks := c # missing_chunks w\<rparr>))
           | Some c \<Rightarrow> Inr (c, w)) (\<lambda>(c, w).
        let w = upd_chunk c (\<lambda>x. x\<lparr>chunk_id := cid\<rparr>) w
        in Inr (w\<lparr>wanted_chunks := c # wanted_chunks w\<rparr>)))"

text \<open>
  The loop over the lines. \<open>char hash[HEX_HASH_SIZE]\<close> has 40 elements and \<open>%s\<close> also stores the NUL behind
  40 characters: \<open>snd vars\<close> is the memory from the start of \<open>hash\<close> on, so an array of the declared 40
  bytes makes the first complete line a fault, and a longer one is an array with other memory of
  the frame behind it.
\<close>

function want_loop :: "line_vars \<Rightarrow> byte list \<Rightarrow> world \<Rightarrow> world result" where
  "want_loop vars text w =
     (case fgets FILE_LEN text of
        None \<Rightarrow> Inr w
      | Some (line, rest) \<Rightarrow>
          bind_result (sscanf_int_word (c_string line) vars) (\<lambda>(n, vars).
          bind_result (want_chunk vars w) (\<lambda>w. want_loop vars rest w)))"
  by pat_completeness auto
termination
  by (relation "measure (\<lambda>(vars, text, w). length text)") (auto simp: FILE_LEN_def dest: fgets_shorter)

declare want_loop.simps [simp del]

definition create_wanted_missing_list :: "line_vars \<Rightarrow> string \<Rightarrow> world \<Rightarrow> world result" where
  "create_wanted_missing_list vars chunkfile w =
     (case files w chunkfile of
        None \<Rightarrow> Inl Assertion_Failed
      | Some text \<Rightarrow> bind_result (want_loop vars text w) check_all_received)"

definition process_get :: "line_vars \<Rightarrow> string \<Rightarrow> string \<Rightarrow> bt_config_t \<Rightarrow> world \<Rightarrow> world result" where
  "process_get vars chunkfile outputfile config w =
     (let w = w\<lparr>user_output_filename := Some outputfile, user_get_chunk_file := Some chunkfile\<rparr>
      in bind_result (create_wanted_missing_list vars chunkfile w) (send_WHOHAS config))"

text \<open>\<open>sscanf(line, "GET %120s %120s", chunkf, outf)\<close>; nothing happens unless both names are there.\<close>

definition handle_user_input :: "bt_config_t \<Rightarrow> line_vars \<Rightarrow> byte list \<Rightarrow> world \<Rightarrow> world result" where
  "handle_user_input config vars line w =
     (case scan_lit (bytes_of_string ''GET'') line of
        None \<Rightarrow> Inr w
      | Some s \<Rightarrow>
          case scan_word (Some 120) s of
            None \<Rightarrow> Inr w
          | Some (chunkf, s) \<Rightarrow>
              case scan_word (Some 120) s of
                None \<Rightarrow> Inr w
              | Some (outf, s) \<Rightarrow> process_get vars (string_of_bytes chunkf) (string_of_bytes outf) config w)"

definition handle_timeout :: "bt_config_t \<Rightarrow> world \<Rightarrow> world result" where
  "handle_timeout config w = handle_client_timeout config (handle_server_timeout w)"

section \<open>Every handler keeps the invariant\<close>

lemma peer_ok_server:
  assumes "peer_ok w" and "server_ok w'" and f: "server_frame w w'"
  shows "peer_ok w'"
proof -
  have same: "transfer_heap w' t = transfer_heap w t" "t \<notin> set (server_transfers w')"
    if "t \<in> set (client_transfers w)" for t
    using that assms(1) f by (fastforce simp: server_frame_def peer_ok_def transfers_ok_def)+
  then have "map (\<lambda>t. tr_chunk (transfer_heap w' t)) (client_transfers w) = map (\<lambda>t. tr_chunk (transfer_heap w t)) (client_transfers w)"
    by simp
  then have "distinct (map (\<lambda>t. tr_chunk (transfer_heap w' t)) (client_transfers w))"
    using assms(1) unfolding peer_ok_def transfers_ok_def by metis
  then have "transfers_ok w'"
    using assms(1) f same by (fastforce simp: transfers_ok_def server_frame_def peer_ok_def)
  then show ?thesis using assms by (simp add: peer_ok_def request_ok_def server_frame_def)
qed

lemma peer_ok_touch: "peer_ok w \<Longrightarrow> peer_ok (upd_peer p f (snd (millitime w)))"
  by (rule peer_ok_core) (auto simp: same_core_def same_content_def world_defs)

lemma dispatch_ok:
  assumes ok: "peer_ok w" and r: "dispatch config from p pack w = Inr w'"
  shows "peer_ok w'"
proof -
  have srv: "server_ok w" using ok by (simp add: peer_ok_def)
  note from_server = peer_ok_server [OF ok]
  show ?thesis
  proof (cases "ptype pack")
    case WHOHAS
    then show ?thesis using r receive_WHOHAS_ok [OF srv] from_server by (auto simp: dispatch_def)
  next
    case GET
    then show ?thesis using r receive_GET_ok [OF srv] from_server by (auto simp: dispatch_def)
  next
    case ACK
    then show ?thesis using r receive_ACK_ok [OF srv, of pack p] from_server by (auto simp: dispatch_def)
  next
    case IHAVE
    then show ?thesis using r receive_IHAVE_ok [OF ok] by (auto simp: dispatch_def)
  next
    case DENIED
    then show ?thesis using r receive_DENIED_ok [OF ok] by (auto simp: dispatch_def)
  next
    case DATA
    then show ?thesis using r receive_DATA_ok [OF ok] by (auto simp: dispatch_def)
  qed (use r in \<open>simp add: dispatch_def\<close>)
qed

lemma process_inbound_udp_ok:
  assumes "peer_ok w" and "process_inbound_udp config from buf w = Inr w'"
  shows "peer_ok w'"
proof (cases "find_peer (peer_heap w) config from")
  case None
  then show ?thesis using assms by (simp add: process_inbound_udp_def)
next
  case (Some p)
  let ?v = "upd_peer p (\<lambda>p. p\<lparr>peer_timer := now_of w, peer_timeout_count := 0\<rparr>) (snd (millitime w))"
  have "peer_ok ?v" by (rule peer_ok_touch [OF assms(1)])
  then show ?thesis
    using assms(2) Some
    by (auto simp: process_inbound_udp_def bind_result_eq_Inr Let_def millitime_def
        split: option.splits intro: dispatch_ok)
qed

lemma handle_timeout_ok:
  assumes "peer_ok w" and "handle_timeout config w = Inr w'"
  shows "peer_ok w'"
proof -
  have "peer_ok (handle_server_timeout w)"
    using handle_server_timeout_ok [of w] assms(1) peer_ok_server [OF assms(1)] unfolding peer_ok_def by blast
  then show ?thesis using assms(2) handle_client_timeout_ok by (auto simp: handle_timeout_def)
qed

subsection \<open>Requests of the user\<close>

text \<open>The binary hash a line of the get-chunk file names.\<close>

definition line_hash :: "u32 \<times> byte list \<Rightarrow> byte list" where
  "line_hash line = (case hex2binary (take HEX_HASH_SIZE (snd line)) of Inr bs \<Rightarrow> bs | Inl e \<Rightarrow> [])"

text \<open>No hash is asked for twice, and none that is already missing.\<close>

definition fresh_request :: "(u32 \<times> byte list) list \<Rightarrow> world \<Rightarrow> bool" where
  "fresh_request lines w \<longleftrightarrow> distinct (map line_hash lines) \<and>
     (\<forall>l \<in> set lines. line_hash l \<notin> (\<lambda>c. bin_hash (chunk_heap w c)) ` set (missing_chunks w))"

text \<open>The values that the variables take, line after line.\<close>

function scan_lines :: "line_vars \<Rightarrow> byte list \<Rightarrow> line_vars list result" where
  "scan_lines vars text =
     (case fgets FILE_LEN text of
        None \<Rightarrow> Inr []
      | Some (line, rest) \<Rightarrow>
          bind_result (sscanf_int_word (c_string line) vars) (\<lambda>(n, vars).
          bind_result (scan_lines vars rest) (\<lambda>ls. Inr (vars # ls))))"
  by pat_completeness auto
termination
  by (relation "measure (\<lambda>(vars, text). length text)") (auto simp: FILE_LEN_def dest: fgets_shorter)

declare scan_lines.simps [simp del]

lemma want_loop_lines:
  "want_loop vars inp w = Inr w' \<Longrightarrow> \<exists>ls. scan_lines vars inp = Inr ls \<and> fold_result want_chunk ls w = Inr w'"
proof (induction vars inp w rule: want_loop.induct)
  case (1 vars inp w)
  show ?case
  proof (cases "fgets FILE_LEN inp")
    case None
    then show ?thesis using "1.prems" by (simp add: want_loop.simps [of vars] scan_lines.simps [of vars])
  next
    case (Some lr)
    obtain line rest where lr: "lr = (line, rest)" by force
    from Some "1.prems" obtain n vars' v where scan: "sscanf_int_word (c_string line) vars = Inr (n, vars')"
      and v: "want_chunk vars' w = Inr v" and r: "want_loop vars' rest v = Inr w'"
      by (auto simp: want_loop.simps [of vars] lr bind_result_eq_Inr)
    obtain ls where "scan_lines vars' rest = Inr ls" "fold_result want_chunk ls v = Inr w'"
      using "1.IH" [OF Some lr [symmetric] scan _ v r] by auto
    then show ?thesis using Some scan v by (simp add: scan_lines.simps [of vars] lr)
  qed
qed

text \<open>With the declared size of \<open>hash\<close> the first complete line is a fault.\<close>

lemma process_get_overflow:
  assumes "line_ok l" and "files w name = Some (chunk_line l @ rest)" and "length (snd vars) \<le> HEX_HASH_SIZE"
  shows "process_get vars name out config w = Inl Out_Of_Bounds"
proof -
  have "want_loop vars (chunk_line l @ rest) u = Inl Out_Of_Bounds" for u
    using fgets_chunk_line [OF assms(1)] sscanf_chunk_line_overflow [OF assms(1,3)]
    by (simp add: want_loop.simps [of vars])
  then show ?thesis using assms(2) by (simp add: process_get_def create_wanted_missing_list_def Let_def)
qed

text \<open>A get-chunk file whose lines make a fresh request.\<close>

definition fresh_file :: "line_vars \<Rightarrow> string \<Rightarrow> world \<Rightarrow> bool" where
  "fresh_file vars chunkfile w \<longleftrightarrow>
     (\<forall>inp ls. files w chunkfile = Some inp \<longrightarrow> scan_lines vars inp = Inr ls \<longrightarrow> fresh_request ls w)"

lemma create_chunk_new:
  assumes "create_chunk i h = Inr c"
  shows "chunk_sized c" "bits_counted c" "bin_hash c = line_hash (n, h)"
proof -
  from assms obtain bin bh hh where len: "HEX_HASH_SIZE \<le> length h" and bin: "hex2binary (take HEX_HASH_SIZE h) = Inr bin"
    and bh: "mem_write (bin_hash zero_chunk) 0 bin = Inr bh"
    and c: "c = zero_chunk\<lparr>chunk_id := ucast i, bin_hash := bh, hex_hash := hh\<rparr>"
    by (auto simp: create_chunk_def bind_result_eq_Inr mem_read_eq_Inr)
  have "length bin = BIN_HASH_SIZE"
    using length_hex2binary [OF bin] len by (simp add: chunk_consts)
  then have "bh = bin" using bh by (simp add: mem_write_eq_Inr zero_chunk_def)
  with bin \<open>length bin = BIN_HASH_SIZE\<close> c show "chunk_sized c" "bits_counted c" "bin_hash c = line_hash (n, h)"
    by (simp_all add: chunk_sized_def bits_counted_def line_hash_def) (simp_all add: zero_chunk_def)
qed

lemma peer_ok_set_id:
  assumes "peer_ok w" and "c \<in> set (missing_chunks w) \<union> set (have_chunks w)"
  shows "peer_ok ((upd_chunk c (\<lambda>x. x\<lparr>chunk_id := i\<rparr>) w)\<lparr>wanted_chunks := c # wanted_chunks w\<rparr>)"
proof -
  have f: "chunk_data (chunk_heap (upd_chunk c (\<lambda>x. x\<lparr>chunk_id := i\<rparr>) w) d) = chunk_data (chunk_heap w d)"
    "bin_hash (chunk_heap (upd_chunk c (\<lambda>x. x\<lparr>chunk_id := i\<rparr>) w) d) = bin_hash (chunk_heap w d)"
    "bits (chunk_heap (upd_chunk c (\<lambda>x. x\<lparr>chunk_id := i\<rparr>) w) d) = bits (chunk_heap w d)"
    "bits_count (chunk_heap (upd_chunk c (\<lambda>x. x\<lparr>chunk_id := i\<rparr>) w) d) = bits_count (chunk_heap w d)" for d
    by (simp_all add: world_defs)
  show ?thesis using assms
    by (simp add: peer_ok_def server_ok_def serves_def have_sized_def chunks_ok_def chunk_sized_def bits_counted_def
        verified_def transfers_ok_def request_ok_def f) (simp add: world_defs)
qed

lemma want_chunk_ok:
  assumes ok: "peer_ok w" and names: "user_output_filename w \<noteq> None" "user_get_chunk_file w \<noteq> None"
    and fresh: "line_hash l \<notin> (\<lambda>c. bin_hash (chunk_heap w c)) ` set (missing_chunks w)"
    and r: "want_chunk l w = Inr w'"
  shows "peer_ok w' \<and> user_output_filename w' = user_output_filename w \<and> user_get_chunk_file w' = user_get_chunk_file w \<and>
    (\<lambda>c. bin_hash (chunk_heap w' c)) ` set (missing_chunks w') \<subseteq>
      insert (line_hash l) ((\<lambda>c. bin_hash (chunk_heap w c)) ` set (missing_chunks w))"
proof (cases "find (\<lambda>c. compare_chunk_by_hex_hash (chunk_heap w c) (snd l)) (have_chunks w)")
  case (Some c)
  then have c: "c \<in> set (have_chunks w)" by (auto simp: find_Some_iff)
  have w': "w' = (upd_chunk c (\<lambda>x. x\<lparr>chunk_id := fst l\<rparr>) w)\<lparr>wanted_chunks := c # wanted_chunks w\<rparr>"
    using r Some by (auto simp: want_chunk_def Let_def world_defs split: prod.splits)
  show ?thesis unfolding w' using peer_ok_set_id [OF ok, of c] c by (auto simp: world_defs)
next
  case None
  then obtain new where new: "create_chunk (ucast (fst l)) (snd l) = Inr new"
    and w': "w' = w\<lparr>chunk_heap := (chunk_heap w)(chunk_top w := new\<lparr>chunk_id := fst l\<rparr>), chunk_top := Suc (chunk_top w),
               missing_chunks := chunk_top w # missing_chunks w, wanted_chunks := chunk_top w # wanted_chunks w\<rparr>"
    using r by (auto simp: want_chunk_def Let_def world_defs result_simps split: prod.splits)
  note n = create_chunk_new(1,2) [OF new]
  have top: "chunk_top w \<notin> set (missing_chunks w) \<union> set (have_chunks w)" using ok by (auto simp: peer_ok_def request_ok_def)
  have hash: "bin_hash new = line_hash l" using create_chunk_new(3) [OF new, of "fst l"] by simp
  have srv: "server_ok w'"
    using ok top by (auto simp: w' peer_ok_def server_ok_def serves_def have_sized_def)
  have trs: "transfers_ok w'" using ok by (auto simp: w' peer_ok_def transfers_ok_def)
  have req: "request_ok w'" using ok names by (auto simp: w' peer_ok_def request_ok_def less_SucI)
  have eq: "bin_hash (chunk_heap w' c) = bin_hash (chunk_heap w c)" if "c \<in> set (missing_chunks w)" for c
    using that top by (auto simp: w')
  then have img: "(\<lambda>c. bin_hash (chunk_heap w' c)) ` set (missing_chunks w) =
      (\<lambda>c. bin_hash (chunk_heap w c)) ` set (missing_chunks w)" by (rule image_cong [OF refl])
  have "inj_on (\<lambda>c. bin_hash (chunk_heap w' c)) (set (missing_chunks w))"
    using ok eq by (subst inj_on_cong [where g = "\<lambda>c. bin_hash (chunk_heap w c)"]) (auto simp: peer_ok_def chunks_ok_def)
  then have inj: "inj_on (\<lambda>c. bin_hash (chunk_heap w' c)) (insert (chunk_top w) (set (missing_chunks w)))"
    using fresh hash img by (auto simp: inj_on_insert w')
  have "chunks_ok (chunk_heap w') (missing_chunks w') (have_chunks w') (wanted_chunks w')"
    unfolding chunks_ok_def using ok top n inj
    by (auto simp: w' peer_ok_def chunks_ok_def chunk_sized_def bits_counted_def)
  then show ?thesis using srv trs req top hash by (auto simp: peer_ok_def) (auto simp: w')
qed

lemma want_chunks_ok:
  assumes "fold_result want_chunk lines w = Inr w'" and "peer_ok w" and "fresh_request lines w"
    and "user_output_filename w \<noteq> None" and "user_get_chunk_file w \<noteq> None"
  shows "peer_ok w'"
  using assms
proof (induction lines arbitrary: w)
  case (Cons l ls)
  from Cons.prems(1) obtain v where v: "want_chunk l w = Inr v" and rest: "fold_result want_chunk ls v = Inr w'"
    by (auto simp: bind_result_eq_Inr)
  have "line_hash l \<notin> (\<lambda>c. bin_hash (chunk_heap w c)) ` set (missing_chunks w)"
    using Cons.prems(3) by (simp add: fresh_request_def)
  from want_chunk_ok [OF Cons.prems(2,4,5) this v] have ok: "peer_ok v"
    and n: "user_output_filename v \<noteq> None" "user_get_chunk_file v \<noteq> None"
    and sub: "(\<lambda>c. bin_hash (chunk_heap v c)) ` set (missing_chunks v) \<subseteq>
      insert (line_hash l) ((\<lambda>c. bin_hash (chunk_heap w c)) ` set (missing_chunks w))"
    using Cons.prems by auto
  have "line_hash k \<notin> (\<lambda>c. bin_hash (chunk_heap v c)) ` set (missing_chunks v)" if "k \<in> set ls" for k
  proof -
    have "line_hash k \<noteq> line_hash l"
      using Cons.prems(3) that unfolding fresh_request_def by (metis distinct.simps(2) image_eqI list.map(2) list.set_map)
    moreover have "line_hash k \<notin> (\<lambda>c. bin_hash (chunk_heap w c)) ` set (missing_chunks w)"
      using Cons.prems(3) that by (simp add: fresh_request_def)
    ultimately show ?thesis using sub by blast
  qed
  then have "fresh_request ls v" using Cons.prems(3) by (simp add: fresh_request_def)
  then show ?case using Cons.IH [OF rest ok _ n] by blast
qed simp

lemma want_chunk_sent: "want_chunk l w = Inr w' \<Longrightarrow> sent w' = sent w"
  by (cases l) (auto simp: want_chunk_def bind_result_eq_Inr Let_def upd_chunk_def split: option.splits)

text \<open>The broadcast of a request is sent from a state in order, and is the first thing sent.\<close>

lemma process_get_request:
  assumes ok: "peer_ok w" and fresh: "fresh_file vars f w" and r: "process_get vars f out config w = Inr w'"
  obtains u where "peer_ok u" "send_WHOHAS config u = Inr w'" "sent u = sent w"
proof -
  let ?w = "w\<lparr>user_output_filename := Some out, user_get_chunk_file := Some f\<rparr>"
  from r obtain inp v u where inp: "files w f = Some inp" and v: "want_loop vars inp ?w = Inr v"
    and u: "check_all_received v = Inr u" and s: "send_WHOHAS config u = Inr w'"
    by (auto simp: process_get_def create_wanted_missing_list_def bind_result_eq_Inr Let_def split: option.splits)
  from want_loop_lines [OF v] obtain ls where ls: "scan_lines vars inp = Inr ls" "fold_result want_chunk ls ?w = Inr v" by blast
  have "peer_ok ?w"
    using ok by (simp add: peer_ok_def server_ok_def serves_def have_sized_def transfers_ok_def request_ok_def)
  moreover have "fresh_request ls ?w" using fresh inp ls(1) by (simp add: fresh_file_def fresh_request_def)
  ultimately have "peer_ok v" by (intro want_chunks_ok [OF ls(2)]) simp_all
  then have "peer_ok u" using u by (rule check_all_received_ok)
  moreover have "sent v = sent ?w"
    by (rule fold_result_invariant [OF ls(2), where P = "\<lambda>x. sent x = sent ?w"]) (simp_all add: want_chunk_sent)
  ultimately show ?thesis using that s check_all_received_sent [OF u] by simp
qed

lemma process_get_ok:
  assumes "peer_ok w" and "fresh_file vars f w" and "process_get vars f out config w = Inr w'"
  shows "peer_ok w'"
proof (rule process_get_request [OF assms])
  fix u assume "peer_ok u" and s: "send_WHOHAS config u = Inr w'"
  moreover have "same_core u w' \<and> same_content u w'" using s whohas_loop_core by (auto simp: send_WHOHAS_def)
  ultimately show ?thesis using peer_ok_core by blast
qed

section \<open>Runs of a peer\<close>

datatype peer_event = Datagram sockaddr_in "byte list" | Timeout

fun peer_step :: "bt_config_t \<Rightarrow> peer_event \<Rightarrow> world \<Rightarrow> world result" where
  "peer_step config (Datagram from buf) w = process_inbound_udp config from buf w"
| "peer_step config Timeout w = handle_timeout config w"

interpretation peer: machine "peer_step config" peer_ok for config
proof unfold_locales
  show "peer_ok w'" if "peer_ok w" "peer_step config e w = Inr w'" for w w' e
    using that process_inbound_udp_ok [OF that(1)] handle_timeout_ok [OF that(1)] by (cases e) simp_all
qed

text \<open>The states a peer reaches from \<open>w0\<close> when no step faults and each request is a fresh one.\<close>

inductive reaches :: "bt_config_t \<Rightarrow> world \<Rightarrow> world \<Rightarrow> bool" for config w0 where
  start: "reaches config w0 w0"
| event: "reaches config w0 w \<Longrightarrow> peer_step config e w = Inr w' \<Longrightarrow> reaches config w0 w'"
| request: "reaches config w0 w \<Longrightarrow> fresh_file vars f w \<Longrightarrow>
    process_get vars f out config w = Inr w' \<Longrightarrow> reaches config w0 w'"

lemma reaches_ok: "reaches config w0 w \<Longrightarrow> peer_ok w0 \<Longrightarrow> peer_ok w"
  by (induction rule: reaches.induct) (auto intro: peer.step_inv process_get_ok)

section \<open>Properties\<close>


definition demo_config :: bt_config_t where
  "demo_config = \<lparr>chunk_file = [], has_chunk_file = [], output_file = [], peer_list_file = [], max_conn = 4,
     identity = 1, myport = 0, config_peers = [3]\<rparr>"

text \<open>A peer that owns one verified chunk, idle.\<close>

definition demo_owner :: world where
  "demo_owner = demo_client\<lparr>missing_chunks := [], wanted_chunks := [], have_chunks := [0], client_transfers := []\<rparr>"

lemma demo_owner_ok: "peer_ok demo_owner"
proof -
  have "chunk_sized (chunk_heap demo_client 0)" "packet_arrays (stack_packet demo_client)" "chunk_top demo_client = 1"
    "server_transfers demo_client = []"
    using demo_client_ok by (auto simp: peer_ok_def chunks_ok_def server_ok_def demo_client_defs)
  moreover have "verified (chunk_heap demo_client 0)" by (simp add: verified_def demo_client_defs zero_chunk_def)
  ultimately show ?thesis
    by (simp add: demo_owner_def peer_ok_def chunks_ok_def transfers_ok_def request_ok_def server_ok_def have_sized_def chunk_sized_def)
qed

lemma demo_owner_idle: "peer_step config Timeout demo_owner = Inr demo_owner"
  by (simp add: handle_timeout_def handle_server_timeout_def handle_client_timeout_def demo_owner_def)
     (simp add: demo_client_defs)



text \<open>
  Claim C6. A run of any datagrams and time-outs that does not fault keeps the whole invariant of the
  peer, so its parts can be used at any time: in particular at most one incoming transfer exists per
  missing chunk, and the counter of received parts of a missing chunk is the number of parts
  received.
\<close>

theorem any_run_keeps_invariant:
  assumes "fold_result (peer_step config) es w = Inr w'" and "peer_ok w"
  shows "peer_ok w' \<and> distinct (map (\<lambda>t. tr_chunk (transfer_heap w' t)) (client_transfers w')) \<and>
    (\<forall>c \<in> set (missing_chunks w'). bits_counted (chunk_heap w' c))"
  using peer.run_inv [OF assms] by (simp add: peer_ok_def transfers_ok_def chunks_ok_def)

theorem any_run_keeps_invariant_witness: "fold_result (peer_step demo_config) [Timeout, Timeout] demo_owner = Inr demo_owner \<and> peer_ok demo_owner"
proof -
  have "fold_result (peer_step demo_config) [Timeout, Timeout] demo_owner = Inr demo_owner" by (simp add: demo_owner_idle del: peer_step.simps)
  then show ?thesis using any_run_keeps_invariant [OF _ demo_owner_ok] by blast
qed

text \<open>
  A datagram of an unknown type from any listed peer aborts the program: the byte is taken
  from the network unchecked and the \<open>default\<close> case of the \<open>switch\<close> asserts.
\<close>

lemma unknown_type_aborts:
  assumes "find_peer (peer_heap w) config from = Some p" and "5 < b"
  shows "process_inbound_udp config from
    (header_bytes (zero_packet\<lparr>ptype := INVALID b, header_len := 16, packet_len := 16\<rparr>) @ rest) w = Inl Assertion_Failed"
proof -
  let ?q = "zero_packet\<lparr>ptype := INVALID b, header_len := 16, packet_len := 16\<rparr>"
  have "b \<notin> {0, 1, 2, 3, 4, 5}" using assms(2) by auto
  then have t: "type_of_byte b = INVALID b" by (simp add: type_of_byte_def)
  have "deserialize_payload ?q (header_bytes ?q @ rest) 16 = Inr (?q\<lparr>hash_num := 0\<rparr>)"
    by (simp add: deserialize_payload_def has_hashes_def payload_size_def mem_read_def mem_write_def)
  then have "deserialize_packet (header_bytes ?q @ rest) = Inr (Some (?q\<lparr>hash_num := 0\<rparr>))"
    using t by (subst deserialize_header_bytes) (simp_all add: zero_packet_def)
  then show ?thesis using assms(1) by (simp add: process_inbound_udp_def Let_def millitime_def dispatch_def)
qed

text \<open>
  Claim C26. A line of the get-chunk file puts exactly one chunk on the wanted list, with the full
  32-bit number of the line and the 40 characters of its hash. If a chunk with these characters is
  owned, it is such an owned chunk, of which only the number changes, and nothing becomes missing;
  otherwise it is a new, empty chunk with the binary hash of the line, which also goes on the missing
  list. The have list and every other chunk stay as they are. The owned chunks hold at least the 40
  characters of their hash, as the array of their structure does.
\<close>

theorem line_is_wanted:
  assumes "length hash = HEX_HASH_SIZE" and "\<And>d. d \<in> set (have_chunks w) \<Longrightarrow> HEX_HASH_SIZE \<le> length (hex_hash (chunk_heap w d))"
  shows "\<exists>w' c. want_chunk (cid, hash) w = Inr w' \<and> wanted_chunks w' = c # wanted_chunks w \<and> chunk_id (chunk_heap w' c) = cid \<and>
    take HEX_HASH_SIZE (hex_hash (chunk_heap w' c)) = hash \<and>
    have_chunks w' = have_chunks w \<and> (\<forall>d. d \<noteq> c \<longrightarrow> chunk_heap w' d = chunk_heap w d) \<and>
    (if \<exists>d \<in> set (have_chunks w). take HEX_HASH_SIZE (hex_hash (chunk_heap w d)) = hash
     then c \<in> set (have_chunks w) \<and> missing_chunks w' = missing_chunks w \<and>
       chunk_heap w' c = (chunk_heap w c)\<lparr>chunk_id := cid\<rparr>
     else c = chunk_top w \<and> missing_chunks w' = c # missing_chunks w \<and>
       bin_hash (chunk_heap w' c) = line_hash (cid, hash) \<and> bits_count (chunk_heap w' c) = 0)"
proof -
  have cmp: "compare_chunk_by_hex_hash (chunk_heap w d) hash \<longleftrightarrow> take HEX_HASH_SIZE (hex_hash (chunk_heap w d)) = hash"
    if "d \<in> set (have_chunks w)" for d
    using assms that by (simp add: compare_chunk_by_hex_hash_def compare_hex_hash_iff)
  show ?thesis
  proof (cases "find (\<lambda>c. compare_chunk_by_hex_hash (chunk_heap w c) hash) (have_chunks w)")
    case (Some c)
    then have c: "c \<in> set (have_chunks w)" "compare_chunk_by_hex_hash (chunk_heap w c) hash" by (auto simp: find_Some_iff)
    then have hash: "take HEX_HASH_SIZE (hex_hash (chunk_heap w c)) = hash" using cmp by blast
    then have "\<exists>d \<in> set (have_chunks w). take HEX_HASH_SIZE (hex_hash (chunk_heap w d)) = hash" using c by blast
    with Some c hash show ?thesis by (simp add: want_chunk_def Let_def world_defs)
  next
    case None
    then have no: "\<not> (\<exists>d \<in> set (have_chunks w). take HEX_HASH_SIZE (hex_hash (chunk_heap w d)) = hash)"
      using cmp by (simp add: find_None_iff)
    obtain bin where bin: "hex2binary hash = Inr bin"
      using hex2binary_even [of hash] assms by (auto simp: chunk_consts)
    then have "length bin = BIN_HASH_SIZE" using length_hex2binary assms by (fastforce simp: chunk_consts)
    then obtain new where new: "create_chunk (ucast cid) hash = Inr new" and z: "bits_count new = 0"
      and h: "take HEX_HASH_SIZE (hex_hash new) = hash"
      using bin assms by (simp add: create_chunk_def mem_read_def mem_write_def zero_chunk_def chunk_consts)
    show ?thesis
      using None no new z h create_chunk_new(3) [OF new, of cid] by (auto simp: want_chunk_def Let_def world_defs)
  qed
qed

text \<open>A peer that owns the chunk whose hash has only zeros.\<close>

definition demo_have :: world where
  "demo_have = initial_world\<lparr>chunk_heap := (\<lambda>_. zero_chunk\<lparr>hex_hash := replicate 41 48\<rparr>), chunk_top := 1, have_chunks := [0]\<rparr>"

theorem line_is_wanted_witness:
  "(\<exists>w'. want_chunk (300, replicate 40 48) demo_have = Inr w' \<and> wanted_chunks w' = [0] \<and> missing_chunks w' = [] \<and>
     chunk_id (chunk_heap w' 0) = 300) \<and>
   (\<exists>w'. want_chunk (300, replicate 40 49) demo_have = Inr w' \<and> wanted_chunks w' = [1] \<and> missing_chunks w' = [1])"
proof -
  have d: "HEX_HASH_SIZE \<le> length (hex_hash (chunk_heap demo_have d))" for d by (simp add: demo_have_def chunk_consts)
  show ?thesis
    using line_is_wanted [of "replicate 40 48" demo_have 300, OF _ d] line_is_wanted [of "replicate 40 49" demo_have 300, OF _ d]
    by (auto simp: demo_have_def initial_world_def chunk_consts take_replicate)
qed

end
