(* ===== verification/Datagrams.thy ===== *)
theory Datagrams
  imports Peer
begin

text \<open>
  What a peer says: the type of the messages of the protocol, and the proof that every function of
  \<^verbatim>\<open>src/code/bt_server.c\<close>, \<^verbatim>\<open>src/code/bt_client.c\<close> and
  \<^verbatim>\<open>src/code/peer.c\<close> that sends something sends messages of that type. The relation \<open>sends\<close>
  between two states says so for what was sent in between; it is reflexive and transitive, so each
  handler is treated as the code composes it.
\<close>

section \<open>Messages\<close>

text \<open>
  A packet of the protocol fits its allocation (\<open>wire_packet\<close>). A data packet is one of the 525 parts
  of a chunk and has the size of that part; a request names one chunk; an acknowledgement is a number
  of parts. A refusal is never one: \<open>send_DENIED\<close> cannot build it.
\<close>

definition protocol_message :: "Packet \<Rightarrow> bool" where
  "protocol_message p \<longleftrightarrow> wire_packet p \<and>
     (case ptype p of
        DATA \<Rightarrow> 1 \<le> unat (seq_num p) \<and> unat (seq_num p) \<le> MAX_SEQ_NUM \<and>
          unat (packet_len p) = 16 + min DATA_SIZE (BT_CHUNK_SIZE - (unat (seq_num p) - 1) * DATA_SIZE)
      | GET \<Rightarrow> hash_num p = 1
      | ACK \<Rightarrow> unat (ack_num p) \<le> MAX_SEQ_NUM
      | DENIED \<Rightarrow> False
      | _ \<Rightarrow> True)"

definition message :: "byte list \<Rightarrow> bool" where
  "message m \<longleftrightarrow> (\<exists>p. protocol_message p \<and> serialize_packet p = Inr m)"

definition sends :: "world \<Rightarrow> world \<Rightarrow> bool" where
  "sends w w' \<longleftrightarrow> (\<exists>ms. sent w' = sent w @ ms \<and> (\<forall>x \<in> set ms. message (snd x)))"

lemma sends_nothing: "sent w' = sent w \<Longrightarrow> sends w w'"
  by (simp add: sends_def)

lemma sends_trans [trans]: "sends w w1 \<Longrightarrow> sends w1 w2 \<Longrightarrow> sends w w2"
  by (auto simp: sends_def)

lemma sends_from: "sends v w' \<Longrightarrow> sent v = sent w \<Longrightarrow> sends w w'"
  by (simp add: sends_def)

lemma sends_messages: "sent w' = sent w @ ms \<Longrightarrow> (\<And>x. x \<in> set ms \<Longrightarrow> message (snd x)) \<Longrightarrow> sends w w'"
  by (auto simp: sends_def)

lemma send_packet_total:
  assumes "protocol_message p"
  shows "\<exists>w'. send_packet_to_peer p q w = Inr w' \<and> sends w w'"
proof -
  have "wire_packet p" using assms by (simp add: protocol_message_def)
  then obtain m where m: "serialize_packet p = Inr m" using wire_roundtrip by blast
  then have "sends w (emit (peer_addr (peer_heap w q)) m w)"
    using assms by (auto simp: emit_def message_def intro!: sends_messages)
  then show ?thesis using m by (simp add: send_packet_to_peer_eq)
qed

lemma received_message:
  assumes "message m"
  obtains p where "protocol_message p" "length m = unat (packet_len p)"
    "\<And>junk. deserialize_packet (m @ junk) = Inr (Some (received p))"
proof -
  obtain p where p: "protocol_message p" "serialize_packet p = Inr m" using assms by (auto simp: message_def)
  moreover have "wire_packet p" using p(1) by (simp add: protocol_message_def)
  ultimately show ?thesis using that wire_roundtrip by fastforce
qed

lemma length_message: "message m \<Longrightarrow> 16 \<le> length m \<and> length m \<le> MAX_PACKET_SIZE"
proof (erule received_message)
  fix p assume p: "protocol_message p" and len: "length m = unat (packet_len p)"
  then have "wire_packet p" by (simp add: protocol_message_def)
  then show "16 \<le> length m \<and> length m \<le> MAX_PACKET_SIZE" unfolding len
    by (cases rule: wire_packet_cases) (auto simp: packet_consts chunk_consts word_le_nat_alt)
qed

section \<open>The serving side\<close>

lemma data_packet_message:
  assumes "length d = BT_CHUNK_SIZE" and "i < MAX_SEQ_NUM"
  shows "protocol_message (data_packet d i)"
proof -
  have n: "length (part d i) = min DATA_SIZE (BT_CHUNK_SIZE - i * DATA_SIZE)" using assms(1) by (rule length_part)
  then have "unat (of_nat (16 + length (part d i)) :: u16) = 16 + length (part d i)"
    by (simp add: unat_of_nat chunk_consts del: of_nat_add)
  moreover have "unat (of_nat (Suc i) :: u32) = Suc i"
    using assms(2) by (simp add: unat_of_nat chunk_consts del: of_nat_Suc)
  ultimately show ?thesis
    using data_packet_wire [of d i] n assms(2)
    by (simp add: protocol_message_def data_packet_def del: of_nat_Suc of_nat_add)
qed

lemma data_message: "length d = BT_CHUNK_SIZE \<Longrightarrow> i < MAX_SEQ_NUM \<Longrightarrow> message (data_bytes d i)"
  using data_packet_message serialize_data_packet message_def by blast

lemma hash_list_message:
  assumes "length hs \<le> MAX_HASH_IN_PACKET" and "\<And>h. h \<in> set hs \<Longrightarrow> length h = BIN_HASH_SIZE"
    and t: "t = WHOHAS \<or> t = IHAVE"
  shows "message (hash_message t 0 hs)"
proof -
  have "has_hashes t" using t by (auto simp: has_hashes_def)
  note p = hash_packet_wire [of t hs 0, OF this assms(1,2)]
  have "ptype (hash_packet t 0 hs) = t" by (simp add: hash_packet_def)
  then have "protocol_message (hash_packet t 0 hs)" using p(1) t by (auto simp: protocol_message_def)
  then show ?thesis using p(2) by (auto simp: message_def)
qed

text \<open>
  What the serving side sends: a part of an owned chunk, or an \<open>IHAVE\<close> with hashes of owned chunks.
\<close>

definition offer :: "world \<Rightarrow> byte list \<Rightarrow> bool" where
  "offer w m \<longleftrightarrow>
     (\<exists>c \<in> set (have_chunks w). \<exists>i < MAX_SEQ_NUM. m = data_bytes (chunk_data (chunk_heap w c)) i) \<or>
     (\<exists>hs. set hs \<subseteq> (\<lambda>c. bin_hash (chunk_heap w c)) ` set (have_chunks w) \<and> length hs \<le> MAX_HASH_IN_PACKET \<and>
        m = hash_message IHAVE 0 hs)"

lemma offer_part: "c \<in> set (have_chunks w) \<Longrightarrow> i < MAX_SEQ_NUM \<Longrightarrow> offer w (data_bytes (chunk_data (chunk_heap w c)) i)"
  unfolding offer_def by blast

lemma offer_hashes:
  "set hs \<subseteq> (\<lambda>c. bin_hash (chunk_heap w c)) ` set (have_chunks w) \<Longrightarrow> length hs \<le> MAX_HASH_IN_PACKET \<Longrightarrow>
   offer w (hash_message IHAVE 0 hs)"
  unfolding offer_def by blast

definition offers :: "world \<Rightarrow> world \<Rightarrow> bool" where
  "offers w w' \<longleftrightarrow> (\<exists>ms. sent w' = sent w @ ms \<and> (\<forall>x \<in> set ms. offer w (snd x)))"

lemma offers_nothing: "sent w' = sent w \<Longrightarrow> offers w w'"
  by (simp add: offers_def)

lemma offers_messages: "sent w' = sent w @ ms \<Longrightarrow> (\<And>x. x \<in> set ms \<Longrightarrow> offer w (snd x)) \<Longrightarrow> offers w w'"
  by (auto simp: offers_def)

lemma offers_from:
  assumes "offers v w'" and "sent v = sent w" and "have_chunks v = have_chunks w" and "chunk_heap v = chunk_heap w"
  shows "offers w w'"
proof -
  have "offer v = offer w" by (rule ext) (simp add: offer_def assms(3,4))
  then show ?thesis using assms(1,2) by (simp add: offers_def)
qed

lemma offer_message:
  assumes "server_ok w" and "offer w m"
  shows "message m"
  using assms hash_list_message [where t = IHAVE] data_message
  by (fastforce simp: offer_def server_ok_def have_sized_def)

lemma offers_sends: "server_ok w \<Longrightarrow> offers w w' \<Longrightarrow> sends w w'"
  using offer_message by (auto simp: offers_def sends_def)

lemma send_DATA_offers:
  assumes d: "length (chunk_data (transfer_chunk w t)) = BT_CHUNK_SIZE" and c: "tr_chunk (transfer_heap w t) \<in> set (have_chunks w)"
    and r: "send_DATA t w = Inr w'"
  shows "offers w w'"
proof -
  have "offer w (data_bytes (chunk_data (transfer_chunk w t)) i)" if "i \<in> set [unat (cc_index (cc w t))..<window_end (cc w t)]" for i
    using that by (intro offer_part [OF c]) (auto simp: window_end_def)
  moreover have "sent w' = sent w @ map (\<lambda>i. (peer_addr (transfer_peer w t), data_bytes (chunk_data (transfer_chunk w t)) i))
      [unat (cc_index (cc w t))..<window_end (cc w t)]"
    using send_DATA_parts [OF d] r by (auto simp: sent_parts_def world_defs)
  ultimately show ?thesis by (intro offers_messages) auto
qed

lemma send_DENIED_silent: "server_ok w \<Longrightarrow> send_DENIED p w \<noteq> Inr w'"
  using send_DENIED_faults [of w p] by (simp add: server_ok_def)

lemma receive_WHOHAS_offers:
  assumes ok: "server_ok w" and r: "receive_WHOHAS pack p w = Inr w'"
  shows "offers w w'"
proof -
  let ?own = "(\<lambda>c. bin_hash (chunk_heap w c)) ` set (have_chunks w)"
  let ?inv = "\<lambda>found. length found \<le> MAX_HASH_IN_PACKET \<and> set found \<subseteq> ?own"
  have match: "?inv f'" if "?inv f" "fold_result (whohas_match w h) (have_chunks w) f = Inr f'" for f f' h
    by (rule fold_result_invariant [OF that(2), where P = ?inv])
       (use that(1) in \<open>auto simp: whohas_match_def split: if_splits\<close>)
  from r obtain found where
    f: "fold_result (\<lambda>i found. bind_result (array_get (hash_list pack) i) (\<lambda>h. fold_result (whohas_match w h) (have_chunks w) found))
          [0..<unat (hash_num pack)] [] = Inr found" and s: "send_IHAVE p found w = Inr w'"
    by (auto simp: receive_WHOHAS_def bind_result_eq_Inr)
  have inv: "?inv found"
    by (rule fold_result_invariant [OF f, where P = ?inv]) (auto simp: bind_result_eq_Inr dest!: match [rotated])
  moreover have "length h = BIN_HASH_SIZE" if "h \<in> set found" for h
    using inv that ok by (auto simp: server_ok_def have_sized_def)
  then have "w' = emit (peer_addr (peer_heap w p)) (hash_message IHAVE 0 found) w"
    using s send_IHAVE_message [of w found p] ok inv by (simp add: server_ok_def)
  ultimately show ?thesis using offer_hashes [of found w] by (auto simp: emit_def intro!: offers_messages)
qed

lemma receive_GET_offers:
  assumes ok: "server_ok w" and r: "receive_GET pack p limit w = Inr w'"
  shows "offers w w'"
proof -
  from r obtain h where h: "(case find (\<lambda>c. compare_chunk_by_bin_hash (chunk_heap w c) h) (have_chunks w) of
         None \<Rightarrow> send_DENIED p w
       | Some c \<Rightarrow>
           if limit \<le> int (length (server_transfers w)) then send_DENIED p w
           else if find_by_chunk_hash w (server_transfers w) h = None then
             let (t, w) = create_transfer p c w; w = w\<lparr>server_transfers := t # server_transfers w\<rparr> in send_DATA t w
           else Inr w) = Inr w'"
    unfolding receive_GET_def bind_result_eq_Inr by blast
  then obtain c where c: "find (\<lambda>c. compare_chunk_by_bin_hash (chunk_heap w c) h) (have_chunks w) = Some c"
    and cases: "w' = w \<or>
      (\<exists>t v. create_transfer p c w = (t, v) \<and> send_DATA t (v\<lparr>server_transfers := t # server_transfers v\<rparr>) = Inr w')"
    using send_DENIED_silent [OF ok, of p w'] by (auto split: option.splits if_splits prod.splits)
  have own: "c \<in> set (have_chunks w)" and size: "length (chunk_data (chunk_heap w c)) = BT_CHUNK_SIZE"
    using c ok by (auto simp: find_Some_iff server_ok_def have_sized_def)
  from cases show ?thesis
  proof
    assume "\<exists>t v. create_transfer p c w = (t, v) \<and> send_DATA t (v\<lparr>server_transfers := t # server_transfers v\<rparr>) = Inr w'"
    then obtain t v where tv: "create_transfer p c w = (t, v)"
      and s: "send_DATA t (v\<lparr>server_transfers := t # server_transfers v\<rparr>) = Inr w'" by blast
    have v: "tr_chunk (transfer_heap v t) = c" "chunk_heap v = chunk_heap w" "sent v = sent w" "have_chunks v = have_chunks w"
      using tv by (auto simp: create_transfer_def Let_def world_defs)
    then show ?thesis using size own by (intro offers_from [OF send_DATA_offers [OF _ _ s]]) simp_all
  qed (simp add: offers_nothing)
qed

lemma congestion_sent [simp]:
  "sent (congestion_control t w) = sent w" "sent (detected_first_loss t w) = sent w"
  "sent (adjust_window t i w) = sent w" "sent (upd_cctrl t f w) = sent w" "sent (upd_transfer t g w) = sent w"
  by (auto simp: congestion_defs adjust_window_def Let_def world_defs split: CongestType.splits)

lemma ack_window_offers:
  assumes d: "length (chunk_data (transfer_chunk w t)) = BT_CHUNK_SIZE" and c: "tr_chunk (transfer_heap w t) \<in> set (have_chunks w)"
    and r: "ack_window t ack w = Inr w'"
  shows "offers w w'"
proof -
  have go: "offers w w'" if "local_to t w v" "sent v = sent w" "send_DATA t v = Inr w'" for v
    using that d c by (intro offers_from [OF send_DATA_offers [OF _ _ that(3)]]) (simp_all add: local_toD [OF that(1)])
  have l: "local_to t w (congestion_control t (adjust_window t ack w))"
    by (rule local_to_trans [OF _ congestion_frame(1)]) (auto simp: adjust_window_def Let_def world_defs intro!: local_toI)
  have l2: "local_to t w (detected_first_loss t (upd_cctrl t f (upd_cctrl t g w)))" for f g
    by (rule local_to_trans [OF local_to_trans [OF local_to_intros(1) local_to_intros(1)] congestion_frame(2)])
  from r show ?thesis
    by (auto simp: ack_window_def Let_def split: if_splits intro: go [OF l] go [OF l2] offers_nothing)
qed

lemma receive_ACK_offers:
  assumes ok: "server_ok w" and r: "receive_ACK pack p w = Inr w'"
  shows "offers w w'"
proof (cases "find_by_peer w (server_transfers w) p")
  case (Some t)
  then have t: "t \<in> set (server_transfers w)" by (auto dest: find_by_peer_SomeD)
  show ?thesis
  proof (cases "ack_num pack = of_nat MAX_SEQ_NUM")
    case True
    then show ?thesis using Some r
      by (auto simp: receive_ACK_def delete_server_transfer_def delete_transfer_def world_defs intro!: offers_nothing)
  next
    case False
    then obtain v where v: "ack_window t (ack_num pack) w = Inr v" "sent w' = sent v"
      using Some r by (auto simp: receive_ACK_def bind_result_eq_Inr Let_def millitime_def)
    have "tr_chunk (transfer_heap w t) \<in> set (have_chunks w)" using ok t by (auto simp: server_ok_def serves_def)
    then have "offers w v" by (rule ack_window_offers [OF serves_chunk_sized [OF ok t] _ v(1)])
    then show ?thesis using v(2) by (simp add: offers_def)
  qed
qed (use r in \<open>simp add: receive_ACK_def offers_nothing\<close>)

lemma server_timeouts_sent: "sent (server_timeouts ts w) = sent w"
proof (induction ts arbitrary: w)
  case (Cons t ts)
  then show ?case
    by (auto simp: transfer_has_timeout_def millitime_def Let_def delete_server_transfer_def delete_transfer_def
        upd_peer_def split: prod.splits)
qed simp

section \<open>The downloading side\<close>

lemma peer_ok_parts:
  assumes "peer_ok w"
  shows "server_ok w" and "packet_arrays (stack_packet w)"
    and "\<And>c. c \<in> set (missing_chunks w) \<Longrightarrow> length (bin_hash (chunk_heap w c)) = BIN_HASH_SIZE"
    and "\<And>t. t \<in> set (client_transfers w) \<Longrightarrow> tr_chunk (transfer_heap w t) \<in> set (missing_chunks w)"
  using assms by (auto simp: peer_ok_def server_ok_def chunks_ok_def chunk_sized_def transfers_ok_def)

lemma handle_transfer_dead_sent: "sent (handle_transfer_dead t w) = sent w"
proof -
  have "sent (fold (\<lambda>c w. upd_chunk c (drop_peer w p) w) cs w) = sent w" for p cs
    by (induction cs arbitrary: w) (simp_all add: upd_chunk_def)
  then show ?thesis
    by (simp add: handle_transfer_dead_def Let_def delete_client_transfer_def delete_transfer_def upd_peer_def)
qed

lemma send_GET_total:
  assumes arr: "packet_arrays (stack_packet w)" and h: "length h = BIN_HASH_SIZE"
  shows "\<exists>w'. send_GET p h n w = Inr w' \<and> sends w w'"
proof (cases "find_by_peer w (client_transfers w) p")
  case (Some t)
  let ?hl = "(hash_list (stack_packet w))[0 := h]"
  let ?pack = "(stack_packet w)\<lparr>ptype := GET, header_len := of_nat STANDARD_HEADER_LEN,
       packet_len := of_nat (STANDARD_HEADER_LEN + HEADER_PAD_LEN + BIN_HASH_SIZE),
       seq_num := n, ack_num := 0, hash_num := 1, hash_list := ?hl\<rparr>"
  have "protocol_message ?pack"
    using arr h by (auto simp: protocol_message_def wire_packet_def packet_arrays_def packet_consts chunk_consts
        dest!: set_update_subset_insert [THEN subsetD])
  moreover obtain v where "send_GET p h n w = send_packet_to_peer ?pack p v" "sent v = sent w"
  proof
    have "0 < length (hash_list (stack_packet w))" using arr by (simp add: packet_arrays_def packet_consts chunk_consts)
    then show "send_GET p h n w = send_packet_to_peer ?pack p
        (upd_transfer t (\<lambda>x. x\<lparr>timestamp := now_of w\<rparr>) (w\<lparr>clock_pos := Suc (clock_pos w)\<rparr>))"
      using Some by (simp add: send_GET_def array_set_def Let_def millitime_def)
  qed simp
  ultimately show ?thesis using send_packet_total [of ?pack p v] by (auto intro: sends_from)
qed (simp add: send_GET_def sends_nothing)

lemma consec_from_le: "i \<le> MAX_SEQ_NUM \<Longrightarrow> consec_from bs i \<le> MAX_SEQ_NUM"
proof (induction bs i rule: consec_from.induct)
  case (1 bs i)
  then show ?case by (subst consec_from.simps) auto
qed

lemma acknowledged_le: "unat (data_find_largest_consec_seq t w) \<le> MAX_SEQ_NUM"
  using consec_from_le [of 0 "bits (transfer_chunk w t)"]
  by (simp add: data_find_largest_consec_seq_def unat_of_nat chunk_consts)

lemma send_ACK_total:
  assumes arr: "packet_arrays (stack_packet w)"
  shows "\<exists>w'. send_ACK p (data_find_largest_consec_seq t u) w = Inr w' \<and> sends w w'"
proof (cases "find_by_peer w (client_transfers w) p")
  case (Some t')
  let ?pack = "(stack_packet w)\<lparr>ptype := ACK, header_len := of_nat STANDARD_HEADER_LEN,
       packet_len := of_nat STANDARD_HEADER_LEN, seq_num := 0, ack_num := data_find_largest_consec_seq t u\<rparr>"
  have "protocol_message ?pack"
    using arr acknowledged_le [of t u] by (auto simp: protocol_message_def wire_packet_def packet_arrays_def packet_consts)
  moreover obtain v where "send_ACK p (data_find_largest_consec_seq t u) w = send_packet_to_peer ?pack p v" "sent v = sent w"
    using Some by (auto simp: send_ACK_def Let_def millitime_def)
  ultimately show ?thesis using send_packet_total [of ?pack p v] by (auto intro: sends_from)
qed (simp add: send_ACK_def sends_nothing)

lemma get_chunk_loop_total:
  assumes "peer_ok w" and "set cs \<subseteq> set (missing_chunks w)"
  shows "\<exists>m w'. get_chunk_loop cs n w = Inr (m, w') \<and> sends w w'"
  using assms
proof (induction cs arbitrary: n w)
  case (Cons c cs)
  let ?h = "bin_hash (chunk_heap w c)"
  show ?case
  proof (cases "\<exists>p. find_first_available_peer (peer_heap w) (chunk_heap w c) = Some p \<and>
      find_by_chunk_hash w (client_transfers w) ?h = None")
    case True
    then obtain p where p: "find_first_available_peer (peer_heap w) (chunk_heap w c) = Some p"
      and free: "find_by_chunk_hash w (client_transfers w) ?h = None" by blast
    obtain t v where cr: "create_transfer p c w = (t, v)" by (cases "create_transfer p c w")
    let ?v = "v\<lparr>client_transfers := t # client_transfers v\<rparr>"
    have v: "peer_ok ?v" using Cons.prems by (intro create_client_ok [OF _ _ free cr]) auto
    have same: "sent ?v = sent w" "missing_chunks ?v = missing_chunks w" "chunk_heap ?v = chunk_heap w"
      using cr by (auto simp: create_transfer_def Let_def world_defs)
    have step: "get_chunk_loop (c # cs) n w =
        bind_result (send_GET p (bin_hash (chunk_heap ?v c)) 1 ?v) (get_chunk_loop cs (Suc n))"
      using p free cr by (simp add: Let_def)
    have "c \<in> set (missing_chunks ?v)" using Cons.prems(2) same(2) by simp
    from send_GET_total [OF peer_ok_parts(2) [OF v] peer_ok_parts(3) [OF v this]]
    obtain u where u: "send_GET p (bin_hash (chunk_heap ?v c)) 1 ?v = Inr u" "sends ?v u" by blast
    have "peer_ok u" "same_chunks ?v u" using send_GET_ok [OF v u(1)] by auto
    then have "set cs \<subseteq> set (missing_chunks u)" using Cons.prems(2) same(2) by (simp add: same_chunks_def)
    then obtain m w' where r: "get_chunk_loop cs (Suc n) u = Inr (m, w')" "sends u w'"
      using Cons.IH [OF \<open>peer_ok u\<close>] by blast
    have "sends w w'" by (rule sends_from [OF sends_trans [OF u(2) r(2)] same(1)])
    then show ?thesis unfolding step u(1) using r(1) by simp
  next
    case False
    then have "get_chunk_loop (c # cs) n w = get_chunk_loop cs n w" by (auto simp: Let_def split: option.splits)
    then show ?thesis using Cons by auto
  qed
qed (simp add: sends_nothing)

lemma init_data_transfer_total:
  assumes "peer_ok w"
  shows "\<exists>x w'. init_data_transfer w = Inr (x, w') \<and> sends w w'"
proof -
  obtain m w' where "get_chunk_loop (missing_chunks w) 0 w = Inr (m, w')" "sends w w'"
    using get_chunk_loop_total [OF assms subset_refl] by blast
  then show ?thesis by (simp add: init_data_transfer_def get_chunk_data_def)
qed

lemma init_data_transfer_sends: "peer_ok w \<Longrightarrow> init_data_transfer w = Inr (x, w') \<Longrightarrow> sends w w'"
  by (drule init_data_transfer_total) auto

lemma send_WHOHAS_total:
  assumes ok: "peer_ok w"
  shows "\<exists>w'. send_WHOHAS config w = Inr w' \<and> sends w w'"
proof -
  let ?hs = "map (\<lambda>c. bin_hash (chunk_heap w c)) (missing_chunks w)"
  obtain w' where "send_WHOHAS config w = Inr w'" and
    s: "sent w' = sent w @ concat (map (\<lambda>hs. map (\<lambda>a. (a, hash_message WHOHAS 0 hs)) (recipients config w)) (batches [] ?hs))"
    using whohas_loop_sent [of "[]" "missing_chunks w" w config] peer_ok_parts(3) [OF ok]
    by (auto simp: send_WHOHAS_def packet_consts chunk_consts)
  moreover have "message (hash_message WHOHAS 0 b)" if b: "b \<in> set (batches [] ?hs)" for b
  proof (rule hash_list_message)
    show "length b \<le> MAX_HASH_IN_PACKET" using b by (rule batches_bound [rotated]) (simp add: packet_consts chunk_consts)
    show "length h = BIN_HASH_SIZE" if "h \<in> set b" for h
    proof -
      have "?hs \<noteq> []" using b by auto
      from concat_batches [OF this, of "[]"] have "concat (batches [] ?hs) = ?hs" by simp
      moreover have "h \<in> set (concat (batches [] ?hs))" using b that by auto
      ultimately have "h \<in> set ?hs" by metis
      then show ?thesis using peer_ok_parts(3) [OF ok] by auto
    qed
  qed simp
  ultimately have "sends w w'" by (intro sends_messages [OF s]) auto
  then show ?thesis using \<open>send_WHOHAS config w = Inr w'\<close> by blast
qed

lemma send_WHOHAS_sends: "peer_ok w \<Longrightarrow> send_WHOHAS config w = Inr w' \<Longrightarrow> sends w w'"
  by (drule send_WHOHAS_total [where config = config]) auto

lemma client_timeouts_total:
  assumes "peer_ok w" and "distinct ts" and "set ts \<subseteq> set (client_transfers w)"
  shows "\<exists>w'. client_timeouts ts w = Inr w' \<and> sends w w'"
  using assms
proof (induction ts arbitrary: w)
  case (Cons t ts)
  let ?w0 = "snd (millitime w)" let ?c = "tr_chunk (transfer_heap w t)"
  let ?w1 = "upd_cctrl t (\<lambda>c. c\<lparr>timeout_count := timeout_count c + 1\<rparr>) ?w0"
  let ?get = "send_GET (tr_peer (transfer_heap ?w1 t)) (bin_hash (chunk_heap ?w1 ?c)) 1 ?w1"
  let ?ack = "send_ACK (tr_peer (transfer_heap ?w1 t)) (data_find_largest_consec_seq t ?w1) ?w1"
  have t: "t \<in> set (client_transfers w)" and rest: "set ts \<subseteq> set (client_transfers w) - {t}" using Cons.prems by auto
  have l0: "local_to t w ?w0" by (rule local_to_intros)
  have l1: "local_to t w ?w1" by (rule local_to_trans [OF l0 local_to_intros(1)])
  have ok1: "peer_ok ?w1" by (rule peer_ok_local [OF Cons.prems(1) l1 t])
  have s: "sent ?w0 = sent w" "sent ?w1 = sent w" by (simp_all add: millitime_def)
  have c: "?c \<in> set (missing_chunks ?w1)" using peer_ok_parts(4) [OF Cons.prems(1) t] by (simp add: local_toD [OF l1])
  have go: "\<exists>w'. client_timeouts ts v = Inr w' \<and> sends w w'"
    if "peer_ok v" "sends w v" "set ts \<subseteq> set (client_transfers v)" for v
    using Cons.IH [OF that(1) _ that(3)] Cons.prems(2) sends_trans [OF that(2)] by auto
  have out: "\<exists>w'. bind_result m (client_timeouts ts) = Inr w' \<and> sends w w'"
    if m: "\<exists>v. m = Inr v \<and> sends ?w1 v"
      and l: "\<And>v. m = Inr v \<Longrightarrow> v = ?w1 \<or> (\<exists>u \<in> set (client_transfers ?w1). local_to u ?w1 v)" for m
  proof -
    obtain v where v: "m = Inr v" "sends ?w1 v" using m by blast
    have "\<exists>w'. client_timeouts ts v = Inr w' \<and> sends w w'"
    proof (rule go)
      show "peer_ok v" using l [OF v(1)] ok1 peer_ok_local by blast
      show "sends w v" using v(2) s(2) by (rule sends_from)
      show "set ts \<subseteq> set (client_transfers v)" using l [OF v(1)] rest by (auto simp: local_toD local_toD [OF l1])
    qed
    then show ?thesis using v by simp
  qed
  have "\<exists>w'. bind_result ?get (client_timeouts ts) = Inr w' \<and> sends w w'"
    by (rule out [OF send_GET_total [OF peer_ok_parts(2) [OF ok1] peer_ok_parts(3) [OF ok1 c]] send_GET_local])
  moreover have "\<exists>w'. bind_result ?ack (client_timeouts ts) = Inr w' \<and> sends w w'"
    by (rule out [OF send_ACK_total [OF peer_ok_parts(2) [OF ok1]] send_ACK_local])
  moreover have "\<exists>w'. client_timeouts ts ?w0 = Inr w' \<and> sends w w'"
    using rest t peer_ok_local [OF Cons.prems(1) l0 t] by (intro go) (auto simp: s sends_nothing local_toD [OF l0])
  moreover have "\<exists>w'. client_timeouts ts (handle_transfer_dead t ?w1) = Inr w' \<and> sends w w'"
  proof (rule go)
    show "peer_ok (handle_transfer_dead t ?w1)" by (rule handle_transfer_dead_ok(1) [OF ok1])
    show "sends w (handle_transfer_dead t ?w1)" using handle_transfer_dead_sent s(2) by (simp add: sends_nothing)
    show "set ts \<subseteq> set (client_transfers (handle_transfer_dead t ?w1))"
      using rest by (simp add: handle_transfer_dead_ok(3) [OF ok1] local_toD [OF l1])
        (metis Diff_iff in_set_remove1 insertI1 subset_iff)
  qed
  moreover have "client_timeouts (t # ts) w =
      (if TIMEOUT_THRESHOLD < now_of w - timestamp (transfer_heap w t) then
         if MAX_TO_COUNTS \<le> timeout_count (cc ?w1 t) then client_timeouts ts (handle_transfer_dead t ?w1)
         else if bits_count (chunk_heap ?w1 ?c) = 0
         then bind_result ?get (client_timeouts ts) else bind_result ?ack (client_timeouts ts)
       else client_timeouts ts ?w0)"
    by (simp add: transfer_has_timeout_def Let_def millitime_def)
  ultimately show ?case by simp
qed (simp add: sends_nothing)

lemma handle_client_timeout_total:
  assumes ok: "peer_ok w"
  shows "\<exists>w'. handle_client_timeout config w = Inr w' \<and> sends w w'"
proof (cases "length (missing_chunks w) = 0")
  case False
  have d: "distinct (client_transfers w)"
    using ok by (auto simp: peer_ok_def transfers_ok_def distinct_map)
  obtain v where v: "client_timeouts (client_transfers w) w = Inr v" "sends w v"
    using client_timeouts_total [OF ok d subset_refl] by blast
  have vo: "peer_ok v" using client_timeouts_ok [OF ok d subset_refl v(1)] by simp
  from init_data_transfer_total [OF this] obtain x u where u: "init_data_transfer v = Inr (x, u)" "sends v u" by blast
  then have "peer_ok u" using init_data_transfer_ok [OF vo u(1)] by simp
  from send_WHOHAS_total [OF this] obtain w' where "send_WHOHAS config u = Inr w'" "sends u w'" by blast
  moreover have "sends w u" by (rule sends_trans [OF v(2) u(2)])
  ultimately show ?thesis using False v(1) u(1) sends_trans by (auto simp: handle_client_timeout_def)
qed (simp add: handle_client_timeout_def sends_nothing)

lemma handle_timeout_total:
  assumes ok: "peer_ok w"
  shows "\<exists>w'. handle_timeout config w = Inr w' \<and> sends w w'"
proof -
  have "peer_ok (handle_server_timeout w)"
    using handle_server_timeout_ok [of w] ok peer_ok_server [OF ok] unfolding peer_ok_def by blast
  from handle_client_timeout_total [OF this] obtain w' where
    "handle_client_timeout config (handle_server_timeout w) = Inr w'" "sends (handle_server_timeout w) w'" by blast
  moreover have "sent (handle_server_timeout w) = sent w" by (simp add: handle_server_timeout_def server_timeouts_sent)
  ultimately show ?thesis using sends_from by (auto simp: handle_timeout_def)
qed

text \<open>What an \<open>IHAVE\<close> notes in the chunks.\<close>

lemma ihave_fold_sent: "sent (fold (ihave_chunk p h) cs w) = sent w"
proof (induction cs arbitrary: w)
  case (Cons c cs)
  then show ?case by (simp add: ihave_chunk_def upd_chunk_def)
qed simp

lemma ihave_loop:
  assumes ok: "peer_ok w" and v: "fold_result (\<lambda>i w. bind_result (array_get (hash_list pack) i)
      (\<lambda>h. Inr (fold (ihave_chunk p h) (missing_chunks w) w))) is w = Inr v"
  shows "peer_ok (upd_peer q f (snd (millitime v)))" and "sent v = sent w"
proof -
  let ?P = "\<lambda>v. same_core w v \<and> same_content w v \<and> sent v = sent w"
  have "?P v"
    by (rule fold_result_invariant [OF v, where P = ?P])
       (auto simp: bind_result_eq_Inr ihave_fold_sent intro: same_core_trans same_content_trans
          ihave_fold_core [THEN conjunct1] ihave_fold_core [THEN conjunct2])
  then show "sent v = sent w" and "peer_ok (upd_peer q f (snd (millitime v)))"
    using peer_ok_touch [OF peer_ok_core [OF ok]] by auto
qed

lemma receive_IHAVE_total:
  assumes ok: "peer_ok w" and n: "unat (hash_num pack) \<le> length (hash_list pack)"
  shows "\<exists>w'. receive_IHAVE pack config from w = Inr w' \<and> sends w w'"
proof (cases "find_peer (peer_heap w) config from")
  case (Some p)
  let ?loop = "\<lambda>i w. bind_result (array_get (hash_list pack) i) (\<lambda>h. Inr (fold (ihave_chunk p h) (missing_chunks w) w))"
  have total: "\<exists>v. fold_result ?loop is u = Inr v" if "set is \<subseteq> {..<unat (hash_num pack)}" for "is" u
    using that n by (induction "is" arbitrary: u) (auto simp: array_get_def)
  have "set [0..<unat (hash_num pack)] \<subseteq> {..<unat (hash_num pack)}" by auto
  from total [OF this, of w] obtain v where v: "fold_result ?loop [0..<unat (hash_num pack)] w = Inr v" ..
  note after = ihave_loop [OF ok v]
  let ?v = "upd_peer p (\<lambda>x. x\<lparr>peer_timer := now_of v\<rparr>) (snd (millitime v))"
  obtain x w' where w': "init_data_transfer ?v = Inr (x, w')" "sends ?v w'"
    using init_data_transfer_total [OF after(1)] by blast
  have "receive_IHAVE pack config from w = Inr w'"
    using Some v w'(1) by (simp add: receive_IHAVE_def Let_def) (simp add: millitime_def)
  moreover have "sends w w'" by (rule sends_from [OF w'(2)]) (simp add: after(2) upd_peer_def millitime_def)
  ultimately show ?thesis by blast
qed (simp add: receive_IHAVE_def sends_nothing)

lemma receive_IHAVE_sends:
  assumes ok: "peer_ok w" and r: "receive_IHAVE pack config from w = Inr w'"
  shows "sends w w'"
proof (cases "find_peer (peer_heap w) config from")
  case (Some p)
  from Some r obtain v x where
    v: "fold_result (\<lambda>i w. bind_result (array_get (hash_list pack) i) (\<lambda>h. Inr (fold (ihave_chunk p h) (missing_chunks w) w)))
          [0..<unat (hash_num pack)] w = Inr v"
    and u: "init_data_transfer (upd_peer p (\<lambda>x. x\<lparr>peer_timer := now_of v\<rparr>) (snd (millitime v))) = Inr (x, w')"
    by (auto simp: receive_IHAVE_def bind_result_eq_Inr Let_def millitime_def)
  note after = ihave_loop [OF ok v]
  show ?thesis
    by (rule sends_from [OF init_data_transfer_sends [OF after(1) u]]) (simp add: after(2) upd_peer_def millitime_def)
qed (use r in \<open>simp add: receive_IHAVE_def sends_nothing\<close>)

lemma receive_DENIED_sends: "receive_DENIED config from w = Inr w' \<Longrightarrow> sends w w'"
  by (auto simp: receive_DENIED_def delete_client_transfer_def delete_transfer_def upd_peer_def
      intro!: sends_nothing split: option.splits)

lemma data_store_sent: "data_store pack t w = Inr w' \<Longrightarrow> sent w' = sent w"
  by (auto simp: data_store_def bind_result_eq_Inr upd_chunk_def Let_def)

lemma finish_chunk_sends:
  assumes "peer_ok w" and "t \<in> set (client_transfers w)" and "finish_chunk t w = Inr w'"
  shows "sends w w'"
proof (rule finish_chunk_request [OF assms])
  fix v x assume v: "peer_ok (delete_client_transfer t v)" "init_data_transfer (delete_client_transfer t v) = Inr (x, w')"
    and s: "sent v = sent w"
  show ?thesis
    by (rule sends_from [OF init_data_transfer_sends [OF v]])
       (simp add: s delete_client_transfer_def delete_transfer_def upd_peer_def)
qed

lemma receive_DATA_sends:
  assumes ok: "peer_ok w" and r: "receive_DATA pack p w = Inr w'"
  shows "sends w w'"
proof (cases "find_by_peer w (client_transfers w) p")
  case (Some t)
  then have t: "t \<in> set (client_transfers w)" by (auto dest: find_by_peer_SomeD)
  from Some r obtain stored w1 w2 where
    s: "data_already_stored pack t w = Inr stored" "(if \<not> stored then data_store pack t w else Inr w) = Inr w1"
    and a: "send_ACK p (data_find_largest_consec_seq t w1) w1 = Inr w2"
    and rest: "(if chunk_bits_all_received t w2 then finish_chunk t w2 else Inr w2) = Inr w'"
    by (auto simp: receive_DATA_def bind_result_eq_Inr)
  have ok1: "peer_ok w1" using s ok data_store_ok [OF ok t] by (auto split: if_splits)
  have same: "client_transfers w1 = client_transfers w" "sent w1 = sent w"
    using s(2) by (auto simp: data_store_def bind_result_eq_Inr upd_chunk_def Let_def split: if_splits)
  have "sends w1 w2" using send_ACK_total [OF peer_ok_parts(2) [OF ok1], of p t w1] a by auto
  then have "sends w w2" using same(2) by (rule sends_from)
  moreover have "peer_ok w2" using send_ACK_ok [OF ok1 a] by simp
  moreover have "t \<in> set (client_transfers w2)" using send_ACK_local [OF a] t by (auto simp: same local_toD)
  ultimately show ?thesis using rest finish_chunk_sends sends_trans by (auto split: if_splits)
qed (use r in \<open>simp add: receive_DATA_def sends_nothing\<close>)

section \<open>Everything a peer sends\<close>

lemmas server_offers = receive_WHOHAS_offers receive_GET_offers receive_ACK_offers

lemma dispatch_sends:
  assumes ok: "peer_ok w" and r: "dispatch config from p pack w = Inr w'"
  shows "sends w w'"
  using r server_offers [OF peer_ok_parts(1) [OF ok], THEN offers_sends [OF peer_ok_parts(1) [OF ok]]] receive_IHAVE_sends [OF ok] receive_DENIED_sends receive_DATA_sends [OF ok]
  by (auto simp: dispatch_def split: packet_type.splits)

lemma process_inbound_udp_sends:
  assumes ok: "peer_ok w" and r: "process_inbound_udp config from buf w = Inr w'"
  shows "sends w w'"
proof (cases "find_peer (peer_heap w) config from")
  case (Some p)
  let ?v = "upd_peer p (\<lambda>p. p\<lparr>peer_timer := now_of w, peer_timeout_count := 0\<rparr>) (snd (millitime w))"
  have v: "peer_ok ?v" "sent ?v = sent w" using peer_ok_touch [OF ok] by (simp_all add: upd_peer_def millitime_def)
  from r Some consider "w' = ?v" | pack where "dispatch config from p pack ?v = Inr w'"
    by (auto simp: process_inbound_udp_def bind_result_eq_Inr Let_def millitime_def split: option.splits)
  then show ?thesis
    by cases (use v(2) in \<open>blast intro: sends_nothing sends_from [OF dispatch_sends [OF v(1)]]\<close>)+
qed (use r in \<open>simp add: process_inbound_udp_def sends_nothing\<close>)

lemma peer_step_sends: "peer_ok w \<Longrightarrow> peer_step config e w = Inr w' \<Longrightarrow> sends w w'"
  using handle_timeout_total [of w config] by (cases e) (auto intro: process_inbound_udp_sends)

lemma process_get_sends:
  assumes "peer_ok w" and "fresh_file vars f w" and "process_get vars f out config w = Inr w'"
  shows "sends w w'"
proof (rule process_get_request [OF assms])
  fix u assume u: "peer_ok u" "send_WHOHAS config u = Inr w'" and same: "sent u = sent w"
  show ?thesis by (rule sends_from [OF send_WHOHAS_sends [OF u] same])
qed

lemma reaches_sends: "reaches config w0 w \<Longrightarrow> peer_ok w0 \<Longrightarrow> sends w0 w"
proof (induction rule: reaches.induct)
  case (event w e w')
  then show ?case using peer_step_sends reaches_ok sends_trans by blast
next
  case (request w vars f out w')
  then show ?case using process_get_sends reaches_ok sends_trans by blast
qed (simp add: sends_nothing)

section \<open>Properties\<close>

text \<open>
  Claim C7. Every datagram that a peer ever sends, in whatever state it gets, is a message of the
  protocol: a packet that fits the 1500 bytes of a receive buffer, whose header, lengths and payload
  agree, with a part number from 1 to 525 if it carries data and a part count up to 525 if it
  acknowledges; and every peer that receives it decodes exactly that packet, whatever its receive
  buffer held before.
\<close>

theorem sent_datagrams_are_messages:
  assumes "peer_ok w0" and "reaches config w0 w"
  shows "\<exists>ms. sent w = sent w0 @ ms \<and>
    (\<forall>(to, m) \<in> set ms. 16 \<le> length m \<and> length m \<le> MAX_PACKET_SIZE \<and>
       (\<exists>p. protocol_message p \<and> (\<forall>junk. deserialize_packet (m @ junk) = Inr (Some (received p)))))"
proof -
  have "16 \<le> length m \<and> length m \<le> MAX_PACKET_SIZE \<and>
       (\<exists>p. protocol_message p \<and> (\<forall>junk. deserialize_packet (m @ junk) = Inr (Some (received p))))"
    if "message m" for m
    using received_message [OF that] length_message [OF that] by metis
  then show ?thesis using reaches_sends [OF assms(2,1)] by (fastforce simp: sends_def)
qed

text \<open>A peer with a missing chunk that nobody offers.\<close>

definition demo_seeker :: world where
  "demo_seeker = delete_client_transfer 0 demo_client"

lemma demo_seeker_asks: "\<exists>w. peer_step demo_config Timeout demo_seeker = Inr w \<and> length (sent w) = 1"
proof -
  have s: "server_transfers demo_seeker = []" "client_transfers demo_seeker = []" "missing_chunks demo_seeker = [0]"
    "sent demo_seeker = []" "chunk_peer (chunk_heap demo_seeker 0) = []"
    "length (bin_hash (chunk_heap demo_seeker 0)) = BIN_HASH_SIZE" "length (recipients demo_config demo_seeker) = 1"
    by (simp_all add: demo_seeker_def delete_client_transfer_def delete_transfer_def demo_client_defs demo_config_def
        recipients_def zero_chunk_def length_fips_sha1)
  have "init_data_transfer demo_seeker = Inr (EXIT_FAILURE, demo_seeker)"
    by (simp add: init_data_transfer_def get_chunk_data_def find_first_available_peer_def s Let_def)
  then have "peer_step demo_config Timeout demo_seeker = send_WHOHAS demo_config demo_seeker"
    by (simp add: handle_timeout_def handle_server_timeout_def handle_client_timeout_def s)
  moreover obtain w where "send_WHOHAS demo_config demo_seeker = Inr w" "length (sent w) = 1"
    using whohas_loop_sent [of "[]" "missing_chunks demo_seeker" demo_seeker demo_config]
    by (auto simp: send_WHOHAS_def s packet_consts chunk_consts)
  ultimately show ?thesis by simp
qed

theorem sent_datagrams_are_messages_witness:
  "\<exists>w p. reaches demo_config demo_seeker w \<and> length (sent w) = 1 \<and> protocol_message p \<and>
     deserialize_packet (snd (hd (sent w))) = Inr (Some (received p))"
proof -
  have ok: "peer_ok demo_seeker" unfolding demo_seeker_def by (rule delete_client_ok [OF demo_client_ok])
  have none: "sent demo_seeker = []" by (simp add: demo_seeker_def delete_client_transfer_def delete_transfer_def demo_client_defs)
  obtain w where w: "peer_step demo_config Timeout demo_seeker = Inr w" "length (sent w) = 1"
    using demo_seeker_asks by blast
  then obtain x where x: "sent w = [x]" by (auto simp: length_Suc_conv)
  have r: "reaches demo_config demo_seeker w" by (rule reaches.event [OF reaches.start w(1)])
  from sent_datagrams_are_messages [OF ok r] none x
  obtain p where "protocol_message p" "\<And>junk. deserialize_packet (snd x @ junk) = Inr (Some (received p))"
    by (cases x) auto
  then show ?thesis using r w(2) x by (metis append_Nil2 list.sel(1))
qed

end
