(* ===== verification/Input_Buffer.thy ===== *)
theory Input_Buffer
  imports Text_Io
begin

text \<open>
  Line buffering of the user's input: \<^verbatim>\<open>src/code/input_buffer.c\<close>.

  The buffer is an allocation of \<open>USERBUF_SIZE + 1\<close> bytes; the callback \<open>handle_line\<close> is a function on
  a state of its own. Standard input is the list of the bytes that wait to be read; a read takes as many
  as fit, and an error or the end of the input is a read of no bytes. \<open>strchr\<close> works on a string, so a
  buffer without a NUL is a fault.
\<close>

section \<open>The code\<close>

definition USERBUF_SIZE :: nat where "USERBUF_SIZE = 8191"

record user_iobuf =
  io_buf :: "byte list"
  io_cur :: u32

text \<open>Allocation does not fail.\<close>

definition create_userbuf :: user_iobuf where
  "create_userbuf = \<lparr>io_buf = replicate (USERBUF_SIZE + 1) 0, io_cur = 0\<rparr>"

definition strchr :: "byte list \<Rightarrow> byte \<Rightarrow> nat option result" where
  "strchr buf c =
     (if 0 \<notin> set buf then Inl Out_Of_Bounds
      else let i = length (takeWhile (\<lambda>b. b \<noteq> c) (c_string buf))
           in Inr (if i < length (c_string buf) then Some i else None))"

text \<open>Handing on the line that ends at \<open>ret\<close>, and moving the rest of the buffer to its front.\<close>

definition take_line :: "(byte list \<Rightarrow> 's \<Rightarrow> 's result) \<Rightarrow> nat \<Rightarrow> user_iobuf \<Rightarrow> 's \<Rightarrow> (user_iobuf \<times> 's) result" where
  "take_line handle_line ret b s =
     bind_result (array_set (io_buf b) ret 0) (\<lambda>buf.
     bind_result (handle_line (c_string buf) s) (\<lambda>s.
     bind_result (mem_read buf (ret + 1) (USERBUF_SIZE - ret)) (\<lambda>rest.
     bind_result (mem_write buf 0 rest) (\<lambda>buf.
       Inr (b\<lparr>io_buf := buf, io_cur := io_cur b - of_nat (ret + 1)\<rparr>, s)))))"

lemma strchr_Some:
  assumes "strchr buf c = Inr (Some i)"
  shows "i < length (c_string buf)" "c_string buf ! i = c" "0 \<in> set buf" "c \<notin> set (take i (c_string buf))"
proof -
  let ?t = "takeWhile (\<lambda>b. b \<noteq> c) (c_string buf)"
  have i: "i = length ?t" "i < length (c_string buf)" and z: "0 \<in> set buf"
    using assms by (auto simp: strchr_def Let_def split: if_splits)
  then show "i < length (c_string buf)" "0 \<in> set buf" by simp_all
  show "c_string buf ! i = c" using nth_length_takeWhile [of "\<lambda>b. b \<noteq> c" "c_string buf"] i by simp
  have "take i (c_string buf) = ?t" using takeWhile_eq_take [of "\<lambda>b. b \<noteq> c" "c_string buf"] i by simp
  then show "c \<notin> set (take i (c_string buf))" by (auto dest: set_takeWhileD)
qed

lemma takeWhile_absent: "c \<notin> set l \<Longrightarrow> takeWhile (\<lambda>b. b \<noteq> c) l = l"
  by (auto simp: takeWhile_eq_all_conv)

lemma c_string_NUL [simp]: "0 \<notin> set xs \<Longrightarrow> c_string (xs @ 0 # ys) = xs"
  by (simp add: c_string_def takeWhile_tail takeWhile_absent)

text \<open>The string in the buffer afterwards is what followed the newline.\<close>

lemma c_string_shift:
  assumes "i < length (c_string buf)" and "0 \<in> set buf"
  shows "c_string (drop (Suc i) buf @ ys) = drop (Suc i) (c_string buf)"
proof -
  obtain xs zs where buf: "buf = xs @ 0 # zs" and xs: "0 \<notin> set xs" using split_list_first [OF assms(2)] by blast
  have "i < length xs" using assms(1) by (simp add: buf xs)
  moreover have "0 \<notin> set (drop (Suc i) xs)" using xs by (meson in_set_dropD)
  then have "c_string (drop (Suc i) xs @ 0 # zs @ ys) = drop (Suc i) xs" by (rule c_string_NUL)
  ultimately show ?thesis by (simp add: buf xs)
qed

lemma take_line_buf:
  assumes "take_line handle_line i b s = Inr (b', s')" and "i < length (c_string (io_buf b))" and "0 \<in> set (io_buf b)"
    and "length (io_buf b) = USERBUF_SIZE + 1"
  shows "c_string (io_buf b') = drop (Suc i) (c_string (io_buf b))"
    and "io_buf b' = drop (Suc i) (io_buf b) @ drop (USERBUF_SIZE - i) ((io_buf b)[i := 0])"
proof -
  have len: "i < length (io_buf b)"
    using assms(2) length_takeWhile_le [of "\<lambda>b. b \<noteq> 0" "io_buf b"] by (simp add: c_string_def)
  then have "io_buf b' = drop (Suc i) ((io_buf b)[i := 0]) @ drop (USERBUF_SIZE - i) ((io_buf b)[i := 0])"
    using assms(1,4) by (auto simp: take_line_def result_simps mem_read_def mem_write_def array_set_def min_def split: if_splits)
  then show b': "io_buf b' = drop (Suc i) (io_buf b) @ drop (USERBUF_SIZE - i) ((io_buf b)[i := 0])" by simp
  show "c_string (io_buf b') = drop (Suc i) (c_string (io_buf b))"
    unfolding b' by (rule c_string_shift [OF assms(2,3)])
qed

text \<open>The loop hands on one line after the other; the string in the buffer gets shorter.\<close>

function input_loop :: "(byte list \<Rightarrow> 's \<Rightarrow> 's result) \<Rightarrow> user_iobuf \<Rightarrow> 's \<Rightarrow> (user_iobuf \<times> 's) result" where
  "input_loop handle_line b s =
     (if length (io_buf b) \<noteq> USERBUF_SIZE + 1 then Inl Invalid_Pointer
      else
        bind_result (strchr (io_buf b) 10) (\<lambda>ret.
          case ret of
            None \<Rightarrow> Inr (b, s)
          | Some i \<Rightarrow> bind_result (take_line handle_line i b s) (\<lambda>(b, s). input_loop handle_line b s)))"
  by pat_completeness auto
termination
proof (relation "measure (\<lambda>(h, b, s). length (c_string (io_buf b)))")
  fix h :: "byte list \<Rightarrow> 's \<Rightarrow> 's result" and b s ret i r b' s'
  assume "\<not> length (io_buf b) \<noteq> USERBUF_SIZE + 1" "strchr (io_buf b) 10 = Inr ret" "ret = Some i"
    "take_line h i b s = Inr r" "(b', s') = r"
  then have "strchr (io_buf b) 10 = Inr (Some i)" "take_line h i b s = Inr (b', s')" "length (io_buf b) = USERBUF_SIZE + 1" by auto
  from take_line_buf(1) [OF this(2) strchr_Some(1,3) [OF this(1)] this(3)] strchr_Some(1) [OF this(1)]
  show "((h, b', s'), h, b, s) \<in> measure (\<lambda>(h, b, s). length (c_string (io_buf b)))" by simp
qed simp

declare input_loop.simps [simp del]

text \<open>The result: the bytes left on standard input, the buffer and the callback's state.\<close>

definition process_user_input ::
  "(byte list \<Rightarrow> 's \<Rightarrow> 's result) \<Rightarrow> byte list \<Rightarrow> user_iobuf \<Rightarrow> 's \<Rightarrow> (byte list \<times> user_iobuf \<times> 's) result" where
  "process_user_input handle_line fd userbuf s =
     (if of_nat (USERBUF_SIZE - 1) \<le> io_cur userbuf then Inl (Exit (- 1))
      else
        let n = USERBUF_SIZE - unat (io_cur userbuf);
            got = take n fd
        in bind_result (mem_write (io_buf userbuf) (unat (io_cur userbuf)) got) (\<lambda>buf.
           bind_result (input_loop handle_line (userbuf\<lparr>io_buf := buf, io_cur := io_cur userbuf + of_nat (length got)\<rparr>) s)
             (\<lambda>(b, s). Inr (drop n fd, b, s))))"

section \<open>Lines of the input\<close>

text \<open>The complete lines of a text, and what follows the last newline.\<close>

function split_lines :: "byte list \<Rightarrow> byte list list \<times> byte list" where
  "split_lines p =
     (if 10 \<in> set p then
        let l = takeWhile (\<lambda>b. b \<noteq> 10) p; (ls, r) = split_lines (drop (Suc (length l)) p) in (l # ls, r)
      else ([], p))"
  by pat_completeness auto
termination by (relation "measure length") (auto simp: length_takeWhile_le intro!: diff_less dest: length_pos_if_in_set)

declare split_lines.simps [simp del]

lemma split_lines_line: "10 \<notin> set l \<Longrightarrow> split_lines (l @ 10 # r) = (l # fst (split_lines r), snd (split_lines r))"
  by (subst split_lines.simps) (simp add: takeWhile_tail takeWhile_absent case_prod_beta Let_def)

lemma split_lines_rest: "10 \<notin> set p \<Longrightarrow> split_lines p = ([], p)"
  by (subst split_lines.simps) simp

text \<open>One turn of the loop on a buffer that starts with a complete line, and the end of the loop.\<close>

lemma input_loop_line:
  assumes "io_buf b = l @ 10 # r" and "0 \<notin> set l" and "10 \<notin> set l" and "0 \<in> set r" and "length (io_buf b) = USERBUF_SIZE + 1"
  shows "input_loop h b s = bind_result (h l s) (\<lambda>s. input_loop h
    (b\<lparr>io_buf := r @ drop (USERBUF_SIZE - length l) (l @ 0 # r), io_cur := io_cur b - of_nat (length l + 1)\<rparr>) s)"
proof -
  have len: "USERBUF_SIZE = length l + length r" using assms(1,5) by simp
  have str: "c_string (l @ 10 # r) = l @ 10 # c_string r"
    using assms(2) by (simp add: c_string_def takeWhile_append takeWhile_absent)
  have "strchr (io_buf b) 10 = Inr (Some (length l))"
    using assms(3,4) str by (simp add: strchr_def assms(1) takeWhile_tail takeWhile_absent Let_def)
  moreover have "take_line h (length l) b s = bind_result (h l s) (\<lambda>s.
      Inr (b\<lparr>io_buf := r @ drop (USERBUF_SIZE - length l) (l @ 0 # r), io_cur := io_cur b - of_nat (length l + 1)\<rparr>, s))"
    using len assms(2) by (cases "h l s") (simp_all add: take_line_def assms(1) array_set_def mem_read_def mem_write_def len)
  ultimately show ?thesis
    using assms(5) by (subst input_loop.simps) (simp add: bind_result_def split: sum.splits)
qed

lemma input_loop_end:
  assumes "io_buf b = p @ 0 # r" and "10 \<notin> set p" and "0 \<notin> set p" and "length (io_buf b) = USERBUF_SIZE + 1"
  shows "input_loop h b s = Inr (b, s)"
proof -
  have "strchr (io_buf b) 10 = Inr None" using assms(2,3) by (simp add: strchr_def assms(1) takeWhile_absent Let_def)
  then show ?thesis using assms(4) by (subst input_loop.simps) simp
qed

text \<open>A buffer that holds the text \<open>p\<close> and zeros.\<close>

definition holding :: "byte list \<Rightarrow> user_iobuf" where
  "holding p = \<lparr>io_buf = p @ replicate (USERBUF_SIZE + 1 - length p) 0, io_cur = of_nat (length p)\<rparr>"

lemma input_loop_holding:
  assumes "0 \<notin> set p" and "length p \<le> 4096"
  shows "input_loop h (holding p) s =
    bind_result (fold_result h (fst (split_lines p)) s) (\<lambda>s. Inr (holding (snd (split_lines p)), s))"
  using assms
proof (induction p arbitrary: s rule: length_induct)
  case (1 p)
  show ?case
  proof (cases "10 \<in> set p")
    case False
    have "io_buf (holding p) = p @ 0 # replicate (USERBUF_SIZE - length p) 0"
      using "1.prems" by (simp add: holding_def USERBUF_SIZE_def Suc_diff_le flip: replicate_Suc)
    then have "input_loop h (holding p) s = Inr (holding p, s)"
      using "1.prems" False by (intro input_loop_end) (simp_all add: USERBUF_SIZE_def)
    then show ?thesis using False by (simp add: split_lines_rest)
  next
    case True
    obtain l r where p: "p = l @ 10 # r" and l: "10 \<notin> set l" using split_list_first [OF True] by blast
    let ?z = "\<lambda>n. replicate n (0 :: byte)"
    have n: "length l + length r < 4096" using "1.prems"(2) by (simp add: p)
    have z: "0 \<in> set (r @ ?z (USERBUF_SIZE - length l - length r))" using n by (simp add: USERBUF_SIZE_def)
    have "input_loop h (holding p) s = bind_result (h l s) (\<lambda>s. input_loop h
      ((holding p)\<lparr>io_buf := (r @ ?z (USERBUF_SIZE - length l - length r)) @
          drop (USERBUF_SIZE - length l) (l @ 0 # r @ ?z (USERBUF_SIZE - length l - length r)),
        io_cur := io_cur (holding p) - of_nat (length l + 1)\<rparr>) s)"
      using "1.prems" l z n by (intro input_loop_line) (simp_all add: holding_def p USERBUF_SIZE_def)
    also have "(holding p)\<lparr>io_buf := (r @ ?z (USERBUF_SIZE - length l - length r)) @
          drop (USERBUF_SIZE - length l) (l @ 0 # r @ ?z (USERBUF_SIZE - length l - length r)),
        io_cur := io_cur (holding p) - of_nat (length l + 1)\<rparr> = holding r"
    proof -
      have "?z (8191 - (length l + length r)) @ 0 # ?z (length l) = ?z (8191 - (length l + length r) + Suc (length l))"
        by (simp only: replicate_add replicate_Suc)
      also have "8191 - (length l + length r) + Suc (length l) = 8192 - length r" using n by simp
      finally show ?thesis using n by (simp add: holding_def p USERBUF_SIZE_def drop_Cons')
    qed
    finally have step: "input_loop h (holding p) s = bind_result (h l s) (input_loop h (holding r))" .
    have "input_loop h (holding r) s' =
        bind_result (fold_result h (fst (split_lines r)) s') (\<lambda>s. Inr (holding (snd (split_lines r)), s))" for s'
      using "1.IH" "1.prems" by (simp add: p)
    then have "input_loop h (holding p) s = bind_result (h l s) (\<lambda>s'.
        bind_result (fold_result h (fst (split_lines r)) s') (\<lambda>s. Inr (holding (snd (split_lines r)), s)))"
      unfolding step by (cases "h l s") simp_all
    then show ?thesis using l by (simp add: p split_lines_line bind_result_def split: sum.splits)
  qed
qed

lemma process_user_input_lines:
  assumes "length p + length fd \<le> 4096" and "0 \<notin> set (p @ fd)"
  shows "process_user_input handle_line fd (holding p) s =
    bind_result (fold_result handle_line (fst (split_lines (p @ fd))) s) (\<lambda>s. Inr ([], holding (snd (split_lines (p @ fd))), s))"
proof -
  have n: "unat (of_nat (length p) :: u32) = length p" using assms(1) by (simp add: unat_of_nat)
  have b: "mem_write (p @ replicate (8192 - length p) 0) (length p) fd = Inr (p @ fd @ replicate (8192 - length p - length fd) 0)"
    using assms(1) by (simp add: mem_write_def drop_Cons')
  have "process_user_input handle_line fd (holding p) s =
      bind_result (input_loop handle_line (holding (p @ fd)) s) (\<lambda>(b, s). Inr ([], b, s))"
    using assms(1) n b by (simp add: process_user_input_def holding_def USERBUF_SIZE_def word_le_nat_alt Let_def diff_diff_left)
  then show ?thesis
    using assms by (simp add: input_loop_holding bind_result_def split: sum.splits)
qed

section \<open>Properties\<close>

text \<open>
  Claim C29. While the unfinished line and the new input together have at most 4096 bytes, none of them
  NUL, line buffering is exact: \<open>process_user_input\<close> calls the handler for every complete line, in
  order and without its newline, keeps the unfinished rest for the next call, and stops early only if
  a call of the handler faults.
\<close>

theorem lines_are_handed_on:
  assumes "length p + length fd \<le> 4096" and "0 \<notin> set (p @ fd)"
  shows "process_user_input handle_line fd (holding p) s =
    bind_result (fold_result handle_line (fst (split_lines (p @ fd))) s) (\<lambda>s. Inr ([], holding (snd (split_lines (p @ fd))), s))"
  using assms by (rule process_user_input_lines)

text \<open>The handler that records the lines it is called with.\<close>

definition collect :: "byte list \<Rightarrow> byte list list \<Rightarrow> byte list list result" where
  "collect l ls = Inr (ls @ [l])"

lemma create_userbuf_holding: "create_userbuf = holding []"
  by (simp add: create_userbuf_def holding_def)

theorem lines_are_handed_on_witness:
  "process_user_input collect [72, 105, 10, 72] create_userbuf [] = Inr ([], holding [72], [[72, 105]])"
  using lines_are_handed_on [of "[]" "[72, 105, 10, 72]" collect "[]"]
  by (simp add: create_userbuf_holding split_lines.simps collect_def)

text \<open>The buffer after two lines of 4000 and 4189 characters: the end of the second one is still there.\<close>

definition stale :: "byte list \<Rightarrow> user_iobuf" where
  "stale y = (let r = 0 # drop 190 y @ [10, 0] in \<lparr>io_buf = r @ drop 4002 y @ 0 # r, io_cur = 0\<rparr>)"

lemma full_buffer_first:
  assumes "length x = 4000" and "length y = 4189" and "0 \<notin> set x" "10 \<notin> set x" "0 \<notin> set y" "10 \<notin> set y"
  shows "process_user_input collect (x @ 10 # y @ [10]) create_userbuf [] = Inr ([], stale y, [x, y])"
proof -
  define r1 where "r1 = y @ [10, 0]"
  define r2 where "r2 = 0 # drop 190 y @ [10, 0]"
  have "input_loop collect \<lparr>io_buf = x @ 10 # r1, io_cur = 8191\<rparr> [] =
      input_loop collect \<lparr>io_buf = r1 @ drop 4191 (x @ 0 # r1), io_cur = 4190\<rparr> [x]"
    using assms
    by (subst input_loop_line [where l = x and r = r1]) (simp_all add: r1_def USERBUF_SIZE_def collect_def)
  also have "r1 @ drop 4191 (x @ 0 # r1) = y @ 10 # r2"
    using assms(1,2) by (simp add: r1_def r2_def drop_Cons')
  also have "input_loop collect \<lparr>io_buf = y @ 10 # r2, io_cur = 4190\<rparr> [x] = input_loop collect (stale y) [x, y]"
    using assms
    by (subst input_loop_line [where l = y and r = r2]) (simp_all add: r2_def stale_def USERBUF_SIZE_def collect_def)
  also have "\<dots> = Inr (stale y, [x, y])"
    using assms(2) by (intro input_loop_end [where p = "[]"]) (simp_all add: stale_def USERBUF_SIZE_def)
  finally show ?thesis
    using assms(1,2) by (simp add: process_user_input_def create_userbuf_def USERBUF_SIZE_def mem_write_def r1_def Let_def)
qed

lemma full_buffer_second:
  assumes "length y = 4189" and "length m < 1000" and ny: "0 \<notin> set y" "10 \<notin> set y" and nm: "0 \<notin> set m" "10 \<notin> set m"
  shows "\<exists>b. process_user_input collect (m @ [10]) (stale y) [] = Inr ([], b, [m, drop (190 + length m) y]) \<and>
    of_nat (USERBUF_SIZE - 1) \<le> io_cur b"
proof -
  let ?U = USERBUF_SIZE
  define r2 where "r2 = 0 # drop 190 y @ [10, 0]"
  define q where "q = drop (190 + length m) y"
  define r3 where "r3 = q @ 10 # 0 # drop 4002 y @ 0 # r2"
  define t3 where "t3 = drop (?U - length m) (m @ 0 # r3)"
  define r4 where "r4 = (0 # drop 4002 y @ 0 # r2) @ t3"
  define b2 where "b2 = \<lparr>io_buf = r4 @ drop (?U - length q) (q @ 0 # r4), io_cur = - of_nat (length q + 1)\<rparr>"
  have nq: "0 \<notin> set q" "10 \<notin> set q" "length q = 3999 - length m"
    using ny assms(1) by (auto simp: q_def dest: in_set_dropD)
  have len: "length r2 = 4002" "length r3 = ?U - length m" "length t3 = length m + 1" "length r4 = ?U - length q"
    using assms(1,2) nq(3) by (simp_all add: r2_def r3_def t3_def r4_def USERBUF_SIZE_def)
  have "input_loop collect \<lparr>io_buf = m @ 10 # r3, io_cur = of_nat (length m + 1)\<rparr> [] =
      input_loop collect \<lparr>io_buf = q @ 10 # r4, io_cur = 0\<rparr> [m]"
    using nm assms(2) len
    by (subst input_loop_line [where l = m and r = r3]) (simp_all add: collect_def t3_def r4_def r3_def USERBUF_SIZE_def)
  also have "\<dots> = input_loop collect b2 [m, q]"
    using nq assms(2) len
    by (subst input_loop_line [where l = q and r = r4]) (simp_all add: collect_def b2_def r4_def USERBUF_SIZE_def)
  also have "\<dots> = Inr (b2, [m, q])"
    using assms(2) nq(3) len by (intro input_loop_end [where p = "[]"]) (simp_all add: b2_def r4_def USERBUF_SIZE_def)
  finally have second: "input_loop collect \<lparr>io_buf = m @ 10 # r3, io_cur = of_nat (length m + 1)\<rparr> [] = Inr (b2, [m, q])" .
  have "mem_write (io_buf (stale y)) 0 (m @ [10]) = Inr (m @ 10 # r3)"
    using assms(1,2) len by (simp add: mem_write_def stale_def r3_def q_def r2_def drop_Cons' add.commute)
  then have "process_user_input collect (m @ [10]) (stale y) [] = Inr ([], b2, [m, q])"
    using second assms(2) by (simp add: process_user_input_def USERBUF_SIZE_def Let_def) (simp add: stale_def Let_def add.commute [of 1 "of_nat (length m) :: u32"])
  moreover have "length q + 1 < 2 ^ 32" using nq(3) assms(2) by simp
  then have "unat (of_nat (length q + 1) :: u32) = length q + 1" by (simp add: unat_of_nat del: of_nat_add of_nat_Suc)
  then have "unat (io_cur b2) = 2 ^ 32 - (length q + 1)"
    using unat_sub_if' [of "0 :: u32" "of_nat (length q + 1)"] by (simp add: b2_def del: of_nat_add of_nat_Suc)
  then have "of_nat (?U - 1) \<le> io_cur b2"
    using nq(3) assms(2) by (simp add: word_le_nat_alt USERBUF_SIZE_def)
  ultimately show ?thesis unfolding q_def by blast
qed

text \<open>
  Claim C39. A full buffer breaks line buffering: nothing clears the bytes behind the shifted text and
  \<open>read\<close> does not terminate what it stores. After two lines of 4000 and 4189 characters, without NUL,
  have arrived in one read on an empty buffer, the next line \<open>m\<close>, if it has fewer than 1000 characters
  and arrives alone, is handed on together with a line that the user never typed, the remains of the
  second one; the fill count wraps below zero, and the call after that ends the program.
\<close>

theorem full_buffer_invents_line:
  assumes "length x = 4000" and "length y = 4189" and "length m < 1000"
    and "set x \<inter> {0, 10} = {}" and "set y \<inter> {0, 10} = {}" and "set m \<inter> {0, 10} = {}"
  shows "\<exists>b1 b2. process_user_input collect (x @ 10 # y @ [10]) create_userbuf [] = Inr ([], b1, [x, y]) \<and>
    process_user_input collect (m @ [10]) b1 [] = Inr ([], b2, [m, drop (190 + length m) y]) \<and>
    process_user_input collect fd b2 s = Inl (Exit (- 1))"
proof -
  have n: "0 \<notin> set x" "10 \<notin> set x" "0 \<notin> set y" "10 \<notin> set y" "0 \<notin> set m" "10 \<notin> set m" using assms by auto
  obtain b where "process_user_input collect (m @ [10]) (stale y) [] = Inr ([], b, [m, drop (190 + length m) y])"
    "of_nat (USERBUF_SIZE - 1) \<le> io_cur b"
    using full_buffer_second [OF assms(2,3) n(3-6)] by blast
  moreover from this(2) have "process_user_input collect fd b s = Inl (Exit (- 1))" by (simp add: process_user_input_def)
  ultimately show ?thesis using full_buffer_first [OF assms(1,2) n(1-4)] by blast
qed

theorem full_buffer_invents_line_witness:
  "\<exists>b1 b2. process_user_input collect (replicate 4000 88 @ 10 # replicate 4189 89 @ [10]) create_userbuf [] =
      Inr ([], b1, [replicate 4000 88, replicate 4189 89]) \<and>
    process_user_input collect [65, 10] b1 [] = Inr ([], b2, [[65], replicate 3998 89]) \<and>
    process_user_input collect [66, 10] b2 [] = Inl (Exit (- 1))"
  using full_buffer_invents_line [of "replicate 4000 88" "replicate 4189 89" "[65]" "[66, 10]" "[]"] by simp

end
