(* ===== verification/Make_Chunks.thy ===== *)
theory Make_Chunks
  imports Bt_Io
begin

text \<open>
  The program \<open>make-chunks\<close> of \<^verbatim>\<open>src/code/make_chunks.c\<close>, which prints the chunk file of a
  file: its arguments, the files of the disk, and the text on the standard output. What it prints is
  what \<open>parse_chunkfile\<close> of the peer reads.
\<close>

section \<open>The code\<close>

text \<open>
  \<open>None\<close> stands for a file on which \<open>stat\<close> fails. The function returns a C \<open>int\<close>: the conversion of a
  count of \<open>2^31\<close> chunks or more from \<open>double\<close> is undefined.
\<close>

definition get_numchunks :: "nat option \<Rightarrow> int result" where
  "get_numchunks st_size =
     (case st_size of
        Some n \<Rightarrow> if numchunks n < 2 ^ 31 then Inr (int (numchunks n)) else Inl Undefined
      | None \<Rightarrow> Inr (- 1))"

text \<open>One line of the output; \<open>ascii\<close> has room for the digits and the NUL that ends the text.\<close>

definition print_chunk :: "byte list list \<Rightarrow> nat \<Rightarrow> byte list \<Rightarrow> byte list result" where
  "print_chunk hashes i out =
     bind_result (array_get hashes i) (\<lambda>h.
     bind_result (mem_read h 0 BIN_HASH_SIZE) (\<lambda>h.
     bind_result (mem_write (replicate (BIN_HASH_SIZE * 2 + 1) 0) 0 (binary2hex h)) (\<lambda>ascii.
       Inr (out @ print_int (int i) @ 32 # c_string ascii @ [10]))))"

text \<open>The result is the text printed and the exit status; allocation does not fail.\<close>

definition make_chunks_main :: "string list \<Rightarrow> (string \<rightharpoonup> byte list) \<Rightarrow> (byte list \<times> int) result" where
  "make_chunks_main argv disk =
     (if length argv < 2 then Inl (Exit (- 1))
      else
        let input_file = argv ! 1;
            fp = disk input_file
        in bind_result (get_numchunks (map_option length fp)) (\<lambda>num.
           if num < 0 then Inl (Exit (- 1))
           else
             case fp of
               None \<Rightarrow> Inl (Exit (- 1))
             | Some f \<Rightarrow>
                 let hashes = replicate (nat num) (replicate BIN_HASH_SIZE 0)
                 in bind_result (make_chunks f hashes) (\<lambda>(chunks, hashes).
                    bind_result (fold_result (print_chunk hashes) [0..<chunks] []) (\<lambda>out. Inr (out, 0)))))"

section \<open>What is printed\<close>

text \<open>The lines of the chunk file of \<open>f\<close>.\<close>

definition file_lines :: "byte list \<Rightarrow> (nat \<times> byte list) list" where
  "file_lines f = enumerate 0 (map (\<lambda>p. butlast (binary2hex (fips_sha1 p))) (pieces f))"

lemma hex_char_text: "n < 16 \<Longrightarrow> \<not> isspace (hex_char n) \<and> hex_char n \<noteq> 0"
  by (drule nibble_cases) (auto simp: hex_char_def isspace_def)

lemma binary2hex_text: "b \<in> set (butlast (binary2hex bs)) \<Longrightarrow> \<not> isspace b \<and> b \<noteq> 0"
  using hex_char_text [OF nibble_bounds(1)] hex_char_text [OF nibble_bounds(2)]
  by (induction bs) (auto simp: binary2hex_def)

lemma c_string_binary2hex: "c_string (binary2hex bs) = butlast (binary2hex bs)"
proof -
  have "binary2hex bs = butlast (binary2hex bs) @ [0]" by (simp add: binary2hex_def)
  moreover have "takeWhile (\<lambda>b. b \<noteq> 0) (butlast (binary2hex bs) @ [0]) = butlast (binary2hex bs)"
    using binary2hex_text [of _ bs] by (subst takeWhile_append2) auto
  ultimately show ?thesis by (simp add: c_string_def)
qed

lemma print_chunk_line:
  assumes "i < length hs" and "length (hs ! i) = BIN_HASH_SIZE"
  shows "print_chunk hs i out = Inr (out @ chunk_line (i, butlast (binary2hex (hs ! i))))"
proof -
  have "length (binary2hex (hs ! i)) = BIN_HASH_SIZE * 2 + 1" using assms(2) by (simp add: length_binary2hex)
  then have "mem_write (replicate (BIN_HASH_SIZE * 2 + 1) 0) 0 (binary2hex (hs ! i)) = Inr (binary2hex (hs ! i))"
    by (simp add: mem_write_def)
  then show ?thesis using assms
    by (simp add: print_chunk_def array_get_def mem_read_def chunk_line_def print_int_def c_string_binary2hex)
qed

lemma print_chunks_lines:
  assumes "n \<le> length hs" and "\<And>h. h \<in> set hs \<Longrightarrow> length h = BIN_HASH_SIZE"
  shows "fold_result (print_chunk hs) [0..<n] [] =
    Inr (chunk_text (enumerate 0 (map (\<lambda>h. butlast (binary2hex h)) (take n hs))))"
  using assms(1)
proof (induction n)
  case (Suc n)
  then have "print_chunk hs n out = Inr (out @ chunk_line (n, butlast (binary2hex (hs ! n))))" for out
    using assms(2) by (intro print_chunk_line) auto
  with Suc show ?case by (simp add: fold_result_snoc take_Suc_conv_app_nth enumerate_append_eq chunk_text_def)
qed (simp add: chunk_text_def)

lemma make_chunks_main_text:
  assumes "disk name = Some f" and "length (pieces f) < 2 ^ 31"
  shows "make_chunks_main (prog # name # args) disk = Inr (chunk_text (file_lines f), 0)"
proof -
  let ?hs = "map fips_sha1 (pieces f)"
  have "make_chunks f (replicate (numchunks (length f)) (replicate BIN_HASH_SIZE 0)) = Inr (length ?hs, ?hs)"
    using make_chunks_hashes [of "replicate (numchunks (length f)) (replicate BIN_HASH_SIZE 0)" f]
    by (simp add: numchunks_pieces)
  moreover have "fold_result (print_chunk ?hs) [0..<length ?hs] [] = Inr (chunk_text (file_lines f))"
    by (subst print_chunks_lines) (auto simp: file_lines_def length_fips_sha1 o_def)
  ultimately show ?thesis using assms by (simp add: make_chunks_main_def get_numchunks_def numchunks_pieces Let_def)
qed

lemma too_many_chunks:
  assumes "disk name = Some f" and "2 ^ 31 \<le> length (pieces f)"
  shows "make_chunks_main (prog # name # args) disk = Inl Undefined"
  using assms by (simp add: make_chunks_main_def get_numchunks_def numchunks_pieces Let_def)

lemma file_lines_ok:
  assumes "length (pieces f) < 2 ^ 31" and "l \<in> set (file_lines f)"
  shows "line_ok l"
proof -
  from assms(2) obtain i p where "i < length (pieces f)" and l: "l = (i, butlast (binary2hex (fips_sha1 p)))"
    by (auto simp: file_lines_def in_set_conv_nth nth_enumerate_eq)
  then show ?thesis
    using assms(1) binary2hex_text [of _ "fips_sha1 p"]
    by (auto simp: line_ok_def length_binary2hex length_fips_sha1 chunk_consts)
qed

lemma chunks_of_file_lines:
  "map (\<lambda>l. bin_hash (chunk_of_line l)) (file_lines f) = map fips_sha1 (pieces f)"
  "map (\<lambda>l. chunk_id (chunk_of_line l)) (file_lines f) = map (\<lambda>i. of_nat (i mod 256)) [0..<length (pieces f)]"
  by (rule nth_equalityI; simp add: file_lines_def nth_enumerate_eq chunk_of_line_def hex2binary_binary2hex)+

section \<open>Properties\<close>

text \<open>
  Claim C27. \<open>make-chunks\<close> and \<open>parse_chunkfile\<close> agree: for every file of fewer than \<open>2^31\<close> chunks, so
  that their number is a C \<open>int\<close>, the program prints a text and exits with 0, and a peer that reads
  this text as a chunk file gets one chunk structure for each 512 KiB piece of the file, with the
  SHA-1 hash of that piece and the low eight bits of its number. This holds of a peer whose stack has at
  least one more byte behind the declared 40 bytes of \<open>hash\<close>; the terminating NUL of every line is
  written there, out of the bounds of the array, and without that byte the first line is a fault.
\<close>

theorem chunk_file_roundtrip:
  assumes "disk name = Some f" and "length (pieces f) < 2 ^ 31" and "HEX_HASH_SIZE < length (snd vars)"
  shows "\<exists>out lst w'. make_chunks_main (prog # name # args) disk = Inr (out, 0) \<and>
    parse_chunkfile vars [] cf (w\<lparr>files := (files w)(cf \<mapsto> out)\<rparr>) = Inr (lst, w') \<and>
    map (\<lambda>c. bin_hash (chunk_heap w' c)) (rev lst) = map fips_sha1 (pieces f) \<and>
    map (\<lambda>c. chunk_id (chunk_heap w' c)) (rev lst) = map (\<lambda>i. of_nat (i mod 256)) [0..<length (pieces f)]"
proof -
  let ?v = "w\<lparr>files := (files w)(cf \<mapsto> chunk_text (file_lines f))\<rparr>"
  let ?xs = "map chunk_of_line (file_lines f)"
  obtain lst w' where r: "add_chunks ?xs ([], ?v) = (lst, w')" by force
  have "parse_chunkfile vars [] cf ?v = Inr (lst, w')"
    using parse_lines_text [of "file_lines f" vars "[]" ?v] file_lines_ok [of f, OF assms(2)] assms(3) r by (simp add: parse_chunkfile_def)
  moreover have xs: "map (chunk_heap w') (rev lst) = ?xs"
    using add_chunks_result(1,3) [OF r] by simp
  have "map (\<lambda>c. bin_hash (chunk_heap w' c)) (rev lst) = map fips_sha1 (pieces f)"
    using arg_cong [OF xs, of "map bin_hash"] chunks_of_file_lines(1) [of f] by (simp add: o_def)
  moreover have "map (\<lambda>c. chunk_id (chunk_heap w' c)) (rev lst) = map (\<lambda>i. of_nat (i mod 256)) [0..<length (pieces f)]"
    using arg_cong [OF xs, of "map chunk_id"] chunks_of_file_lines(2) [of f] by (simp add: o_def)
  ultimately show ?thesis
    using make_chunks_main_text [where disk = disk and name = name, OF assms(1,2)] by blast
qed

theorem chunk_file_roundtrip_witness:
  "\<exists>out lst w'. make_chunks_main [''make-chunks'', ''f''] [''f'' \<mapsto> [1, 2, 3]] = Inr (out, 0) \<and>
    parse_chunkfile (0, replicate 41 7) [] ''c'' (initial_world\<lparr>files := [''c'' \<mapsto> out]\<rparr>) = Inr (lst, w') \<and>
    map (\<lambda>c. bin_hash (chunk_heap w' c)) (rev lst) = [fips_sha1 [1, 2, 3]]"
  using chunk_file_roundtrip [of "[''f'' \<mapsto> [1, 2, 3]]" "''f''" "[1, 2, 3]" "(0, replicate 41 7)" "''make-chunks''" "[]" "''c''" initial_world]
  by (auto simp: chunk_consts initial_world_def pieces.simps)

end
