(* ===== verification/Peer_Main.thy ===== *)
theory Peer_Main
  imports Peer Configuration Input_Buffer Make_Chunks
begin

text \<open>
  Start-up and the main loop of \<^verbatim>\<open>src/code/peer.c\<close>: \<open>peer_setup\<close> with
  \<open>load_own_chunk_data\<close>, one turn of the loop of \<open>peer_run\<close>, and \<open>main\<close>.

  What the operating system supplies is a parameter: \<open>read_fails\<close> names the files whose reading fails,
  the variables \<open>id\<close>, \<open>hash\<close> and \<open>master_chunk_filename\<close> are arrays with the content the stack had, and
  the result of \<open>select\<close> says which descriptors are ready, with the datagram and the input
  that wait there. Creating and binding the socket succeeds.
\<close>

section \<open>Start-up\<close>

text \<open>\<open>sscanf(line, "File: %s\n", master_chunk_filename)\<close>.\<close>

definition sscanf_master :: "byte list \<Rightarrow> byte list \<Rightarrow> byte list result" where
  "sscanf_master line buf =
     (case scan_lit (bytes_of_string ''File:'') line of
        None \<Rightarrow> Inr buf
      | Some s \<Rightarrow>
          case scan_word None s of
            None \<Rightarrow> Inr buf
          | Some (u, s) \<Rightarrow> mem_write buf 0 (u @ [0]))"

text \<open>The result of \<open>read_chunk_data_file_by_id\<close> is not looked at.\<close>

definition load_chunk :: "(string \<Rightarrow> bool) \<Rightarrow> string \<Rightarrow> cptr \<Rightarrow> world \<Rightarrow> world result" where
  "load_chunk read_fails name c w =
     bind_result (read_chunk_data_file_by_id read_fails (Some name) (chunk_id (chunk_heap w c)) (chunk_data (chunk_heap w c)) w)
       (\<lambda>(n, buf). Inr (upd_chunk c (\<lambda>x. x\<lparr>chunk_data := buf, bits_count := int MAX_SEQ_NUM\<rparr>) w))"

definition load_own_chunk_data :: "(string \<Rightarrow> bool) \<Rightarrow> byte list \<Rightarrow> bt_config_t \<Rightarrow> world \<Rightarrow> world result" where
  "load_own_chunk_data read_fails buf config w =
     (case files w (chunk_file config) of
        None \<Rightarrow> Inl Assertion_Failed
      | Some master \<Rightarrow>
          case fgets FILE_LEN master of
            None \<Rightarrow> Inr w
          | Some (line, rest) \<Rightarrow>
              bind_result (sscanf_master (c_string line) buf) (\<lambda>buf.
                fold_result (load_chunk read_fails (string_of_bytes (c_string buf))) (have_chunks w) w))"

definition peer_setup :: "(string \<Rightarrow> bool) \<Rightarrow> line_vars \<Rightarrow> byte list \<Rightarrow> bt_config_t \<Rightarrow> world \<Rightarrow> world result" where
  "peer_setup read_fails vars buf config w =
     bind_result (parse_chunkfile vars (have_chunks w) (has_chunk_file config) w) (\<lambda>(lst, w).
     bind_result (load_own_chunk_data read_fails buf config (w\<lparr>have_chunks := lst\<rparr>)) (\<lambda>w.
       let (now, w) = millitime w in Inr (w\<lparr>start_time := now\<rparr>)))"

section \<open>The main loop\<close>

text \<open>
  What \<open>select\<close> reports: the descriptors that are ready, with the sender and the receive buffer of the
  datagram and the bytes of the input; that its five seconds have passed; or an error.
\<close>

datatype select_result = Ready "(sockaddr_in \<times> byte list) option" "byte list option" | Timed_Out | Select_Error

definition peer_turn :: "bt_config_t \<Rightarrow> line_vars \<Rightarrow> select_result \<Rightarrow> user_iobuf \<times> world \<Rightarrow> (user_iobuf \<times> world) result" where
  "peer_turn config vars nfds st =
     (case st of (userbuf, w) \<Rightarrow>
        case nfds of
          Ready datagram input \<Rightarrow>
            bind_result (case datagram of None \<Rightarrow> Inr w | Some (from, buf) \<Rightarrow> process_inbound_udp config from buf w) (\<lambda>w.
              case input of
                None \<Rightarrow> Inr (userbuf, w)
              | Some fd \<Rightarrow>
                  bind_result (process_user_input (handle_user_input config vars) fd userbuf w) (\<lambda>(rest, userbuf, w).
                    Inr (userbuf, w)))
        | Timed_Out \<Rightarrow> bind_result (handle_timeout config w) (\<lambda>w. Inr (userbuf, w))
        | Select_Error \<Rightarrow> Inr (userbuf, w))"

definition peer_run :: "bt_config_t \<Rightarrow> line_vars \<Rightarrow> select_result list \<Rightarrow> world \<Rightarrow> (user_iobuf \<times> world) result" where
  "peer_run config vars turns w = fold_result (peer_turn config vars) turns (create_userbuf, w)"

text \<open>The defaults that \<open>main\<close> sets in the build of the Makefile, which defines \<open>TESTING\<close>.\<close>

definition testing_defaults :: "bt_config_t \<Rightarrow> bt_config_t" where
  "testing_defaults config = config\<lparr>identity := 0, chunk_file := ''chunkfile'', has_chunk_file := ''haschunks''\<rparr>"

text \<open>
  The program up to a number of turns of its loop: the options of the command line, the log file, the
  chunks the peer owns, and the loop.
\<close>

definition peer_main ::
  "(byte list \<Rightarrow> u32 option) \<Rightarrow> (string \<Rightarrow> bool) \<Rightarrow> (string \<Rightarrow> bool) \<Rightarrow> peer_vars \<Rightarrow> line_vars \<Rightarrow> byte list \<Rightarrow>
     (char \<times> string) list \<Rightarrow> select_result list \<Rightarrow> world \<Rightarrow> (user_iobuf \<times> world) result" where
  "peer_main gethostbyname can_open read_fails pvars vars buf opts turns w =
     bind_result (bt_parse_command_line gethostbyname pvars (files w) opts 0 (testing_defaults bt_init, peer_heap w, 0)) (\<lambda>(debug, config, h, free).
     bind_result (setup_logging can_open (sint (identity config)) (files w)) (\<lambda>(log, disk).
     bind_result (peer_setup read_fails vars buf config (w\<lparr>peer_heap := h, files := disk\<rparr>)) (\<lambda>w.
       peer_run config vars turns w)))"

section \<open>What start-up loads\<close>

text \<open>A disk on which the chunk files describe the data file \<open>f\<close>.\<close>

definition master_text :: "byte list \<Rightarrow> byte list \<Rightarrow> byte list" where
  "master_text name rest = bytes_of_string ''File: '' @ name @ 10 # rest"

lemma sscanf_master_text:
  assumes "name \<noteq> []" and "\<And>b. b \<in> set name \<Longrightarrow> \<not> isspace b \<and> b \<noteq> 0" and "length name < length buf" and "length name < 1000"
  shows "\<exists>line rest'. fgets FILE_LEN (master_text name rest) = Some (line, rest') \<and>
    sscanf_master (c_string line) buf = Inr (name @ 0 # drop (Suc (length name)) buf)"
proof -
  let ?l = "bytes_of_string ''File: '' @ name"
  have sp: "isspace 10" "isspace 32" by (simp_all add: isspace_def)
  have no: "10 \<notin> set ?l" "0 \<notin> set ?l" using assms(2) sp by (auto simp: bytes_of_string_def)
  have "fgets FILE_LEN (?l @ 10 # rest) = Some (?l @ [10], rest)"
    using no(1) assms(4) by (intro fgets_line) (simp_all add: FILE_LEN_def)
  moreover have "c_string (?l @ [10]) = ?l @ [10]" using no(2) by (auto simp: c_string_def takeWhile_eq_all_conv)
  moreover have "scan_word None (32 # name @ [10]) = Some (name, [10])"
    using assms(1,2) sp by (intro scan_word_spaced) auto
  then have "sscanf_master (?l @ [10]) buf = Inr (name @ 0 # drop (Suc (length name)) buf)"
    using assms(3) by (simp add: sscanf_master_def scan_lit_def bytes_of_string_def mem_write_def)
  ultimately show ?thesis by (auto simp: master_text_def)
qed

text \<open>The chunk with the data of its place in \<open>f\<close>.\<close>

definition loaded :: "byte list \<Rightarrow> chunk \<Rightarrow> chunk" where
  "loaded f x = x\<lparr>chunk_data := block f (unat (chunk_id x)), bits_count := int MAX_SEQ_NUM\<rparr>"

text \<open>A chunk that can be loaded: its place lies in \<open>f\<close> and its offset does not wrap.\<close>

definition loadable :: "byte list \<Rightarrow> chunk \<Rightarrow> bool" where
  "loadable f x \<longleftrightarrow> unat (chunk_id x) < 8192 \<and> (unat (chunk_id x) + 1) * BT_CHUNK_SIZE \<le> length f \<and>
     length (chunk_data x) = BT_CHUNK_SIZE"

lemma load_chunk_block:
  assumes "files w name = Some f" and "\<not> read_fails name" and "loadable f (chunk_heap w c)"
  shows "load_chunk read_fails name c w = Inr (upd_chunk c (loaded f) w)"
proof -
  let ?i = "chunk_id (chunk_heap w c)"
  have "unat (?i * of_nat BT_CHUNK_SIZE) = unat ?i * BT_CHUNK_SIZE"
    using assms(3) by (intro unat_offset) (simp add: loadable_def)
  moreover have "length (block f (unat ?i)) = BT_CHUNK_SIZE"
    using assms(3) by (auto simp: block_def loadable_def min_def)
  ultimately show ?thesis
    using assms by (simp add: load_chunk_def read_chunk_data_file_by_id_def Let_def mem_write_def loadable_def
        loaded_def block_def world_defs)
qed

lemma load_chunks_blocks:
  assumes "files w name = Some f" and "\<not> read_fails name" and "distinct cs"
    and "\<And>c. c \<in> set cs \<Longrightarrow> loadable f (chunk_heap w c)"
  shows "fold_result (load_chunk read_fails name) cs w =
    Inr (w\<lparr>chunk_heap := (\<lambda>c. if c \<in> set cs then loaded f (chunk_heap w c) else chunk_heap w c)\<rparr>)"
  using assms
proof (induction cs arbitrary: w)
  case (Cons c cs)
  let ?v = "upd_chunk c (loaded f) w"
  have "fold_result (load_chunk read_fails name) cs ?v =
      Inr (?v\<lparr>chunk_heap := (\<lambda>d. if d \<in> set cs then loaded f (chunk_heap ?v d) else chunk_heap ?v d)\<rparr>)"
    using Cons.prems by (intro Cons.IH) (auto simp: world_defs)
  then show ?case
    using Cons.prems load_chunk_block [of w name f read_fails c]
    by (auto simp: world_defs fun_eq_iff intro!: arg_cong [where f = Inr])
qed simp

section \<open>Start-up establishes the invariant\<close>

text \<open>A line that names a chunk of \<open>f\<close> with its hash.\<close>

definition names_chunk :: "byte list \<Rightarrow> nat \<times> byte list \<Rightarrow> bool" where
  "names_chunk f l \<longleftrightarrow> line_ok l \<and> fst l < 256 \<and> (fst l + 1) * BT_CHUNK_SIZE \<le> length f \<and>
     hex2binary (snd l) = Inr (fips_sha1 (block f (fst l)))"

text \<open>A peer before it has loaded anything.\<close>

definition idle :: "world \<Rightarrow> bool" where
  "idle w \<longleftrightarrow> wanted_chunks w = [] \<and> missing_chunks w = [] \<and> have_chunks w = [] \<and> client_transfers w = [] \<and>
     server_transfers w = [] \<and> packet_arrays (stack_packet w)"

lemma names_chunk_loaded:
  assumes "names_chunk f l"
  shows "loadable f (chunk_of_line l)" and "verified (loaded f (chunk_of_line l))" and "chunk_sized (loaded f (chunk_of_line l))"
    and "bin_hash (loaded f (chunk_of_line l)) = fips_sha1 (block f (fst l))"
    and "chunk_data (loaded f (chunk_of_line l)) = block f (fst l)"
proof -
  have i: "fst l < 256" "unat (of_nat (fst l mod 256) :: u32) = fst l"
    using assms by (simp_all add: names_chunk_def unat_of_nat)
  have len: "length (block f (fst l)) = BT_CHUNK_SIZE" using assms by (auto simp: names_chunk_def block_def min_def)
  show "loadable f (chunk_of_line l)"
    using assms i by (simp add: loadable_def chunk_of_line_def names_chunk_def zero_chunk_def)
  show hash: "bin_hash (loaded f (chunk_of_line l)) = fips_sha1 (block f (fst l))"
    and data: "chunk_data (loaded f (chunk_of_line l)) = block f (fst l)"
    using assms i by (simp_all add: loaded_def chunk_of_line_def names_chunk_def)
  then show "verified (loaded f (chunk_of_line l))" by (simp add: verified_def)
  show "chunk_sized (loaded f (chunk_of_line l))"
    using hash data len by (simp add: chunk_sized_def length_fips_sha1) (simp add: loaded_def chunk_of_line_def zero_chunk_def)
qed

lemma idle_with_chunks:
  assumes "idle w" and "\<And>c. c \<in> set cs \<Longrightarrow> chunk_sized (h c) \<and> verified (h c) \<and> c < n"
  shows "peer_ok (w\<lparr>chunk_heap := h, chunk_top := n, have_chunks := cs, clock_pos := k, start_time := s\<rparr>)"
  using assms
  by (auto simp: idle_def peer_ok_def server_ok_def have_sized_def chunks_ok_def transfers_ok_def request_ok_def chunk_sized_def)

lemma peer_setup_result:
  assumes "idle w" and "files w (has_chunk_file config) = Some (chunk_text ls)" and ls: "\<And>l. l \<in> set ls \<Longrightarrow> names_chunk f l"
    and "files w (chunk_file config) = Some (master_text name rest)" and "files w (string_of_bytes name) = Some f"
    and "\<not> read_fails (string_of_bytes name)"
    and name: "name \<noteq> []" "\<And>b. b \<in> set name \<Longrightarrow> \<not> isspace b \<and> b \<noteq> 0" "length name < PATH_LEN"
    and "length buf = PATH_LEN" and vars: "HEX_HASH_SIZE < length (snd vars)"
  shows "\<exists>h. peer_setup read_fails vars buf config w =
      Inr (w\<lparr>chunk_heap := h, chunk_top := chunk_top w + length ls, have_chunks := rev [chunk_top w..<chunk_top w + length ls],
        clock_pos := Suc (clock_pos w), start_time := now_of w\<rparr>) \<and>
    map h [chunk_top w..<chunk_top w + length ls] = map (\<lambda>l. loaded f (chunk_of_line l)) ls"
proof -
  let ?cs = "[chunk_top w..<chunk_top w + length ls]"
  obtain lst v where r: "add_chunks (map chunk_of_line ls) (have_chunks w, w) = (lst, v)" by force
  have p: "parse_chunkfile vars (have_chunks w) (has_chunk_file config) w = Inr (lst, v)"
    using parse_lines_text [of ls vars "have_chunks w" w] ls vars assms(2) r by (simp add: parse_chunkfile_def names_chunk_def)
  have lst: "lst = rev ?cs" using add_chunks_result(1) [OF r] assms(1) by (simp add: idle_def)
  obtain hv where v: "v = w\<lparr>chunk_heap := hv, chunk_top := chunk_top w + length ls\<rparr>" using add_chunks_result(2) [OF r] by auto
  have chunks: "map (chunk_heap v) ?cs = map chunk_of_line ls" using add_chunks_result(3) [OF r] by simp
  have load: "loadable f (chunk_heap v c)" if "c \<in> set lst" for c
  proof -
    have "chunk_heap v c \<in> set (map (chunk_heap v) ?cs)" using that lst by simp
    then show ?thesis unfolding chunks using names_chunk_loaded(1) [OF ls] by auto
  qed
  obtain line rest' where line: "fgets FILE_LEN (master_text name rest) = Some (line, rest')"
    "sscanf_master (c_string line) buf = Inr (name @ 0 # drop (Suc (length name)) buf)"
    using sscanf_master_text [OF name(1,2), of buf rest] name(3) assms(10) by (auto simp: PATH_LEN_def)
  have str: "c_string (name @ 0 # drop (Suc (length name)) buf) = name" using name(2) by (intro c_string_NUL) auto
  define u where "u = v\<lparr>have_chunks := lst\<rparr>"
  define h where "h = (\<lambda>c. if c \<in> set lst then loaded f (chunk_heap v c) else chunk_heap v c)"
  have fl: "files u = files w" by (subst u_def, subst v) simp
  have hu: "chunk_heap u = chunk_heap v" by (simp add: u_def)
  have "fold_result (load_chunk read_fails (string_of_bytes name)) lst u = Inr (u\<lparr>chunk_heap := h\<rparr>)"
    using load_chunks_blocks [of u "string_of_bytes name" f read_fails lst] assms(5,6) fl lst load by (simp add: h_def hu cong: if_cong)
  then have "load_own_chunk_data read_fails buf config u = Inr (u\<lparr>chunk_heap := h\<rparr>)"
    using line str assms(4) fl by (simp add: load_own_chunk_data_def u_def)
  then have "peer_setup read_fails vars buf config w =
      Inr (w\<lparr>chunk_heap := h, chunk_top := chunk_top w + length ls, have_chunks := lst,
        clock_pos := Suc (clock_pos w), start_time := now_of w\<rparr>)"
    using p by (simp add: peer_setup_def u_def [symmetric] millitime_def) (simp add: u_def v)
  moreover have "map h ?cs = map (loaded f) (map (chunk_heap v) ?cs)" by (simp add: h_def lst)
  ultimately show ?thesis unfolding chunks lst by auto
qed

lemma peer_setup_ok:
  assumes "idle w" and "files w (has_chunk_file config) = Some (chunk_text ls)" and "\<And>l. l \<in> set ls \<Longrightarrow> names_chunk f l"
    and "files w (chunk_file config) = Some (master_text name rest)" and "files w (string_of_bytes name) = Some f"
    and "\<not> read_fails (string_of_bytes name)"
    and "name \<noteq> []" and "\<And>b. b \<in> set name \<Longrightarrow> \<not> isspace b \<and> b \<noteq> 0" and "length name < PATH_LEN"
    and "length buf = PATH_LEN" and "HEX_HASH_SIZE < length (snd vars)"
  shows "\<exists>w'. peer_setup read_fails vars buf config w = Inr w' \<and> peer_ok w' \<and>
    map (\<lambda>c. bin_hash (chunk_heap w' c)) (rev (have_chunks w')) = map (\<lambda>l. fips_sha1 (block f (fst l))) ls \<and>
    map (\<lambda>c. chunk_data (chunk_heap w' c)) (rev (have_chunks w')) = map (\<lambda>l. block f (fst l)) ls"
proof -
  let ?cs = "[chunk_top w..<chunk_top w + length ls]"
  from peer_setup_result [where read_fails = read_fails, OF assms] obtain h where r: "peer_setup read_fails vars buf config w =
      Inr (w\<lparr>chunk_heap := h, chunk_top := chunk_top w + length ls, have_chunks := rev ?cs,
        clock_pos := Suc (clock_pos w), start_time := now_of w\<rparr>)"
    and h: "map h ?cs = map (\<lambda>l. loaded f (chunk_of_line l)) ls" by blast
  have "h c \<in> (\<lambda>l. loaded f (chunk_of_line l)) ` set ls" if "c \<in> set ?cs" for c
    using arg_cong [OF h, of set] that by auto
  then have "chunk_sized (h c) \<and> verified (h c)" if "c \<in> set ?cs" for c
    using names_chunk_loaded(2,3) [OF assms(3)] that by fastforce
  then have "peer_ok (w\<lparr>chunk_heap := h, chunk_top := chunk_top w + length ls, have_chunks := rev ?cs,
        clock_pos := Suc (clock_pos w), start_time := now_of w\<rparr>)"
    by (intro idle_with_chunks [OF assms(1)]) auto
  moreover have "map (\<lambda>c. bin_hash (h c)) ?cs = map (\<lambda>l. fips_sha1 (block f (fst l))) ls"
    using arg_cong [OF h, of "map bin_hash"] names_chunk_loaded(4) [OF assms(3)] by (simp add: o_def)
  moreover have "map (\<lambda>c. chunk_data (h c)) ?cs = map (\<lambda>l. block f (fst l)) ls"
    using arg_cong [OF h, of "map chunk_data"] names_chunk_loaded(5) [OF assms(3)] by (simp add: o_def)
  ultimately show ?thesis using r by simp
qed

section \<open>A turn of the loop\<close>

text \<open>Buffering is invisible while the input is short: a turn handles the datagram, then line after line.\<close>

lemma peer_turn_lines:
  assumes "length p + length fd \<le> 4096" and "0 \<notin> set (p @ fd)"
  shows "peer_turn config vars (Ready d (Some fd)) (holding p, w) =
    bind_result (case d of None \<Rightarrow> Inr w | Some (from, buf) \<Rightarrow> process_inbound_udp config from buf w) (\<lambda>w.
    bind_result (fold_result (handle_user_input config vars) (fst (split_lines (p @ fd))) w) (\<lambda>w.
      Inr (holding (snd (split_lines (p @ fd))), w)))"
  using process_user_input_lines [OF assms, of "handle_user_input config vars"]
  by (auto simp: peer_turn_def bind_result_def split: sum.splits option.splits)

text \<open>Without input a turn is at most one event.\<close>

fun turn_event :: "select_result \<Rightarrow> peer_event list option" where
  "turn_event (Ready None None) = Some []"
| "turn_event (Ready (Some (from, buf)) None) = Some [Datagram from buf]"
| "turn_event (Ready d (Some fd)) = None"
| "turn_event Timed_Out = Some [Timeout]"
| "turn_event Select_Error = Some []"

lemma peer_turn_ok:
  assumes "peer_turn config vars t (b, w) = Inr (b', w')" and "turn_event t \<noteq> None" and "peer_ok w"
  shows "peer_ok w'"
proof -
  obtain es where "turn_event t = Some es" using assms(2) by blast
  then have "fold_result (peer_step config) es w = Inr w'"
    using assms(1) by (cases t rule: turn_event.cases) (auto simp: peer_turn_def bind_result_eq_Inr)
  then show ?thesis using peer.run_inv assms(3) by blast
qed

lemma peer_run_ok:
  assumes "peer_run config vars turns w = Inr (b, w')" and "\<And>t. t \<in> set turns \<Longrightarrow> turn_event t \<noteq> None" and "peer_ok w"
  shows "peer_ok w'"
proof -
  have "peer_ok (snd (b, w'))"
    using assms(1) unfolding peer_run_def
    by (rule fold_result_invariant [where P = "\<lambda>st. peer_ok (snd st)"]) (use assms(2,3) peer_turn_ok in \<open>fastforce+\<close>)
  then show ?thesis by simp
qed

text \<open>A peer without transfers and missing chunks does nothing when \<open>select\<close> times out.\<close>

lemma idle_turns:
  assumes "server_transfers w = []" and "client_transfers w = []" and "missing_chunks w = []"
  shows "peer_run config vars [Timed_Out, Ready None None] w = Inr (create_userbuf, w)"
  using assms by (simp add: peer_run_def peer_turn_def handle_timeout_def handle_server_timeout_def handle_client_timeout_def)

section \<open>Properties\<close>

text \<open>
  Claim C10. A peer that starts on a consistent disk, whose has-chunk file lists chunks of the data file
  with a number below 256 and their SHA-1 hashes, loads exactly these chunks with their data and
  is then in its invariant: the invariant that every datagram, time-out and request keeps. This holds
  of a peer whose stack has at least one more byte behind the declared 40 bytes of the array \<open>hash\<close> of
  \<open>parse_chunkfile\<close>: the NUL of every line is written there, out of the bounds of the array, and without
  that byte the first line is a fault. The name of the data file has no white space and fits its buffer of 128 bytes and
  reading it does not fail.
\<close>

theorem setup_establishes_invariant:
  assumes "idle w" and "files w (has_chunk_file config) = Some (chunk_text ls)" and "\<And>l. l \<in> set ls \<Longrightarrow> names_chunk f l"
    and "files w (chunk_file config) = Some (master_text name rest)" and "files w (string_of_bytes name) = Some f"
    and "\<not> read_fails (string_of_bytes name)"
    and "name \<noteq> []" and "\<And>b. b \<in> set name \<Longrightarrow> \<not> isspace b \<and> b \<noteq> 0" and "length name < PATH_LEN"
    and "length buf = PATH_LEN" and "HEX_HASH_SIZE < length (snd vars)"
  shows "\<exists>w'. peer_setup read_fails vars buf config w = Inr w' \<and> peer_ok w' \<and>
    map (\<lambda>c. bin_hash (chunk_heap w' c)) (rev (have_chunks w')) = map (\<lambda>l. fips_sha1 (block f (fst l))) ls \<and>
    map (\<lambda>c. chunk_data (chunk_heap w' c)) (rev (have_chunks w')) = map (\<lambda>l. block f (fst l)) ls"
  using assms by (rule peer_setup_ok)

text \<open>A disk with a data file of one chunk of zeros.\<close>

definition demo_disk :: world where
  "demo_disk = initial_world\<lparr>files :=
     [''haschunks'' \<mapsto> chunk_text [(0, butlast (binary2hex (fips_sha1 (replicate BT_CHUNK_SIZE 0))))],
      ''chunkfile'' \<mapsto> master_text [68] [], ''D'' \<mapsto> replicate BT_CHUNK_SIZE 0]\<rparr>"

definition demo_lines :: "(nat \<times> byte list) list" where
  "demo_lines = [(0, butlast (binary2hex (fips_sha1 (replicate BT_CHUNK_SIZE 0))))]"

lemma demo_disk_facts:
  "idle demo_disk" "files demo_disk (has_chunk_file (testing_defaults bt_init)) = Some (chunk_text demo_lines)"
  "\<And>l. l \<in> set demo_lines \<Longrightarrow> names_chunk (replicate BT_CHUNK_SIZE 0) l"
  "files demo_disk (chunk_file (testing_defaults bt_init)) = Some (master_text [68] [])"
  "files demo_disk (string_of_bytes [68]) = Some (replicate BT_CHUNK_SIZE 0)" "\<not> (\<lambda>_. False) (string_of_bytes [68])"
  "[68 :: byte] \<noteq> []" "\<And>b :: byte. b \<in> set [68] \<Longrightarrow> \<not> isspace b \<and> b \<noteq> 0" "length [68 :: byte] < PATH_LEN"
  "length (replicate 128 (0 :: byte)) = PATH_LEN" "HEX_HASH_SIZE < length (snd (0 :: u32, replicate 48 (0 :: byte)))"
proof -
  let ?f = "replicate BT_CHUNK_SIZE (0 :: byte)"
  have "block ?f 0 = ?f" by (simp add: block_def)
  then show "names_chunk ?f l" if "l \<in> set demo_lines" for l
    using that binary2hex_text [of _ "fips_sha1 ?f"]
    by (auto simp: demo_lines_def names_chunk_def line_ok_def hex2binary_binary2hex length_binary2hex length_fips_sha1
        HEX_HASH_SIZE_def BIN_HASH_SIZE_def)
  have "string_of_bytes [68] = ''D''" by code_simp
  then show "files demo_disk (string_of_bytes [68]) = Some ?f" by (simp add: demo_disk_def)
qed (simp_all add: demo_disk_def demo_lines_def testing_defaults_def idle_def initial_world_def packet_arrays_def
    zero_packet_def isspace_def PATH_LEN_def HEX_HASH_SIZE_def)

theorem setup_establishes_invariant_witness:
  "\<exists>w'. peer_setup (\<lambda>_. False) (0, replicate 48 0) (replicate 128 0) (testing_defaults bt_init) demo_disk = Inr w' \<and> peer_ok w' \<and>
     map (\<lambda>c. chunk_data (chunk_heap w' c)) (rev (have_chunks w')) = [replicate BT_CHUNK_SIZE 0]"
  using setup_establishes_invariant [where read_fails = "\<lambda>_. False", OF demo_disk_facts]
  by (fastforce simp: demo_lines_def block_def)

text \<open>
  Claim C32. The array \<open>char hash[HEX_HASH_SIZE]\<close> of \<open>parse_chunkfile\<close> and of
  \<open>create_wanted_missing_list\<close> is one byte too short. When no other byte of the frame may be written
  behind it, any has-chunk file and any get-chunk file that begins with a complete line, a number and
  the 40 characters of a hash, makes \<open>sscanf\<close> write out of bounds: so does reading it as a chunk file,
  starting a peer on it, and requesting its chunks.
\<close>

theorem hash_array_overflows:
  assumes "line_ok l" and "files w name = Some (chunk_line l @ rest)" and "length (snd vars) \<le> HEX_HASH_SIZE"
  shows "parse_chunkfile vars lst name w = Inl Out_Of_Bounds \<and>
    peer_setup read_fails vars buf (config\<lparr>has_chunk_file := name\<rparr>) w = Inl Out_Of_Bounds \<and>
    process_get vars name out config w = Inl Out_Of_Bounds"
  using parse_chunkfile_overflow [OF assms] process_get_overflow [OF assms] by (simp add: peer_setup_def)

theorem hash_array_overflows_witness:
  "process_get (7, replicate 40 1) ''haschunks'' ''out'' bt_init demo_disk = Inl Out_Of_Bounds"
proof -
  let ?l = "(0 :: nat, butlast (binary2hex (fips_sha1 (replicate BT_CHUNK_SIZE 0))))"
  have "line_ok ?l" using demo_disk_facts(3) [of ?l] by (simp add: demo_lines_def names_chunk_def)
  moreover have "files demo_disk ''haschunks'' = Some (chunk_line ?l @ [])" by (simp add: demo_disk_def chunk_text_def)
  ultimately show ?thesis
    using hash_array_overflows [of ?l demo_disk "''haschunks''" "[]" "(7, replicate 40 1)"] by (simp add: HEX_HASH_SIZE_def)
qed

end
