(* ===== verification/Seeder.thy ===== *)
theory Seeder
  imports Datagrams Peer_Main
begin

text \<open>
  A peer that misses nothing: it keeps its chunks as they are and sends only what the serving side
  offers, through every datagram, time-out and turn of the main loop in \<^verbatim>\<open>src/code/peer.c\<close>.
\<close>

section \<open>Steps of a peer that only serves\<close>

definition keeps_stock :: "world \<Rightarrow> world \<Rightarrow> bool" where
  "keeps_stock w w' \<longleftrightarrow> have_chunks w' = have_chunks w \<and> missing_chunks w' = missing_chunks w \<and>
     (\<forall>c. chunk_data (chunk_heap w' c) = chunk_data (chunk_heap w c) \<and> bin_hash (chunk_heap w' c) = bin_hash (chunk_heap w c)) \<and>
     offers w w'"

lemma keeps_stock_refl [simp]: "keeps_stock w w"
  by (simp add: keeps_stock_def offers_nothing)

lemma keeps_stock_offer: "keeps_stock v w \<Longrightarrow> offer w = offer v"
  by (rule ext) (simp add: offer_def keeps_stock_def)

lemma keeps_stock_trans [trans]: "keeps_stock v w \<Longrightarrow> keeps_stock w w' \<Longrightarrow> keeps_stock v w'"
  using keeps_stock_offer [of v w] by (auto simp: keeps_stock_def offers_def)

lemma keeps_stock_server: "server_frame w w' \<Longrightarrow> offers w w' \<Longrightarrow> keeps_stock w w'"
  by (simp add: keeps_stock_def server_frame_def)

lemma no_client_transfers: "peer_ok w \<Longrightarrow> missing_chunks w = [] \<Longrightarrow> client_transfers w = []"
  by (cases "client_transfers w") (auto simp: peer_ok_def transfers_ok_def)

text \<open>The messages for a client are without effect: only \<open>IHAVE\<close> sets the timer of the peer.\<close>

lemma receive_IHAVE_idle:
  assumes "missing_chunks w = []" and r: "receive_IHAVE pack config from w = Inr w'"
  shows "keeps_stock w w'"
proof (cases "find_peer (peer_heap w) config from")
  case (Some p)
  let ?loop = "\<lambda>i w. bind_result (array_get (hash_list pack) i) (\<lambda>h. Inr (fold (ihave_chunk p h) (missing_chunks w) w))"
  from Some r obtain v x where v: "fold_result ?loop [0..<unat (hash_num pack)] w = Inr v"
    and u: "init_data_transfer (upd_peer p (\<lambda>x. x\<lparr>peer_timer := now_of v\<rparr>) (snd (millitime v))) = Inr (x, w')"
    by (auto simp: receive_IHAVE_def bind_result_eq_Inr Let_def millitime_def)
  have "v = w"
    by (rule fold_result_invariant [OF v, where P = "\<lambda>v. v = w"]) (use assms(1) in \<open>auto simp: bind_result_eq_Inr\<close>)
  then have "w' = upd_peer p (\<lambda>x. x\<lparr>peer_timer := now_of w\<rparr>) (snd (millitime w))"
    using u assms(1) by (simp add: init_data_transfer_def get_chunk_data_def world_defs)
  then show ?thesis by (simp add: keeps_stock_def world_defs offers_nothing)
qed (use r in \<open>simp add: receive_IHAVE_def\<close>)

lemma dispatch_idle:
  assumes ok: "peer_ok w" and none: "missing_chunks w = []" and r: "dispatch config from p pack w = Inr w'"
  shows "keeps_stock w w'"
proof -
  have srv: "server_ok w" and ct: "client_transfers w = []" using ok no_client_transfers [OF ok none] by (simp_all add: peer_ok_def)
  have "find_by_peer w (client_transfers w) q = None" for q by (simp add: ct find_by_peer_iff)
  then show ?thesis
    using r receive_WHOHAS_ok [OF srv] receive_GET_ok [OF srv] receive_ACK_ok [OF srv, of pack p] server_offers [OF srv]
      receive_IHAVE_idle [OF none]
    by (auto simp: dispatch_def receive_DENIED_def receive_DATA_def split: packet_type.splits option.splits
        intro: keeps_stock_server)
qed

lemma process_inbound_udp_idle:
  assumes ok: "peer_ok w" and none: "missing_chunks w = []" and r: "process_inbound_udp config from buf w = Inr w'"
  shows "keeps_stock w w'"
proof (cases "find_peer (peer_heap w) config from")
  case (Some p)
  let ?v = "upd_peer p (\<lambda>p. p\<lparr>peer_timer := now_of w, peer_timeout_count := 0\<rparr>) (snd (millitime w))"
  have v: "peer_ok ?v" "missing_chunks ?v = []" "keeps_stock w ?v"
    using peer_ok_touch [OF ok] none by (simp_all add: keeps_stock_def offers_nothing world_defs)
  from r Some consider "w' = ?v" | pack where "dispatch config from p pack ?v = Inr w'"
    by (auto simp: process_inbound_udp_def bind_result_eq_Inr Let_def millitime_def split: option.splits)
  then show ?thesis
    by cases (use v(3) in \<open>blast intro: keeps_stock_trans dispatch_idle [OF v(1,2)]\<close>)+
qed (use r in \<open>simp add: process_inbound_udp_def\<close>)

lemma handle_timeout_idle:
  assumes ok: "peer_ok w" and none: "missing_chunks w = []" and r: "handle_timeout config w = Inr w'"
  shows "keeps_stock w w'"
proof -
  have f: "server_frame w (handle_server_timeout w)" using handle_server_timeout_ok [of w] ok by (simp add: peer_ok_def)
  have "sent (handle_server_timeout w) = sent w" by (simp add: handle_server_timeout_def server_timeouts_sent)
  then have "keeps_stock w (handle_server_timeout w)" by (intro keeps_stock_server [OF f] offers_nothing)
  moreover have "w' = handle_server_timeout w"
    using r f none by (simp add: handle_timeout_def handle_client_timeout_def server_frame_def)
  ultimately show ?thesis by simp
qed

lemma peer_step_idle: "peer_ok w \<Longrightarrow> missing_chunks w = [] \<Longrightarrow> peer_step config e w = Inr w' \<Longrightarrow> keeps_stock w w'"
  by (cases e) (auto intro: process_inbound_udp_idle handle_timeout_idle)

section \<open>Turns of the main loop\<close>

lemma peer_events_idle:
  assumes "fold_result (peer_step config) es w = Inr w'" and "peer_ok w" and "missing_chunks w = []"
  shows "peer_ok w' \<and> keeps_stock w w'"
proof (rule fold_result_invariant [OF assms(1), where P = "\<lambda>v. peer_ok v \<and> keeps_stock w v"])
  show "peer_ok w2 \<and> keeps_stock w w2" if "peer_step config e w1 = Inr w2" "peer_ok w1 \<and> keeps_stock w w1" for e w1 w2
  proof -
    have "missing_chunks w1 = []" using that(2) assms(3) by (simp add: keeps_stock_def)
    then show ?thesis using that peer.step_inv peer_step_idle keeps_stock_trans by blast
  qed
qed (use assms(2) in simp)

lemma peer_run_idle:
  assumes "peer_run config vars turns w = Inr (b, w')" and "\<And>t. t \<in> set turns \<Longrightarrow> turn_event t \<noteq> None"
    and "peer_ok w" and "missing_chunks w = []"
  shows "peer_ok w' \<and> keeps_stock w w'"
proof -
  have turn: "peer_ok w2 \<and> keeps_stock w w2"
    if r: "peer_turn config vars t (b1, w1) = Inr (b2, w2)" and t: "turn_event t \<noteq> None" and ok: "peer_ok w1 \<and> keeps_stock w w1"
    for t b1 w1 b2 w2
  proof -
    obtain es where "turn_event t = Some es" using t by blast
    then have "fold_result (peer_step config) es w1 = Inr w2"
      using r by (cases t rule: turn_event.cases) (auto simp: peer_turn_def bind_result_eq_Inr)
    moreover have "missing_chunks w1 = []" using ok assms(4) by (simp add: keeps_stock_def)
    ultimately show ?thesis using ok peer_events_idle keeps_stock_trans by blast
  qed
  have "peer_ok (snd (b, w')) \<and> keeps_stock w (snd (b, w'))"
    using assms(1) unfolding peer_run_def
    by (rule fold_result_invariant [where P = "\<lambda>st. peer_ok (snd st) \<and> keeps_stock w (snd st)"])
       (use assms(2,3) turn in \<open>fastforce+\<close>)
  then show ?thesis by simp
qed

section \<open>From start-up on\<close>

text \<open>What a peer that serves the chunks \<open>ls\<close> of the file \<open>f\<close> may say.\<close>

definition says_of_file :: "byte list \<Rightarrow> (nat \<times> byte list) list \<Rightarrow> byte list \<Rightarrow> bool" where
  "says_of_file f ls m \<longleftrightarrow>
     (\<exists>l \<in> set ls. \<exists>i < MAX_SEQ_NUM. m = data_bytes (block f (fst l)) i) \<or>
     (\<exists>hs. set hs \<subseteq> (\<lambda>l. fips_sha1 (block f (fst l))) ` set ls \<and> m = hash_message IHAVE 0 hs)"

lemma seeder_run:
  assumes d: "idle w" "files w (has_chunk_file config) = Some (chunk_text ls)" "\<And>l. l \<in> set ls \<Longrightarrow> names_chunk f l"
    "files w (chunk_file config) = Some (master_text name rest)" "files w (string_of_bytes name) = Some f"
    "\<not> read_fails (string_of_bytes name)"
    "name \<noteq> []" "\<And>b. b \<in> set name \<Longrightarrow> \<not> isspace b \<and> b \<noteq> 0" "length name < PATH_LEN"
    "length buf = PATH_LEN" "HEX_HASH_SIZE < length (snd vars)"
    and turns: "\<And>t. t \<in> set turns \<Longrightarrow> turn_event t \<noteq> None"
    and r: "bind_result (peer_setup read_fails vars buf config w) (peer_run config vars turns) = Inr (b, w')"
  shows "peer_ok w'" and "\<exists>ms. sent w' = sent w @ ms \<and> (\<forall>x \<in> set ms. says_of_file f ls (snd x))"
    and "c \<in> set (have_chunks w') \<Longrightarrow> \<exists>l \<in> set ls. chunk_data (chunk_heap w' c) = block f (fst l) \<and>
      bin_hash (chunk_heap w' c) = fips_sha1 (block f (fst l))"
proof -
  let ?cs = "[chunk_top w..<chunk_top w + length ls]"
  from peer_setup_result [where read_fails = read_fails, OF d] obtain h v where s: "peer_setup read_fails vars buf config w = Inr v"
    and v: "v = w\<lparr>chunk_heap := h, chunk_top := chunk_top w + length ls, have_chunks := rev ?cs,
        clock_pos := Suc (clock_pos w), start_time := now_of w\<rparr>"
    and h: "map h ?cs = map (\<lambda>l. loaded f (chunk_of_line l)) ls" by blast
  have "peer_ok v" using peer_setup_ok [where read_fails = read_fails, OF d] s by auto
  moreover have "missing_chunks v = []" "sent v = sent w" using d(1) by (simp_all add: v idle_def)
  ultimately have run: "peer_ok w'" "keeps_stock v w'" using r s turns peer_run_idle by fastforce+
  then show "peer_ok w'" by simp
  have stock: "\<exists>l \<in> set ls. chunk_data (chunk_heap v c) = block f (fst l) \<and> bin_hash (chunk_heap v c) = fips_sha1 (block f (fst l))"
    if "c \<in> set (have_chunks v)" for c
  proof -
    have "h c \<in> set (map h ?cs)" using that by (simp add: v)
    then obtain l where "l \<in> set ls" "h c = loaded f (chunk_of_line l)" unfolding h by auto
    then show ?thesis using names_chunk_loaded(4,5) [OF d(3)] by (auto simp: v)
  qed
  then show "\<exists>l \<in> set ls. chunk_data (chunk_heap w' c) = block f (fst l) \<and> bin_hash (chunk_heap w' c) = fips_sha1 (block f (fst l))"
    if "c \<in> set (have_chunks w')"
    using that run(2) by (simp add: keeps_stock_def)
  have "says_of_file f ls m" if "offer v m" for m
    using that unfolding offer_def
  proof
    assume "\<exists>c \<in> set (have_chunks v). \<exists>i < MAX_SEQ_NUM. m = data_bytes (chunk_data (chunk_heap v c)) i"
    then show ?thesis using stock unfolding says_of_file_def by metis
  next
    assume "\<exists>hs. set hs \<subseteq> (\<lambda>c. bin_hash (chunk_heap v c)) ` set (have_chunks v) \<and> length hs \<le> MAX_HASH_IN_PACKET \<and> m = hash_message IHAVE 0 hs"
    then obtain hs where hs: "set hs \<subseteq> (\<lambda>c. bin_hash (chunk_heap v c)) ` set (have_chunks v)" "m = hash_message IHAVE 0 hs" by blast
    have "(\<lambda>c. bin_hash (chunk_heap v c)) ` set (have_chunks v) \<subseteq> (\<lambda>l. fips_sha1 (block f (fst l))) ` set ls"
      using stock by fastforce
    with hs(1) have "set hs \<subseteq> (\<lambda>l. fips_sha1 (block f (fst l))) ` set ls" by (rule order_trans)
    then show ?thesis using hs(2) unfolding says_of_file_def by blast
  qed
  then show "\<exists>ms. sent w' = sent w @ ms \<and> (\<forall>x \<in> set ms. says_of_file f ls (snd x))"
    using run(2) \<open>sent v = sent w\<close> by (fastforce simp: keeps_stock_def offers_def)
qed

end
