(* ===== verification/Endpoints.thy ===== *)
theory Endpoints
  imports Peer
begin

text \<open>
  The two sides of a download: a seeder that serves a chunk, and a leecher that fetches it. For each
  side, the predicate that describes how far it is (\<open>ready\<close> and \<open>streaming\<close>, \<open>asking\<close> and \<open>fetching\<close>,
  for a list of chunks \<open>asking_all\<close> and \<open>working\<close>), and for each datagram of the other side the
  handler's result, the next predicate and what is sent.
\<close>

section \<open>The seeder\<close>

text \<open>A clock that is read correctly and does not wrap while the transfer lasts.\<close>

definition steady :: "world \<Rightarrow> bool" where
  "steady w \<longleftrightarrow>
     (\<forall>i. 0 \<le> tv_usec (clock w i) \<and> tv_usec (clock w i) < 1000000) \<and>
     (\<forall>i j. i \<le> j \<longrightarrow> millitime_of (clock w i) \<le> millitime_of (clock w j))"

text \<open>
  The window grows at most with the time: 64 doubled once, and one packet every 200 milliseconds.
\<close>

definition flow_ok :: "world \<Rightarrow> tptr \<Rightarrow> bool" where
  "flow_ok w t \<longleftrightarrow>
     cc_ok (cc w t) \<and> 400 * unat (ssthresh (cc w t)) \<le> 25600 + unat (now_of w) \<and>
     1 \<le> unat (wind_size (cc w t)) \<and> 200 * unat (wind_size (cc w t)) \<le> 25600 + unat (now_of w) \<and>
     (congest_state (cc w t) = CA \<longrightarrow> 1 \<le> unat (start_wind_size (cc w t)) \<and> rtt_timer (cc w t) \<le> now_of w \<and>
        200 * unat (start_wind_size (cc w t)) \<le> 25600 + unat (rtt_timer (cc w t)))"

lemma steady_mono: "steady w \<Longrightarrow> i \<le> j \<Longrightarrow> millitime_of (clock w i) \<le> millitime_of (clock w j)"
  by (simp add: steady_def)

lemma steady_bound: "steady w \<Longrightarrow> unat (now_of w) < 1048576 * 1000"
  unfolding steady_def by (intro millitime_of_bound) auto

lemma congestion_clock: "clock_pos w \<le> clock_pos (congestion_control t w)"
  by (auto simp: congestion_defs split: CongestType.splits)

lemma flow_ok_ack:
  assumes f: "flow_ok w t" and s: "steady w"
  shows "flow_ok (congestion_control t w) t"
proof -
  let ?v = "congestion_control t w"
  have l: "local_to t w ?v" by (rule congestion_frame)
  have now: "now_of w \<le> now_of ?v" using steady_mono [OF s congestion_clock] by (simp add: local_toD [OF l])
  have ok: "cc_ok (cc w t)" "cc_ok (cc ?v t)" using f cc_ok_ack by (auto simp: flow_ok_def)
  have small: "(unat (now_of w) - x) div 200 \<le> 5242880" for x using steady_bound [OF s] by simp
  have "window_of (cc ?v t) = ack_spec (unat (now_of w)) (window_of (cc w t))"
    using f small [of "unat (rtt_timer (cc w t))"] steady_bound [OF s] by (intro ack_refines ok) (auto simp: flow_ok_def word_le_nat_alt)
  then show ?thesis
    using f ok now small [of "unat (rtt_timer (cc w t))"]
    by (cases "congest_state (cc w t)")
       (auto simp: flow_ok_def window_of_def ack_spec_def cc_ok_def word_le_nat_alt split: if_splits)
qed

lemma flow_ok_wind: "flow_ok w t \<Longrightarrow> steady w \<Longrightarrow> unat (wind_size (cc w t)) < 2 ^ 31"
  using steady_bound [of w] by (auto simp: flow_ok_def)

text \<open>
  The transfer \<open>t\<close> to peer \<open>p\<close> has sent the first \<open>n\<close> parts of \<open>d\<close>, of which \<open>a\<close> are acknowledged; it
  is always ahead of the acknowledgements until the last part.
\<close>

definition serving :: "world \<Rightarrow> pptr \<Rightarrow> tptr \<Rightarrow> byte list \<Rightarrow> nat \<Rightarrow> nat \<Rightarrow> world \<Rightarrow> bool" where
  "serving v0 p t d a n w \<longleftrightarrow>
     server_ok w \<and> steady w \<and> find_by_peer w (server_transfers w) p = Some t \<and> tr_peer (transfer_heap w t) = p \<and>
     chunk_data (transfer_chunk w t) = d \<and> cc_begin (cc w t) = of_nat a \<and> cc_index (cc w t) = of_nat n \<and>
     server_transfers v0 = remove1 t (server_transfers w) \<and> missing_chunks v0 = missing_chunks w \<and>
     a \<le> n \<and> n \<le> MAX_SEQ_NUM \<and> min MAX_SEQ_NUM (Suc a) \<le> n \<and> flow_ok w t"

text \<open>\<open>streaming\<close> is \<open>serving\<close> without duplicates and time-outs since the last acknowledgement.\<close>

definition streaming :: "world \<Rightarrow> pptr \<Rightarrow> tptr \<Rightarrow> byte list \<Rightarrow> nat \<Rightarrow> nat \<Rightarrow> world \<Rightarrow> bool" where
  "streaming v0 p t d a n w \<longleftrightarrow> serving v0 p t d a n w \<and> dup_count (cc w t) = 0 \<and> timeout_count (cc w t) = 0"

definition parts_to :: "sockaddr_in \<Rightarrow> byte list \<Rightarrow> nat \<Rightarrow> nat \<Rightarrow> (sockaddr_in \<times> byte list) list" where
  "parts_to a d m n = map (\<lambda>i. (a, data_bytes d i)) [m..<n]"

lemma parts_to_append: "m \<le> n \<Longrightarrow> n \<le> k \<Longrightarrow> parts_to a d m n @ parts_to a d n k = parts_to a d m k"
  using upt_add_eq_append [of m n "k - n"] by (simp add: parts_to_def flip: map_append)

lemma unat_small: "n \<le> MAX_SEQ_NUM \<Longrightarrow> unat (of_nat n :: u32) = n"
  by (simp add: unat_of_nat chunk_consts)

lemma flow_ok_frame:
  assumes "flow_ok w t" and "steady w" and "clock w' = clock w" and "clock_pos w \<le> clock_pos w'"
    and "(cc w' t)\<lparr>cc_begin := 0, cc_index := 0, dup_count := 0, timeout_count := 0\<rparr> =
         (cc w t)\<lparr>cc_begin := 0, cc_index := 0, dup_count := 0, timeout_count := 0\<rparr>"
  shows "flow_ok w' t"
proof -
  have "congest_state (cc w' t) = congest_state (cc w t)" "ssthresh (cc w' t) = ssthresh (cc w t)"
    "wind_size (cc w' t) = wind_size (cc w t)" "start_wind_size (cc w' t) = start_wind_size (cc w t)"
    "rtt_timer (cc w' t) = rtt_timer (cc w t)" "cc_rtt (cc w' t) = cc_rtt (cc w t)"
    using arg_cong [OF assms(5), of congest_state] arg_cong [OF assms(5), of ssthresh] arg_cong [OF assms(5), of wind_size]
      arg_cong [OF assms(5), of start_wind_size] arg_cong [OF assms(5), of rtt_timer] arg_cong [OF assms(5), of cc_rtt]
    by simp_all
  moreover have "now_of w \<le> now_of w'" using steady_mono [OF assms(2,4)] by (simp add: assms(3))
  ultimately show ?thesis using assms(1) by (auto simp: flow_ok_def cc_ok_def word_le_nat_alt)
qed

lemma find_by_peer_local: "local_to t w w' \<Longrightarrow> find_by_peer w' ts p = find_by_peer w ts p"
  by (simp add: find_by_peer_iff local_toD)

text \<open>The next acknowledgement lets the window move; at least one more part goes out.\<close>

lemma seeder_ack:
  assumes s: "streaming v0 p t d a n w" and a: "Suc a < MAX_SEQ_NUM" and k: "ack_num pack = of_nat (Suc a)"
  shows "\<exists>w' n'. receive_ACK pack p w = Inr w' \<and> streaming v0 p t d (Suc a) n' w' \<and> n \<le> n' \<and>
           sent w' = sent w @ parts_to (peer_addr (peer_heap w p)) d n n' \<and> peer_heap w' = peer_heap w"
proof -
  let ?ack = "of_nat (Suc a) :: u32"
  have n: "Suc a \<le> n" "n \<le> MAX_SEQ_NUM" using s a by (auto simp: streaming_def serving_def)
  have ix: "unat ?ack = Suc a" "unat (of_nat n :: u32) = n" "unat (of_nat a :: u32) = a"
    using n unat_small [of "Suc a"] unat_small [of n] unat_small [of a] by simp_all
  have ok: "server_ok w" and f: "find_by_peer w (server_transfers w) p = Some t" and st: "steady w"
    using s by (auto simp: streaming_def serving_def)
  have tin: "t \<in> set (server_transfers w)" using f by (auto dest: find_by_peer_SomeD)
  let ?a = "upd_cctrl t (\<lambda>c. c\<lparr>cc_begin := ?ack\<rparr>) w"
  define v where "v = congestion_control t ?a"
  have adj: "adjust_window t ?ack w = ?a"
    using s n ix by (auto simp: adjust_window_def Let_def world_defs streaming_def serving_def word_less_nat_alt)
  have l: "local_to t w v" unfolding v_def
    by (rule local_to_trans [OF _ congestion_frame(1)]) (rule local_to_intros)
  have fa: "flow_ok ?a t" by (rule flow_ok_frame [of w]) (use s in \<open>auto simp: streaming_def serving_def world_defs\<close>)
  have "steady ?a" using st by (simp add: steady_def world_defs)
  then have fv: "flow_ok v t" unfolding v_def using flow_ok_ack [OF fa] by simp
  have "steady v" using st by (simp add: steady_def local_toD [OF l])
  note small = flow_ok_wind [OF fv this]
  have pos: "cc_begin (cc v t) = ?ack" "cc_index (cc v t) = of_nat n"
    using congestion_position(1) [of t ?a] s by (auto simp: position_def world_defs v_def streaming_def serving_def)
  have sv: "sent v = sent w" unfolding v_def by (auto simp: congestion_defs split: CongestType.splits)
  have size: "length (chunk_data (transfer_chunk v t)) = BT_CHUNK_SIZE"
    using serves_chunk_sized [OF ok tin] by (simp add: local_toD [OF l])
  let ?n = "window_end (cc v t)"
  have wind: "unat (?ack + wind_size (cc v t)) = Suc a + unat (wind_size (cc v t))"
    using small a ix(1) by (subst unat_plus_simple [THEN iffD1]) (auto simp: chunk_consts word_le_nat_alt unat_word_ariths)
  have n': "n \<le> ?n" "?n \<le> MAX_SEQ_NUM" "min MAX_SEQ_NUM (Suc (Suc a)) \<le> ?n"
    using n fv wind ix by (auto simp: window_end_def pos flow_ok_def)
  let ?u = "sent_parts t ?n (upd_cctrl t (\<lambda>c. c\<lparr>dup_count := 0\<rparr>) v)"
  let ?r = "upd_transfer t (\<lambda>x. x\<lparr>timestamp := now_of v\<rparr>) (snd (millitime (upd_cctrl t (\<lambda>c. c\<lparr>timeout_count := 0\<rparr>) ?u)))"
  have "cc_begin (cc w t) < ?ack" "?ack \<noteq> of_nat MAX_SEQ_NUM"
    using s a ix unat_small [of MAX_SEQ_NUM] by (auto simp: streaming_def serving_def word_less_nat_alt)
  moreover have "send_DATA t v = Inr ?u" by (rule send_DATA_parts [OF size])
  ultimately have "ack_window t ?ack w = Inr ?u" "?ack \<noteq> of_nat MAX_SEQ_NUM"
    unfolding ack_window_def adj v_def [symmetric] by simp_all
  then have r: "receive_ACK pack p w = Inr ?r"
    using f k by (simp add: receive_ACK_def) (simp add: Let_def sent_parts_def world_defs)
  obtain w1 where "receive_ACK pack p w = Inr w1" "server_ok w1" using receive_ACK_ok [OF ok] by blast
  then have ok': "server_ok ?r" using r by simp
  have same: "clock ?r = clock v" "clock_pos v \<le> clock_pos ?r" "peer_heap ?r = peer_heap w" "server_transfers ?r = server_transfers w"
    "tr_peer (transfer_heap ?r t) = tr_peer (transfer_heap w t)" "transfer_chunk ?r t = transfer_chunk w t"
    "sent ?r = sent w @ parts_to (peer_addr (transfer_peer w t)) (chunk_data (transfer_chunk w t)) n ?n"
    "cc_begin (cc ?r t) = ?ack" "cc_index (cc ?r t) = of_nat ?n" "dup_count (cc ?r t) = 0" "timeout_count (cc ?r t) = 0"
    "missing_chunks ?r = missing_chunks w"
    by (simp_all add: sent_parts_def world_defs local_toD [OF l] pos sv ix parts_to_def)
  have fr: "flow_ok ?r t" and sr: "steady ?r"
    using fv st same(1,2) local_toD(1) [OF l]
    by (auto intro!: flow_ok_frame [OF fv] simp: steady_def sent_parts_def world_defs)
  have "local_to t w ?r"
    by (rule local_to_trans [OF l]) (rule local_toI, simp add: sent_parts_def world_defs)
  then have "find_by_peer ?r (server_transfers ?r) p = Some t"
    using f same(4) by (simp add: find_by_peer_local)
  then have "streaming v0 p t d (Suc a) ?n ?r"
    using ok' fr sr same n' n s by (simp add: streaming_def serving_def)
  then show ?thesis using r same(3,7) n'(1) s by (auto simp: streaming_def serving_def)
qed

lemma seeder_last_ack:
  assumes s: "streaming v0 p t d a n w" and k: "ack_num pack = of_nat MAX_SEQ_NUM"
  shows "\<exists>w'. receive_ACK pack p w = Inr w' \<and> server_ok w' \<and> server_frame w w' \<and> steady w' \<and>
           server_transfers w' = server_transfers v0 \<and> sent w' = sent w \<and>
           (\<forall>q. peer_addr (peer_heap w' q) = peer_addr (peer_heap w q))"
proof -
  have ok: "server_ok w" and r: "receive_ACK pack p w = Inr (delete_server_transfer t w)"
    using s k by (simp_all add: receive_ACK_def streaming_def serving_def)
  have "server_ok (delete_server_transfer t w) \<and> server_frame w (delete_server_transfer t w)"
    using delete_server_transfer_ok [OF ok] by blast
  with s show ?thesis
    by (intro exI [of _ "delete_server_transfer t w"] conjI r)
      (simp_all add: streaming_def serving_def steady_def delete_server_transfer_def delete_transfer_def world_defs)
qed

text \<open>What \<open>process_inbound_udp\<close> notes about the sender, whatever the datagram is.\<close>

definition touch :: "pptr \<Rightarrow> world \<Rightarrow> world" where
  "touch p w = upd_peer p (\<lambda>x. x\<lparr>peer_timer := now_of w, peer_timeout_count := 0\<rparr>) (snd (millitime w))"

lemma process_inbound_touch:
  "find_peer (peer_heap w) config from = Some p \<Longrightarrow> deserialize_packet buf = Inr (Some pack) \<Longrightarrow>
   process_inbound_udp config from buf w = dispatch config from p pack (touch p w)"
  by (simp add: process_inbound_udp_def touch_def millitime_def Let_def)

lemma touch_peers: "peer_id (peer_heap (touch p w) q) = peer_id (peer_heap w q)" "peer_addr (peer_heap (touch p w) q) = peer_addr (peer_heap w q)"
  by (simp_all add: touch_def world_defs)

lemma find_by_peer_touch: "find_by_peer (touch p w) ts q = find_by_peer w ts q"
  unfolding find_by_peer_iff touch_peers by (simp add: touch_def world_defs)

lemma find_peer_touch: "find_peer (peer_heap (touch p w)) config from = find_peer (peer_heap w) config from"
  unfolding find_peer_find touch_peers ..

lemma server_frame_touch: "server_frame w (touch p w)"
  by (simp add: server_frame_def) (simp add: touch_def world_defs)

lemma steady_touch: "steady w \<Longrightarrow> steady (touch p w)"
  by (simp add: steady_def touch_def world_defs)

lemma serving_touch:
  assumes "serving v0 p t d a n w"
  shows "serving v0 p t d a n (touch q w)"
proof -
  have "flow_ok (touch q w) t"
    by (rule flow_ok_frame [of w]) (use assms in \<open>auto simp: serving_def touch_def world_defs\<close>)
  moreover have "server_ok (touch q w)" using assms
    by (simp add: serving_def server_ok_def serves_def have_sized_def touch_def world_defs)
  ultimately show ?thesis using assms find_by_peer_touch steady_touch
    by (simp add: serving_def) (simp add: touch_def world_defs)
qed

lemma cc_touch [simp]: "cc (touch q w) t = cc w t"
  by (simp add: touch_def world_defs)

lemma streaming_touch: "streaming v0 p t d a n w \<Longrightarrow> streaming v0 p t d a n (touch q w)"
  by (simp add: streaming_def serving_touch)

section \<open>The leecher\<close>

definition ack_packet :: "nat \<Rightarrow> Packet" where
  "ack_packet m = zero_packet\<lparr>ptype := ACK, header_len := 16, packet_len := 16, ack_num := of_nat m\<rparr>"

definition ack_bytes :: "nat \<Rightarrow> byte list" where
  "ack_bytes m = header_bytes (ack_packet m)"

lemma deserialize_ack:
  "\<exists>pack. deserialize_packet (ack_bytes m @ junk) = Inr (Some pack) \<and> ptype pack = ACK \<and> ack_num pack = of_nat m"
  using deserialize_ack_bytes [of "ack_packet m" junk]
  by (simp add: ack_bytes_def ack_packet_def received_def has_hashes_def Let_def)

lemma send_ACK_eq:
  assumes "find_by_peer w (client_transfers w) p = Some t"
  shows "send_ACK p (of_nat m) w =
           Inr (emit (peer_addr (peer_heap w p)) (ack_bytes m) (upd_transfer t (\<lambda>x. x\<lparr>timestamp := now_of w\<rparr>) (snd (millitime w))))"
proof -
  let ?p = "(stack_packet w)\<lparr>ptype := ACK, header_len := of_nat STANDARD_HEADER_LEN, packet_len := of_nat STANDARD_HEADER_LEN,
     seq_num := 0, ack_num := of_nat m\<rparr>"
  have "header_bytes ?p = ack_bytes m"
    by (simp add: ack_bytes_def ack_packet_def header_bytes_def zero_packet_def packet_consts)
  then have "serialize_packet ?p = Inr (ack_bytes m)"
    by (simp add: serialize_ack mem_write_zeros packet_consts) (simp add: ack_bytes_def)
  then show ?thesis
    using assms by (simp add: send_ACK_def send_packet_to_peer_eq Let_def) (simp add: world_defs)
qed

text \<open>The first \<open>k\<close> parts of the missing chunk \<open>c\<close> have arrived, and nothing else of it.\<close>

definition fetching :: "nat \<Rightarrow> pptr \<Rightarrow> tptr \<Rightarrow> cptr \<Rightarrow> byte list \<Rightarrow> nat \<Rightarrow> world \<Rightarrow> bool" where
  "fetching e p t c d k w \<longleftrightarrow>
     peer_ok w \<and> find_by_peer w (client_transfers w) p = Some t \<and> tr_chunk (transfer_heap w t) = c \<and>
     bits (chunk_heap w c) = replicate k 1 @ replicate (MAX_SEQ_NUM - k) 0 \<and> k \<le> MAX_SEQ_NUM \<and>
     (\<forall>j < k. part (chunk_data (chunk_heap w c)) j = part d j) \<and>
     bin_hash (chunk_heap w c) = fips_sha1 d \<and> length d = BT_CHUNK_SIZE \<and> timeout_count (cc w t) = of_nat e \<and>
     (\<exists>i < clock_pos w. timestamp (transfer_heap w t) = millitime_of (clock w i))"

text \<open>What a data packet leaves alone until the chunk is complete.\<close>

definition same_request :: "world \<Rightarrow> world \<Rightarrow> bool" where
  "same_request w w' \<longleftrightarrow>
     missing_chunks w' = missing_chunks w \<and> wanted_chunks w' = wanted_chunks w \<and> files w' = files w \<and>
     user_output_filename w' = user_output_filename w \<and> server_transfers w' = server_transfers w \<and> clock w' = clock w \<and>
     (\<forall>c. bin_hash (chunk_heap w' c) = bin_hash (chunk_heap w c) \<and> chunk_id (chunk_heap w' c) = chunk_id (chunk_heap w c)) \<and>
     (\<forall>p. peer_id (peer_heap w' p) = peer_id (peer_heap w p) \<and> peer_addr (peer_heap w' p) = peer_addr (peer_heap w p))"

lemma same_request_refl [simp]: "same_request w w"
  by (simp add: same_request_def)

lemma same_request_trans [trans]: "same_request w w1 \<Longrightarrow> same_request w1 w2 \<Longrightarrow> same_request w w2"
  by (simp add: same_request_def)

lemma consec_prefix: "k \<le> MAX_SEQ_NUM \<Longrightarrow> consec_from (replicate k 1 @ replicate (MAX_SEQ_NUM - k) 0) 0 = k"
  by (subst consec_from_take) (simp_all add: takeWhile_append takeWhile_replicate)

lemma fetching_member: "fetching e p t c d k w \<Longrightarrow> t \<in> set (client_transfers w) \<and> c \<in> set (missing_chunks w) \<and> chunk_sized (chunk_heap w c)"
  by (auto simp: fetching_def peer_ok_def transfers_ok_def chunks_ok_def dest!: find_by_peer_SomeD)

lemma fetching_count: "fetching e p t c d k w \<Longrightarrow> bits_count (chunk_heap w c) = int k"
  using fetching_member [of e p t c d k w]
  by (auto simp: fetching_def peer_ok_def chunks_ok_def bits_counted_def)

lemma leecher_store:
  assumes f: "fetching e p t c d k w" and k: "k < MAX_SEQ_NUM"
  shows "\<exists>v. receive_DATA (data_packet d k) p w = (if Suc k = MAX_SEQ_NUM then finish_chunk t v else Inr v) \<and>
           fetching e p t c d (Suc k) v \<and> same_request w v \<and> clock_pos v = Suc (clock_pos w) \<and>
           sent v = sent w @ [(peer_addr (peer_heap w p), ack_bytes (Suc k))] \<and>
           (\<forall>x. x \<noteq> c \<longrightarrow> chunk_heap v x = chunk_heap w x) \<and> client_transfers v = client_transfers w \<and>
           have_chunks v = have_chunks w \<and> tr_peer (transfer_heap v t) = tr_peer (transfer_heap w t)"
proof -
  let ?x = "chunk_heap w c"
  have mem: "t \<in> set (client_transfers w)" "chunk_sized ?x" using fetching_member [OF f] by auto
  have ok: "peer_ok w" and fp: "find_by_peer w (client_transfers w) p = Some t" and c: "tr_chunk (transfer_heap w t) = c"
    and d: "length d = BT_CHUNK_SIZE" and hash: "bin_hash ?x = fips_sha1 d" and bits: "bits ?x = replicate k 1 @ replicate (MAX_SEQ_NUM - k) 0"
    using f by (auto simp: fetching_def)
  have seq: "unat (seq_num (data_packet d k) - 1) = k"
    using unat_small [of k] k by (simp add: data_packet_def)
  have fresh: "data_already_stored (data_packet d k) t w = Inr False"
    using k seq by (simp add: data_already_stored_def array_get_def c bits nth_append)
  obtain b where st: "data_store (data_packet d k) t w =
      Inr (upd_chunk c (\<lambda>x. x\<lparr>chunk_data := b, bits := (bits ?x)[k := 1], bits_count := bits_count x + 1\<rparr>) w)"
    (is "_ = Inr ?u")
    and b: "length b = BT_CHUNK_SIZE" "\<And>j. part b j = (if j = k then part d k else part (chunk_data ?x) j)"
    using data_store_part [of w t d k] mem(2) d k by (auto simp: c)
  have oku: "peer_ok ?u" using data_store_ok [OF ok mem(1) fresh st] .
  have bu: "(bits ?x)[k := 1] = replicate (Suc k) 1 @ replicate (MAX_SEQ_NUM - Suc k) 0"
  proof -
    have "replicate (MAX_SEQ_NUM - k) (0 :: byte) = 0 # replicate (MAX_SEQ_NUM - Suc k) 0"
      using k by (simp add: Suc_diff_Suc flip: replicate_Suc)
    then show ?thesis by (simp add: bits list_update_append replicate_append_same)
  qed
  have fu: "find_by_peer ?u (client_transfers ?u) p = Some t" using fp by (simp add: find_by_peer_iff world_defs)
  have cons: "data_find_largest_consec_seq t ?u = of_nat (Suc k)"
    using consec_prefix [of "Suc k"] k by (simp add: data_find_largest_consec_seq_def world_defs c bu)
  let ?v = "emit (peer_addr (peer_heap ?u p)) (ack_bytes (Suc k)) (upd_transfer t (\<lambda>x. x\<lparr>timestamp := now_of ?u\<rparr>) (snd (millitime ?u)))"
  have ack: "send_ACK p (of_nat (Suc k)) ?u = Inr ?v" by (rule send_ACK_eq [OF fu])
  have okv: "peer_ok ?v" using send_ACK_ok [OF oku ack] by simp
  have lv: "local_to t ?u ?v"
    by (rule local_to_trans [OF local_to_trans [OF _ local_to_intros(3)] local_to_intros(4)]) (rule local_to_intros)
  have parts: "part b j = part d j" if "j < Suc k" for j
    using b(2) [of j] that f by (cases "j = k") (auto simp: fetching_def)
  have chunk: "chunk_heap ?v c = ?x\<lparr>chunk_data := b, bits := (bits ?x)[k := 1], bits_count := bits_count ?x + 1\<rparr>"
    by (simp add: emit_def world_defs)
  have fv: "fetching e p t c d (Suc k) ?v"
    unfolding fetching_def
  proof (intro conjI)
    show "find_by_peer ?v (client_transfers ?v) p = Some t" using fu by (simp add: find_by_peer_local [OF lv] local_toD [OF lv])
    show "tr_chunk (transfer_heap ?v t) = c" using c by (simp add: emit_def world_defs)
    show "bin_hash (chunk_heap ?v c) = fips_sha1 d" unfolding chunk using hash by simp
    show "bits (chunk_heap ?v c) = replicate (Suc k) 1 @ replicate (MAX_SEQ_NUM - Suc k) 0" unfolding chunk using bu by simp
    show "\<forall>j < Suc k. part (chunk_data (chunk_heap ?v c)) j = part d j" unfolding chunk using parts by simp
    show "timeout_count (cc ?v t) = of_nat e" using f by (simp add: fetching_def emit_def world_defs)
    show "\<exists>i < clock_pos ?v. timestamp (transfer_heap ?v t) = millitime_of (clock ?v i)"
      by (intro exI [of _ "clock_pos w"]) (simp add: emit_def world_defs)
  qed (rule okv, use k d in simp_all)
  have all: "chunk_bits_all_received t ?v \<longleftrightarrow> Suc k = MAX_SEQ_NUM"
    using fetching_count [OF fv] fv by (simp add: chunk_bits_all_received_def fetching_def) linarith
  have "same_request w ?v" by (simp add: same_request_def emit_def world_defs)
  moreover have "sent ?v = sent w @ [(peer_addr (peer_heap w p), ack_bytes (Suc k))]" "clock_pos ?v = Suc (clock_pos w)"
    "\<forall>x. x \<noteq> c \<longrightarrow> chunk_heap ?v x = chunk_heap w x" "client_transfers ?v = client_transfers w" "have_chunks ?v = have_chunks w"
    "tr_peer (transfer_heap ?v t) = tr_peer (transfer_heap w t)"
    by (simp_all add: emit_def world_defs)
  moreover have "receive_DATA (data_packet d k) p w = (if Suc k = MAX_SEQ_NUM then finish_chunk t ?v else Inr ?v)"
    using fp fresh st ack cons all by (simp add: receive_DATA_def del: of_nat_Suc)
  ultimately show ?thesis using fv by blast
qed

text \<open>The last packet verifies the chunk and writes the file.\<close>

lemma leecher_finish:
  assumes f: "fetching e p t c d MAX_SEQ_NUM w" and m: "missing_chunks w = [c]"
  shows "\<exists>w' out. finish_chunk t w = Inr w' \<and> missing_chunks w' = [] \<and> sent w' = sent w \<and> clock_pos w' = clock_pos w \<and>
           user_output_filename w = Some out \<and> files w' out = Some (output_of (chunk_heap w) (wanted_chunks w)) \<and>
           chunk_data (chunk_heap w c) = d \<and> (\<forall>q. peer_addr (peer_heap w' q) = peer_addr (peer_heap w q))"
proof -
  have ok: "peer_ok w" and c: "tr_chunk (transfer_heap w t) = c" and hash: "bin_hash (chunk_heap w c) = fips_sha1 d"
    using f by (auto simp: fetching_def)
  have mem: "t \<in> set (client_transfers w)" "chunk_sized (chunk_heap w c)" using fetching_member [OF f] by auto
  have data: "chunk_data (chunk_heap w c) = d"
    by (rule file_by_parts) (use f mem in \<open>auto simp: fetching_def chunk_sized_def\<close>)
  let ?v = "w\<lparr>missing_chunks := [], have_chunks := c # have_chunks w\<rparr>"
  have val: "validate_chunk t w = Inr (True, ?v)"
    using validate_chunk_eq [OF ok mem(1)] data hash m by (simp add: c verified_def)
  obtain out g where names: "user_output_filename w = Some out" "user_get_chunk_file w = Some g"
    using ok m by (auto simp: peer_ok_def request_ok_def)
  let ?u = "?v\<lparr>files := (files w)(out \<mapsto> output_of (chunk_heap w) (wanted_chunks w)), got := got w @ [g],
     user_output_filename := None, user_get_chunk_file := None, wanted_chunks := []\<rparr>"
  have chk: "check_all_received ?v = Inr ?u"
    using names by (simp add: check_all_received_def construct_data_def output_of_def Let_def)
  have "init_data_transfer (delete_client_transfer t ?u) = Inr (EXIT_FAILURE, delete_client_transfer t ?u)"
    by (simp add: init_data_transfer_def get_chunk_data_def delete_client_transfer_def delete_transfer_def world_defs)
  then have "finish_chunk t w = Inr (delete_client_transfer t ?u)" by (simp add: finish_chunk_def val chk)
  then show ?thesis using names data by (simp add: delete_client_transfer_def delete_transfer_def world_defs)
qed

lemma fetching_touch: "fetching e p t c d k w \<Longrightarrow> fetching e p t c d k (touch q w)"
  using find_by_peer_touch [of q w] peer_ok_touch [of w]
  by (simp add: fetching_def) (auto simp: touch_def world_defs intro: less_SucI)

lemma same_request_touch: "same_request w (touch q w)" "sent (touch q w) = sent w"
  by (simp_all add: same_request_def touch_def world_defs)

section \<open>Opening the transfer\<close>

text \<open>A datagram with one hash.\<close>

lemma deserialize_hash:
  assumes "has_hashes ty" and "length h = BIN_HASH_SIZE"
  shows "\<exists>pack. deserialize_packet (hash_message ty seq [h] @ junk) = Inr (Some pack) \<and> ptype pack = ty \<and>
           hash_num pack = 1 \<and> length (hash_list pack) = MAX_HASH_IN_PACKET \<and> hash_list pack ! 0 = h"
proof -
  obtain pack where p: "deserialize_packet (hash_message ty seq [h] @ junk) = Inr (Some pack)" "ptype pack = ty"
    "unat (hash_num pack) = 1" "length (hash_list pack) = MAX_HASH_IN_PACKET" "take 1 (hash_list pack) = [h]"
    using deserialize_hashes [of ty "[h]" seq junk] assms by (auto simp: packet_consts chunk_consts)
  have "hash_list pack ! 0 = h" using p(5) by (cases "hash_list pack") auto
  moreover have "hash_num pack = 1" using p(3) by (simp add: word_unat_eq_iff)
  ultimately show ?thesis using p by blast
qed

text \<open>The seeder owns one chunk with the hash and can open another transfer.\<close>

definition ready :: "world \<Rightarrow> cptr \<Rightarrow> byte list \<Rightarrow> int \<Rightarrow> world \<Rightarrow> bool" where
  "ready v0 c d limit w \<longleftrightarrow>
     server_ok w \<and> steady w \<and> chunk_data (chunk_heap w c) = d \<and> length d = BT_CHUNK_SIZE \<and>
     filter (\<lambda>x. bin_hash (chunk_heap w x) = fips_sha1 d) (have_chunks w) = [c] \<and>
     find_by_chunk_hash w (server_transfers w) (fips_sha1 d) = None \<and> int (length (server_transfers w)) < limit \<and>
     server_transfers v0 = server_transfers w \<and> missing_chunks v0 = missing_chunks w"

lemma ready_touch: "ready v0 c d limit w \<Longrightarrow> ready v0 c d limit (touch p w)"
  using steady_touch [of w p]
  by (simp add: ready_def server_ok_def serves_def have_sized_def find_by_chunk_hash_iff) (simp add: touch_def world_defs)

lemma ready_emit: "ready v0 c d limit w \<Longrightarrow> ready v0 c d limit (emit a m w)"
  by (simp add: ready_def server_ok_def serves_def have_sized_def find_by_chunk_hash_iff steady_def emit_def)

lemma find_filter: "find P xs = (case filter P xs of [] \<Rightarrow> None | x # _ \<Rightarrow> Some x)"
  by (induction xs) auto

lemma ready_compare:
  assumes "ready v0 c d limit w" and "x \<in> set (have_chunks w)"
  shows "compare_bin_hash (bin_hash (chunk_heap w x)) (fips_sha1 d) \<longleftrightarrow> bin_hash (chunk_heap w x) = fips_sha1 d"
  using assms by (simp add: compare_bin_hash_iff length_fips_sha1 ready_def server_ok_def have_sized_def)

lemma seeder_whohas:
  assumes r: "ready v0 c d limit w" and "hash_num pack = 1" "length (hash_list pack) = MAX_HASH_IN_PACKET"
    and h: "hash_list pack ! 0 = fips_sha1 d"
  shows "receive_WHOHAS pack p w = Inr (emit (peer_addr (peer_heap w p)) (hash_message IHAVE 0 [fips_sha1 d]) w)"
proof -
  have "filter (\<lambda>x. compare_bin_hash (bin_hash (chunk_heap w x)) (fips_sha1 d)) (have_chunks w) =
      filter (\<lambda>x. bin_hash (chunk_heap w x) = fips_sha1 d) (have_chunks w)"
    using ready_compare [OF r] by (intro filter_cong) auto
  also have "\<dots> = [c]" using r by (simp add: ready_def)
  finally have f: "filter (\<lambda>x. compare_bin_hash (bin_hash (chunk_heap w x)) (fips_sha1 d)) (have_chunks w) = [c]" .
  then have "c \<in> set (filter (\<lambda>x. bin_hash (chunk_heap w x) = fips_sha1 d) (have_chunks w))" using r by (simp add: ready_def)
  then have "owned w (fips_sha1 d) = [fips_sha1 d]" by (simp add: owned_def f)
  moreover have "take 1 (hash_list pack) = [fips_sha1 d]"
    using assms(3) h by (cases "hash_list pack") (auto simp: packet_consts chunk_consts)
  moreover have "\<And>x. x \<in> set (have_chunks w) \<Longrightarrow> length (bin_hash (chunk_heap w x)) = BIN_HASH_SIZE"
    "packet_arrays (stack_packet w)"
    using r by (auto simp: ready_def server_ok_def have_sized_def)
  ultimately show ?thesis
    using assms(2,3) by (subst receive_WHOHAS_reply) (auto simp: packet_consts chunk_consts)
qed

lemma seeder_get:
  assumes r: "ready v0 c d limit w" and hl: "length (hash_list pack) = MAX_HASH_IN_PACKET" and h: "hash_list pack ! 0 = fips_sha1 d"
  shows "\<exists>w'. receive_GET pack p limit w = Inr w' \<and> streaming v0 p (transfer_top w) d 0 1 w' \<and>
           sent w' = sent w @ parts_to (peer_addr (peer_heap w p)) d 0 1 \<and>
           (\<forall>q. peer_addr (peer_heap w' q) = peer_addr (peer_heap w q))"
proof -
  let ?t = "transfer_top w"
  let ?w = "snd (create_transfer p c w)"
  let ?w1 = "?w\<lparr>server_transfers := ?t # server_transfers w\<rparr>"
  let ?v = "sent_parts ?t 1 (upd_cctrl ?t (\<lambda>c. c\<lparr>dup_count := 0\<rparr>) ?w1)"
  have "find (\<lambda>x. compare_chunk_by_bin_hash (chunk_heap w x) (fips_sha1 d)) (have_chunks w) =
      find (\<lambda>x. bin_hash (chunk_heap w x) = fips_sha1 d) (have_chunks w)"
    using ready_compare [OF r] by (intro find_cong) (auto simp: compare_chunk_by_bin_hash_def)
  also have "\<dots> = Some c" using r by (simp add: ready_def find_filter)
  finally have f: "find (\<lambda>x. compare_chunk_by_bin_hash (chunk_heap w x) (fips_sha1 d)) (have_chunks w) = Some c" .
  have "receive_GET pack p limit w = send_DATA ?t ?w1"
    using r hl h f by (simp add: receive_GET_def array_get_def packet_consts chunk_consts create_transfer_def Let_def world_defs ready_def)
  also have "\<dots> = Inr ?v"
    using r by (subst send_DATA_parts)
      (auto simp: create_transfer_def Let_def world_defs window_end_def zero_cctrl_def transfer_consts chunk_consts ready_def)
  finally have get: "receive_GET pack p limit w = Inr ?v" .
  have ok: "server_ok ?v" using receive_GET_ok [OF _ get] r by (simp add: ready_def)
  have c: "cc ?v ?t = zero_cctrl\<lparr>wind_size := 1, ssthresh := 64, cc_rtt := RTT, cc_index := 1\<rparr>"
    by (simp add: sent_parts_def create_transfer_def Let_def world_defs zero_cctrl_def transfer_consts)
  have "flow_ok ?v ?t" unfolding flow_ok_def c by (simp add: cc_ok_def zero_cctrl_def)
  moreover have "steady ?v"
    using r by (simp add: ready_def steady_def sent_parts_def create_transfer_def Let_def world_defs)
  moreover have "find_by_peer ?v (server_transfers ?v) p = Some ?t" "tr_peer (transfer_heap ?v ?t) = p"
    "chunk_data (transfer_chunk ?v ?t) = d" "server_transfers v0 = remove1 ?t (server_transfers ?v)"
    "missing_chunks v0 = missing_chunks ?v"
    using r by (simp_all add: find_by_peer_iff sent_parts_def create_transfer_def Let_def world_defs ready_def)
  ultimately have "streaming v0 p ?t d 0 1 ?v"
    using ok c by (simp add: streaming_def serving_def zero_cctrl_def chunk_consts)
  moreover have "sent ?v = sent w @ parts_to (peer_addr (peer_heap w p)) d 0 1" "\<forall>q. peer_addr (peer_heap ?v q) = peer_addr (peer_heap w q)"
    using r by (simp_all add: sent_parts_def parts_to_def create_transfer_def Let_def world_defs ready_def zero_cctrl_def)
  ultimately show ?thesis using get by blast
qed

text \<open>The leecher misses one chunk, has asked who owns it, and knows nobody yet.\<close>

definition asking :: "cptr \<Rightarrow> byte list \<Rightarrow> world \<Rightarrow> bool" where
  "asking c d w \<longleftrightarrow>
     peer_ok w \<and> missing_chunks w = [c] \<and> client_transfers w = [] \<and> chunk_peer (chunk_heap w c) = [] \<and>
     bits (chunk_heap w c) = replicate MAX_SEQ_NUM 0 \<and> bin_hash (chunk_heap w c) = fips_sha1 d \<and> length d = BT_CHUNK_SIZE"

lemma asking_touch: "asking c d w \<Longrightarrow> asking c d (touch p w)"
  using peer_ok_touch [of w] by (simp add: asking_def) (simp add: touch_def world_defs)

lemma send_GET_eq:
  assumes f: "find_by_peer w (client_transfers w) p = Some t" and stack: "packet_arrays (stack_packet w)" and h: "length h = BIN_HASH_SIZE"
  shows "send_GET p h 1 w = Inr (emit (peer_addr (peer_heap w p)) (hash_message GET 1 [h])
           (upd_transfer t (\<lambda>x. x\<lparr>timestamp := now_of w\<rparr>) (snd (millitime w))))"
proof -
  let ?hl = "(hash_list (stack_packet w))[0 := h]"
  let ?get = "(stack_packet w)\<lparr>ptype := GET, header_len := of_nat STANDARD_HEADER_LEN,
                packet_len := of_nat (STANDARD_HEADER_LEN + HEADER_PAD_LEN + BIN_HASH_SIZE),
                seq_num := 1, ack_num := 0, hash_num := 1, hash_list := ?hl\<rparr>"
  have room: "0 < length (hash_list (stack_packet w))" using stack by (simp add: packet_arrays_def packet_consts chunk_consts)
  have "packet_arrays ?get" using stack h by (auto simp: packet_arrays_def dest!: set_update_subset_insert [THEN subsetD])
  moreover have "take 1 ?hl = [h]" using room by (cases "hash_list (stack_packet w)") auto
  ultimately have "serialize_packet ?get = Inr (hash_message GET 1 [h])"
    using serialize_hash_message [of ?get "[h]"] by (simp add: has_hashes_def packet_consts chunk_consts)
  then show ?thesis
    using f room by (simp add: send_GET_def array_set_def send_packet_to_peer_eq Let_def) (simp add: world_defs)
qed

text \<open>Nothing is requested from a peer that is busy.\<close>

lemma get_chunk_loop_busy:
  assumes "\<And>x. x \<in> set cs \<Longrightarrow> chunk_peer (chunk_heap w x) = [p]" and "available (peer_heap w p) \<noteq> 1"
  shows "get_chunk_loop cs n w = Inr (n, w)"
  using assms(1)
proof (induction cs)
  case (Cons c cs)
  have "find_first_available_peer (peer_heap w) (chunk_heap w c) = None"
    using Cons.prems [of c] assms(2) by (simp add: find_first_available_peer_def)
  then show ?case using Cons by (simp add: Let_def)
qed simp

text \<open>The next request: a transfer for the first missing chunk, from the one peer that offers it.\<close>

definition opened :: "pptr \<Rightarrow> cptr \<Rightarrow> byte list \<Rightarrow> world \<Rightarrow> world" where
  "opened p c d w =
     (let v = (snd (create_transfer p c w))\<lparr>client_transfers := [transfer_top w]\<rparr>
      in emit (peer_addr (peer_heap w p)) (hash_message GET 1 [fips_sha1 d])
           (upd_transfer (transfer_top w) (\<lambda>x. x\<lparr>timestamp := now_of v\<rparr>) (snd (millitime v))))"

lemma request_next:
  assumes arr: "packet_arrays (stack_packet w)" and m: "missing_chunks w = c # cs" and idle: "client_transfers w = []"
    and offers: "\<And>x. x \<in> set (c # cs) \<Longrightarrow> chunk_peer (chunk_heap w x) = [p]" and av: "available (peer_heap w p) = 1"
    and h: "bin_hash (chunk_heap w c) = fips_sha1 d"
  shows "init_data_transfer w = Inr (EXIT_FAILURE, opened p c d w)"
proof -
  let ?h = "fips_sha1 d"
  let ?v = "(snd (create_transfer p c w))\<lparr>client_transfers := [transfer_top w]\<rparr>"
  have f: "find_by_peer ?v (client_transfers ?v) p = Some (transfer_top w)"
    by (simp add: find_by_peer_iff create_transfer_def Let_def world_defs)
  have same: "peer_addr (peer_heap ?v p) = peer_addr (peer_heap w p)" "packet_arrays (stack_packet ?v)"
    using arr by (simp_all add: create_transfer_def Let_def world_defs)
  have get: "send_GET p ?h 1 ?v = Inr (opened p c d w)"
    unfolding send_GET_eq [OF f same(2) length_fips_sha1] opened_def Let_def same(1) ..
  have after: "chunk_heap (opened p c d w) = chunk_heap w" "available (peer_heap (opened p c d w) p) = 0"
    by (simp_all add: opened_def create_transfer_def Let_def world_defs emit_def)
  have busy: "get_chunk_loop cs 1 (opened p c d w) = Inr (1, opened p c d w)"
    by (rule get_chunk_loop_busy [where p = p]) (use offers in \<open>simp_all add: after\<close>)
  have first: "find_first_available_peer (peer_heap w) (chunk_heap w c) = Some p"
    using offers [of c] av by (simp add: find_first_available_peer_def)
  have cr: "fst (create_transfer p c w) = transfer_top w" "client_transfers (snd (create_transfer p c w)) = []" "bin_hash (chunk_heap ?v c) = ?h"
    using idle h by (simp_all add: create_transfer_def Let_def world_defs prod_eq_iff)
  have "get_chunk_data w = get_chunk_loop (c # cs) 0 w"
    using m by (simp add: get_chunk_data_def)
  also have "\<dots> = bind_result (send_GET p ?h 1 ?v) (get_chunk_loop cs 1)"
    using h idle first cr by (simp add: find_by_chunk_hash_def Let_def split_def)
  finally show ?thesis using get busy by (simp add: init_data_transfer_def)
qed

lemma opened_facts:
  "find_by_peer (opened p c d w) (client_transfers (opened p c d w)) p = Some (transfer_top w)"
  "tr_chunk (transfer_heap (opened p c d w) (transfer_top w)) = c" "tr_peer (transfer_heap (opened p c d w) (transfer_top w)) = p"
  "timeout_count (cc (opened p c d w) (transfer_top w)) = 0"
  "\<exists>i < clock_pos (opened p c d w). timestamp (transfer_heap (opened p c d w) (transfer_top w)) = millitime_of (clock (opened p c d w) i)"
  "client_transfers (opened p c d w) = [transfer_top w]" "chunk_heap (opened p c d w) = chunk_heap w"
  "have_chunks (opened p c d w) = have_chunks w" "same_request w (opened p c d w)"
  "clock_pos (opened p c d w) = clock_pos w + 2"
  "sent (opened p c d w) = sent w @ [(peer_addr (peer_heap w p), hash_message GET 1 [fips_sha1 d])]"
proof -
  show "\<exists>i < clock_pos (opened p c d w). timestamp (transfer_heap (opened p c d w) (transfer_top w)) = millitime_of (clock (opened p c d w) i)"
    by (intro exI [of _ "Suc (clock_pos w)"]) (simp add: opened_def create_transfer_def Let_def world_defs emit_def)
qed (simp_all add: find_by_peer_iff same_request_def opened_def create_transfer_def Let_def world_defs emit_def zero_cctrl_def)

section \<open>A list of chunks\<close>

text \<open>Nothing of a chunk has arrived.\<close>

definition unfetched :: "byte list \<Rightarrow> chunk \<Rightarrow> bool" where
  "unfetched d x \<longleftrightarrow> bits x = replicate MAX_SEQ_NUM 0 \<and> bin_hash x = fips_sha1 d \<and> length d = BT_CHUNK_SIZE"

text \<open>The leecher misses the chunks of the list, has asked who owns them, and knows nobody yet.\<close>

definition asking_all :: "(cptr \<times> byte list) list \<Rightarrow> world \<Rightarrow> bool" where
  "asking_all todo w \<longleftrightarrow>
     peer_ok w \<and> missing_chunks w = map fst todo \<and> client_transfers w = [] \<and>
     (\<forall>(c, d) \<in> set todo. chunk_peer (chunk_heap w c) = [] \<and> unfetched d (chunk_heap w c))"

lemma asking_all_one: "asking_all [(c, d)] w \<longleftrightarrow> asking c d w"
  by (auto simp: asking_all_def asking_def unfetched_def)

text \<open>
  The leecher fetches chunk \<open>c\<close> from peer \<open>p\<close> and has its first \<open>k\<close> parts. It will fetch the chunks of
  \<open>rest\<close> from the same peer, and it has those of \<open>fin\<close>.
\<close>

definition working :: "pptr \<Rightarrow> tptr \<Rightarrow> cptr \<Rightarrow> byte list \<Rightarrow> nat \<Rightarrow> (cptr \<times> byte list) list \<Rightarrow> (cptr \<times> byte list) list \<Rightarrow> world \<Rightarrow> bool" where
  "working p t c d k rest fin w \<longleftrightarrow>
     fetching 0 p t c d k w \<and> tr_peer (transfer_heap w t) = p \<and> client_transfers w = [t] \<and> missing_chunks w = c # map fst rest \<and>
     (\<forall>(c, d) \<in> set rest. chunk_peer (chunk_heap w c) = [p] \<and> unfetched d (chunk_heap w c)) \<and>
     (\<forall>(c, d) \<in> set fin. c \<in> set (have_chunks w) \<and> chunk_data (chunk_heap w c) = d)"

lemma working_opened:
  assumes r: "init_data_transfer w = Inr (EXIT_FAILURE, opened p c d w)" and ok: "peer_ok w"
    and m: "missing_chunks w = c # map fst rest" and new: "unfetched d (chunk_heap w c)"
    and rest: "\<forall>(c, d) \<in> set rest. chunk_peer (chunk_heap w c) = [p] \<and> unfetched d (chunk_heap w c)"
    and fin: "\<forall>(c, d) \<in> set fin. c \<in> set (have_chunks w) \<and> chunk_data (chunk_heap w c) = d"
  shows "working p (transfer_top w) c d 0 rest fin (opened p c d w)"
proof -
  have "peer_ok (opened p c d w)" using init_data_transfer_ok [OF ok r] by simp
  moreover have "missing_chunks (opened p c d w) = missing_chunks w" using opened_facts(9) by (simp add: same_request_def)
  ultimately show ?thesis
    using opened_facts [where p = p and c = c and d = d and w = w] m new rest fin by (simp add: working_def fetching_def unfetched_def)
qed

text \<open>Noting the offers of an \<open>IHAVE\<close>.\<close>

lemma ihave_fold_none:
  "(\<And>x. x \<in> set cs \<Longrightarrow> \<not> compare_bin_hash (bin_hash (chunk_heap w x)) h) \<Longrightarrow> fold (ihave_chunk p h) cs w = w"
  by (induction cs) (simp_all add: ihave_chunk_def)

lemma ihave_fold_one:
  assumes "distinct cs" and "c \<in> set cs" and "chunk_peer (chunk_heap w c) = []"
    and "\<And>x. x \<in> set cs \<Longrightarrow> compare_bin_hash (bin_hash (chunk_heap w x)) h \<longleftrightarrow> x = c"
  shows "fold (ihave_chunk p h) cs w = upd_chunk c (\<lambda>x. x\<lparr>chunk_peer := [p]\<rparr>) w"
proof -
  obtain ys zs where cs: "cs = ys @ c # zs" using assms(2) by (auto simp: in_set_conv_decomp)
  let ?v = "upd_chunk c (\<lambda>x. x\<lparr>chunk_peer := [p]\<rparr>) w"
  have "fold (ihave_chunk p h) ys w = w" using assms(1,4) by (intro ihave_fold_none) (auto simp: cs)
  moreover have "ihave_chunk p h c w = ?v" using assms(2-4) by (simp add: ihave_chunk_def world_defs)
  moreover have "bin_hash (chunk_heap ?v x) = bin_hash (chunk_heap w x)" for x by (simp add: world_defs)
  then have "fold (ihave_chunk p h) zs ?v = ?v" using assms(1,4) by (intro ihave_fold_none) (auto simp: cs)
  ultimately show ?thesis by (simp add: cs)
qed

text \<open>All chunks of the list are offered by \<open>p\<close>.\<close>

definition offered :: "pptr \<Rightarrow> cptr set \<Rightarrow> world \<Rightarrow> world" where
  "offered p A w = w\<lparr>chunk_heap := (\<lambda>x. if x \<in> A then (chunk_heap w x)\<lparr>chunk_peer := [p]\<rparr> else chunk_heap w x)\<rparr>"

lemma ihave_all:
  assumes d: "distinct (missing_chunks w)" and cs: "set cs \<subseteq> set (missing_chunks w)" "distinct cs"
    and inj: "inj_on (\<lambda>x. bin_hash (chunk_heap w x)) (set (missing_chunks w))"
    and len: "\<And>x. x \<in> set (missing_chunks w) \<Longrightarrow> length (bin_hash (chunk_heap w x)) = BIN_HASH_SIZE"
    and none: "\<And>x. x \<in> set cs \<Longrightarrow> chunk_peer (chunk_heap w x) = []"
  shows "fold_result (\<lambda>h w. Inr (fold (ihave_chunk p h) (missing_chunks w) w)) (map (\<lambda>x. bin_hash (chunk_heap w x)) cs) w =
    Inr (offered p (set cs) w)"
  using cs none
proof (induction cs rule: rev_induct)
  case Nil
  then show ?case by (simp add: offered_def)
next
  case (snoc c cs)
  let ?v = "offered p (set cs) w"
  have hash: "bin_hash (chunk_heap ?v x) = bin_hash (chunk_heap w x)" for x by (simp add: offered_def)
  have c: "c \<in> set (missing_chunks w)" "c \<notin> set cs" using snoc.prems by auto
  have "fold (ihave_chunk p (bin_hash (chunk_heap w c))) (missing_chunks w) ?v = upd_chunk c (\<lambda>x. x\<lparr>chunk_peer := [p]\<rparr>) ?v"
  proof (rule ihave_fold_one [OF d c(1)])
    show "chunk_peer (chunk_heap ?v c) = []" using c(2) snoc.prems(3) by (simp add: offered_def)
    show "compare_bin_hash (bin_hash (chunk_heap ?v x)) (bin_hash (chunk_heap w c)) \<longleftrightarrow> x = c" if "x \<in> set (missing_chunks w)" for x
      using that c(1) len inj by (auto simp: hash compare_bin_hash_iff dest: inj_onD)
  qed
  also have "\<dots> = offered p (set (cs @ [c])) w"
    using c(2) by (simp add: offered_def upd_chunk_def fun_eq_iff)
  finally have last: "fold (ihave_chunk p (bin_hash (chunk_heap w c))) (missing_chunks w) ?v = offered p (set (cs @ [c])) w" .
  have "missing_chunks ?v = missing_chunks w" by (simp add: offered_def)
  then show ?case using snoc last by (simp add: fold_result_snoc)
qed

lemma leecher_ihave_all:
  assumes a: "asking_all ((c, d) # rest) w" and p: "find_peer (peer_heap w) config from = Some p" "available (peer_heap w p) = 1"
    and pk: "length (hash_list pack) = MAX_HASH_IN_PACKET" "take (unat (hash_num pack)) (hash_list pack) = map (\<lambda>(c, d). fips_sha1 d) ((c, d) # rest)"
      "unat (hash_num pack) \<le> MAX_HASH_IN_PACKET"
  shows "\<exists>w'. receive_IHAVE pack config from w = Inr w' \<and> working p (transfer_top w) c d 0 rest [] w' \<and> same_request w w' \<and>
           clock_pos w' = clock_pos w + 3 \<and>
           sent w' = sent w @ [(peer_addr (peer_heap w p), hash_message GET 1 [fips_sha1 d])]"
proof -
  let ?todo = "(c, d) # rest"
  have ok: "peer_ok w" and m: "missing_chunks w = map fst ?todo" and free: "client_transfers w = []"
    and new: "\<And>c d. (c, d) \<in> set ?todo \<Longrightarrow> chunk_peer (chunk_heap w c) = [] \<and> unfetched d (chunk_heap w c)"
    using a by (auto simp: asking_all_def)
  have hashes: "map (\<lambda>(c, d). fips_sha1 d) ?todo = map (\<lambda>x. bin_hash (chunk_heap w x)) (missing_chunks w)"
    using new by (force simp: m unfetched_def)
  let ?v = "offered p (set (missing_chunks w)) w"
  have "fold_result (\<lambda>h w. Inr (fold (ihave_chunk p h) (missing_chunks w) w)) (map (\<lambda>(c, d). fips_sha1 d) ?todo) w = Inr ?v"
    unfolding hashes
  proof (rule ihave_all)
    show "chunk_peer (chunk_heap w x) = []" if "x \<in> set (missing_chunks w)" for x using that new by (force simp: m)
  qed (use ok in \<open>auto simp: peer_ok_def chunks_ok_def chunk_sized_def\<close>)
  then have loop: "fold_result (\<lambda>i w. bind_result (array_get (hash_list pack) i) (\<lambda>h. Inr (fold (ihave_chunk p h) (missing_chunks w) w)))
      [0..<unat (hash_num pack)] w = Inr ?v"
    using fold_result_array [of "unat (hash_num pack)" "hash_list pack" "\<lambda>h w. Inr (fold (ihave_chunk p h) (missing_chunks w) w)" w] pk
    by (simp only:)
  let ?u = "upd_peer p (\<lambda>x. x\<lparr>peer_timer := now_of ?v\<rparr>) (snd (millitime ?v))"
  have oku: "peer_ok ?u" by (rule peer_ok_touch [OF peer_ok_core [OF ok]]) (auto simp: offered_def same_core_def same_content_def)
  have heap: "chunk_heap ?u x = (chunk_heap w x)\<lparr>chunk_peer := [p]\<rparr>" if "x \<in> set (missing_chunks w)" for x
    using that by (simp add: offered_def world_defs)
  have same: "missing_chunks ?u = map fst ?todo" "client_transfers ?u = []" "available (peer_heap ?u p) = 1"
    "packet_arrays (stack_packet ?u)" "transfer_top ?u = transfer_top w" "same_request w ?u" "clock_pos ?u = Suc (clock_pos w)"
    "sent ?u = sent w" "peer_addr (peer_heap ?u p) = peer_addr (peer_heap w p)"
    using m free p(2) ok by (simp_all add: offered_def world_defs peer_ok_def server_ok_def same_request_def)
  have q: "chunk_peer (chunk_heap ?u x) = [p] \<and> unfetched y (chunk_heap ?u x)" if "(x, y) \<in> set ?todo" for x y
  proof -
    have "x \<in> set (missing_chunks w)" using that by (force simp: m)
    then show ?thesis using new [OF that] by (simp add: heap unfetched_def)
  qed
  have init: "init_data_transfer ?u = Inr (EXIT_FAILURE, opened p c d ?u)"
  proof (rule request_next [OF same(4) _ same(2) _ same(3)])
    show "missing_chunks ?u = c # map fst rest" using same(1) by simp
    show "chunk_peer (chunk_heap ?u x) = [p]" if x: "x \<in> set (c # map fst rest)" for x
    proof -
      obtain y where "(x, y) \<in> set ?todo" using x by force
      then show ?thesis using q by blast
    qed
    show "bin_hash (chunk_heap ?u c) = fips_sha1 d" using q [of c d] by (simp add: unfetched_def)
  qed
  have "receive_IHAVE pack config from w = Inr (opened p c d ?u)"
    using p(1) loop init by (simp add: receive_IHAVE_def Let_def) (simp add: millitime_def)
  moreover have "working p (transfer_top ?u) c d 0 rest [] (opened p c d ?u)"
    by (rule working_opened [OF init oku]) (use same(1) q in auto)
  moreover have "same_request w (opened p c d ?u)" using same(6) opened_facts(9) by (rule same_request_trans)
  ultimately show ?thesis using opened_facts(10,11) [where p = p and c = c and d = d and w = ?u] same by (intro exI [of _ "opened p c d ?u"]) simp
qed

lemma leecher_ihave:
  assumes a: "asking c d w" and p: "find_peer (peer_heap w) config from = Some p" "available (peer_heap w p) = 1"
    and pk: "hash_num pack = 1" "length (hash_list pack) = MAX_HASH_IN_PACKET" "hash_list pack ! 0 = fips_sha1 d"
  shows "\<exists>w'. receive_IHAVE pack config from w = Inr w' \<and> fetching 0 p (transfer_top w) c d 0 w' \<and> same_request w w' \<and>
           clock_pos w' = clock_pos w + 3 \<and>
           sent w' = sent w @ [(peer_addr (peer_heap w p), hash_message GET 1 [fips_sha1 d])]"
proof -
  have "take 1 (hash_list pack) = [fips_sha1 d]" using pk(2,3) by (cases "hash_list pack") (auto simp: packet_consts chunk_consts)
  then show ?thesis
    using leecher_ihave_all [of c d "[]" w config "from" p pack] assms by (auto simp: asking_all_one working_def packet_consts chunk_consts)
qed

end
