(* ===== verification/Session.thy ===== *)
theory Session
  imports Endpoints
begin

text \<open>
  Two peers together: a seeder that owns a chunk and a leecher that asks for it, joined by a network
  that loses, changes and reorders nothing. Each of them runs \<open>process_inbound_udp\<close> on what the other
  one sent. The theory shows that the protocol makes progress: from every moment of a session, every fair
  schedule of deliveries ends with the chunk verified and the output file written.
\<close>

section \<open>Fair schedules\<close>

text \<open>
  A system whose every enabled step makes progress, and whose progress is bounded, comes to rest under
  every schedule that considers each kind of step often enough.
\<close>

locale fair_system =
  fixes step :: "'d \<Rightarrow> 's \<Rightarrow> 's result" and inv :: "'s \<Rightarrow> bool" and pending :: "'d \<Rightarrow> 's \<Rightarrow> bool"
    and progress :: "'s \<Rightarrow> nat" and bound :: nat
  assumes step_ok: "inv s \<Longrightarrow> \<exists>s'. step d s = Inr s' \<and> inv s' \<and> (if pending d s then progress s < progress s' else s' = s)"
    and bounded: "inv s \<Longrightarrow> progress s \<le> bound"
begin

lemma run_progress:
  assumes "inv s"
  shows "\<exists>s'. fold_result step ds s = Inr s' \<and> inv s' \<and>
           (progress s < progress s' \<or> s' = s \<and> (\<forall>d \<in> set ds. \<not> pending d s))"
  using assms
proof (induction ds arbitrary: s)
  case (Cons d ds)
  from step_ok [OF Cons.prems, of d] obtain t where t: "step d s = Inr t" "inv t"
    "if pending d s then progress s < progress t else t = s" by blast
  from Cons.IH [OF t(2)] obtain s' where "fold_result step ds t = Inr s'" "inv s'"
    "progress t < progress s' \<or> s' = t \<and> (\<forall>d \<in> set ds. \<not> pending d t)" by blast
  with t show ?case by (auto split: if_splits)
qed simp

lemma quiet_stays: "inv s \<Longrightarrow> \<forall>d. \<not> pending d s \<Longrightarrow> fold_result step ds s = Inr s"
proof (induction ds)
  case (Cons d ds)
  then have "step d s = Inr s" using step_ok [of s d] by auto
  with Cons show ?case by simp
qed simp

lemma run_rounds:
  assumes "inv s" and "\<And>r d. r \<in> set rs \<Longrightarrow> d \<in> set r"
  shows "\<exists>s'. fold_result step (concat rs) s = Inr s' \<and> inv s' \<and>
           (progress s + length rs \<le> progress s' \<or> (\<forall>d. \<not> pending d s'))"
  using assms
proof (induction rs arbitrary: s)
  case (Cons r rs)
  obtain t where t: "fold_result step r s = Inr t" "inv t"
    "progress s < progress t \<or> t = s \<and> (\<forall>d \<in> set r. \<not> pending d s)"
    using run_progress [OF Cons.prems(1), of r] by blast
  obtain s' where s': "fold_result step (concat rs) t = Inr s'" "inv s'"
    "progress t + length rs \<le> progress s' \<or> (\<forall>d. \<not> pending d s')"
    using Cons.IH [OF t(2)] Cons.prems(2) by auto
  have "s' = t" if "\<forall>d. \<not> pending d t"
    using quiet_stays [OF t(2) that] s'(1) by simp
  then have "progress s + length (r # rs) \<le> progress s' \<or> (\<forall>d. \<not> pending d s')"
    using t(3) s'(3) Cons.prems(2) by auto
  then show ?case using t(1) s'(1,2) by (simp add: fold_result_append)
qed simp

text \<open>More rounds than progress is possible bring the system to rest.\<close>

lemma fair_rest:
  assumes "inv s" and "\<And>r d. r \<in> set rs \<Longrightarrow> d \<in> set r" and "bound \<le> progress s + length rs"
  shows "\<exists>s'. fold_result step (concat rs) s = Inr s' \<and> inv s' \<and> (\<forall>d. \<not> pending d s')"
proof -
  obtain s' where s': "fold_result step (concat rs) s = Inr s'" "inv s'"
    "progress s + length rs \<le> progress s' \<or> (\<forall>d. \<not> pending d s')"
    using run_rounds [OF assms(1,2)] by blast
  have "\<not> pending d s'" for d
  proof
    assume p: "pending d s'"
    then obtain u where "inv u" "progress s' < progress u" using step_ok [OF s'(2), of d] by auto
    moreover have "bound \<le> progress s'" using p s'(3) assms(3) by auto
    ultimately show False using bounded [of u] by simp
  qed
  then show ?thesis using s' by blast
qed

end

section \<open>The network\<close>

text \<open>
  Each direction delivers the datagrams in the order they were sent; \<open>to_leecher\<close> and \<open>to_seeder\<close> count
  the delivered ones. \<open>fill\<close> is what the 1500-byte buffer holds behind a datagram.
\<close>

record network =
  seeder :: world
  leecher :: world
  to_leecher :: nat
  to_seeder :: nat

record addresses =
  seeder_config :: bt_config_t
  leecher_config :: bt_config_t
  seeder_addr :: sockaddr_in
  leecher_addr :: sockaddr_in
  fill :: "byte list \<Rightarrow> byte list"

datatype delivery = To_Leecher | To_Seeder

fun pending :: "delivery \<Rightarrow> network \<Rightarrow> bool" where
  "pending To_Leecher n \<longleftrightarrow> to_leecher n < length (sent (seeder n))"
| "pending To_Seeder n \<longleftrightarrow> to_seeder n < length (sent (leecher n))"

text \<open>
  The network has two ends: what one peer hands to its socket reaches the other one, with the sender's
  address, whatever destination it was sent to.
\<close>

fun deliver :: "addresses \<Rightarrow> delivery \<Rightarrow> network \<Rightarrow> network result" where
  "deliver adr To_Leecher n =
     (if pending To_Leecher n then
        let msg = snd (sent (seeder n) ! to_leecher n) in
        bind_result (process_inbound_udp (leecher_config adr) (seeder_addr adr) (msg @ fill adr msg) (leecher n))
          (\<lambda>w. Inr (n\<lparr>leecher := w, to_leecher := Suc (to_leecher n)\<rparr>))
      else Inr n)"
| "deliver adr To_Seeder n =
     (if pending To_Seeder n then
        let msg = snd (sent (leecher n) ! to_seeder n) in
        bind_result (process_inbound_udp (seeder_config adr) (leecher_addr adr) (msg @ fill adr msg) (seeder n))
          (\<lambda>w. Inr (n\<lparr>seeder := w, to_seeder := Suc (to_seeder n)\<rparr>))
      else Inr n)"

definition wire :: "world \<Rightarrow> byte list list" where
  "wire w = map snd (sent w)"

definition route :: "addresses \<Rightarrow> pptr \<Rightarrow> pptr \<Rightarrow> world \<Rightarrow> world \<Rightarrow> bool" where
  "route adr pl ps s l \<longleftrightarrow>
     find_peer (peer_heap s) (seeder_config adr) (leecher_addr adr) = Some pl \<and>
     find_peer (peer_heap l) (leecher_config adr) (seeder_addr adr) = Some ps"

lemma route_addr:
  assumes "route adr pl ps s l" and "\<And>p. peer_addr (peer_heap s' p) = peer_addr (peer_heap s p)"
    and "\<And>p. peer_addr (peer_heap l' p) = peer_addr (peer_heap l p)"
  shows "route adr pl ps s' l'"
  using assms by (simp add: route_def find_peer_find)

lemma deliver_to_seeder:
  assumes "route adr pl ps (seeder n) (leecher n)" and "to_seeder n < length (wire (leecher n))"
    and "deserialize_packet (wire (leecher n) ! to_seeder n @ fill adr (wire (leecher n) ! to_seeder n)) = Inr (Some pack)"
  shows "deliver adr To_Seeder n =
           bind_result (dispatch (seeder_config adr) (leecher_addr adr) pl pack (touch pl (seeder n)))
             (\<lambda>w. Inr (n\<lparr>seeder := w, to_seeder := Suc (to_seeder n)\<rparr>))"
  using assms by (simp add: route_def wire_def process_inbound_touch Let_def)

lemma deliver_to_leecher:
  assumes "route adr pl ps (seeder n) (leecher n)" and "to_leecher n < length (wire (seeder n))"
    and "deserialize_packet (wire (seeder n) ! to_leecher n @ fill adr (wire (seeder n) ! to_leecher n)) = Inr (Some pack)"
  shows "deliver adr To_Leecher n =
           bind_result (dispatch (leecher_config adr) (seeder_addr adr) ps pack (touch ps (leecher n)))
             (\<lambda>w. Inr (n\<lparr>leecher := w, to_leecher := Suc (to_leecher n)\<rparr>))"
  using assms by (simp add: route_def wire_def process_inbound_touch Let_def)

section \<open>The phases of a download\<close>

text \<open>The wanted chunks have different positions, which the 32-bit offset can reach.\<close>

definition positions_ok :: "world \<Rightarrow> bool" where
  "positions_ok w \<longleftrightarrow>
     distinct (map (\<lambda>c. unat (chunk_id (chunk_heap w c))) (wanted_chunks w)) \<and>
     (\<forall>c \<in> set (wanted_chunks w). unat (chunk_id (chunk_heap w c)) < 8192)"

text \<open>
  The request of the world \<open>w0\<close> is served in \<open>w\<close>: the output file has the data \<open>d\<close> at the position of
  the missing chunk, and the data of the right hash at the position of every wanted chunk.
\<close>

definition downloaded :: "cptr \<Rightarrow> byte list \<Rightarrow> world \<Rightarrow> world \<Rightarrow> bool" where
  "downloaded c d w0 w \<longleftrightarrow>
     missing_chunks w = [] \<and>
     (\<exists>out f. user_output_filename w0 = Some out \<and> files w out = Some f \<and>
        block f (unat (chunk_id (chunk_heap w0 c))) = d \<and>
        (\<forall>x \<in> set (wanted_chunks w0). fips_sha1 (block f (unat (chunk_id (chunk_heap w0 x)))) = bin_hash (chunk_heap w0 x)))"

definition whohas_msg :: "byte list \<Rightarrow> byte list" where "whohas_msg d = hash_message WHOHAS 0 [fips_sha1 d]"
definition ihave_msg :: "byte list \<Rightarrow> byte list" where "ihave_msg d = hash_message IHAVE 0 [fips_sha1 d]"
definition get_msg :: "byte list \<Rightarrow> byte list" where "get_msg d = hash_message GET 1 [fips_sha1 d]"

text \<open>
  The datagrams in flight on one direction: what was sent after the first \<open>n\<close> datagrams. Parts \<open>k\<close> up
  to \<open>m\<close> of the data, and the acknowledgements between \<open>a\<close> and \<open>k\<close>.
\<close>

definition in_flight :: "nat \<Rightarrow> byte list list \<Rightarrow> byte list list \<Rightarrow> bool" where
  "in_flight n msgs rest \<longleftrightarrow> n \<le> length msgs \<and> drop n msgs = rest"

definition data_run :: "byte list \<Rightarrow> nat \<Rightarrow> nat \<Rightarrow> byte list list" where "data_run d k m = map (data_bytes d) [k..<m]"
definition ack_run :: "nat \<Rightarrow> nat \<Rightarrow> byte list list" where "ack_run a k = map ack_bytes [Suc a..<Suc k]"

text \<open>
  The phase of a download: the two peers, and how many datagrams each of them received. The seeder
  started as \<open>v0\<close>, the leecher as \<open>w0\<close>; the leecher's transfer has timed out \<open>e\<close> times; \<open>bl\<close> datagrams
  to the leecher and \<open>bs\<close> to the seeder are not counted as progress.
\<close>

inductive phase :: "addresses \<Rightarrow> pptr \<Rightarrow> pptr \<Rightarrow> cptr \<Rightarrow> cptr \<Rightarrow> byte list \<Rightarrow> world \<Rightarrow> world \<Rightarrow> nat \<Rightarrow> nat \<Rightarrow> nat \<Rightarrow>
    world \<Rightarrow> world \<Rightarrow> nat \<Rightarrow> nat \<Rightarrow> bool"
  for adr pl ps cs c d v0 w0 e bl bs
where
  Asked: "ready v0 cs d (max_conn (seeder_config adr)) s \<Longrightarrow> asking c d l \<Longrightarrow> available (peer_heap l ps) = 1 \<Longrightarrow>
    same_request w0 l \<Longrightarrow> e = 0 \<Longrightarrow> in_flight nl (wire s) [] \<Longrightarrow> in_flight ns (wire l) [whohas_msg d] \<Longrightarrow>
    nl = bl \<Longrightarrow> ns = bs \<Longrightarrow> phase adr pl ps cs c d v0 w0 e bl bs s l nl ns"
| Answered: "ready v0 cs d (max_conn (seeder_config adr)) s \<Longrightarrow> asking c d l \<Longrightarrow> available (peer_heap l ps) = 1 \<Longrightarrow>
    same_request w0 l \<Longrightarrow> e = 0 \<Longrightarrow> in_flight nl (wire s) [ihave_msg d] \<Longrightarrow> in_flight ns (wire l) [] \<Longrightarrow>
    nl = bl \<Longrightarrow> ns = bs + 1 \<Longrightarrow> phase adr pl ps cs c d v0 w0 e bl bs s l nl ns"
| Requested: "ready v0 cs d (max_conn (seeder_config adr)) s \<Longrightarrow> fetching e ps u c d 0 l \<Longrightarrow> same_request w0 l \<Longrightarrow>
    in_flight nl (wire s) [] \<Longrightarrow> in_flight ns (wire l) [get_msg d] \<Longrightarrow>
    nl = bl + 1 \<Longrightarrow> ns = bs + 1 \<Longrightarrow> phase adr pl ps cs c d v0 w0 e bl bs s l nl ns"
| Streaming: "streaming v0 pl t d a m s \<Longrightarrow> fetching e ps u c d k l \<Longrightarrow> same_request w0 l \<Longrightarrow>
    a \<le> k \<Longrightarrow> k \<le> m \<Longrightarrow> k < MAX_SEQ_NUM \<Longrightarrow>
    in_flight nl (wire s) (data_run d k m) \<Longrightarrow> in_flight ns (wire l) (ack_run a k) \<Longrightarrow>
    nl = bl + 1 + k \<Longrightarrow> ns = bs + 2 + a \<Longrightarrow> phase adr pl ps cs c d v0 w0 e bl bs s l nl ns"
| Complete: "streaming v0 pl t d a MAX_SEQ_NUM s \<Longrightarrow> downloaded c d w0 l \<Longrightarrow> a < MAX_SEQ_NUM \<Longrightarrow>
    in_flight nl (wire s) [] \<Longrightarrow> in_flight ns (wire l) (ack_run a MAX_SEQ_NUM) \<Longrightarrow>
    nl = bl + 1 + MAX_SEQ_NUM \<Longrightarrow> ns = bs + 2 + a \<Longrightarrow> phase adr pl ps cs c d v0 w0 e bl bs s l nl ns"
| Closed: "downloaded c d w0 l \<Longrightarrow> in_flight nl (wire s) [] \<Longrightarrow> in_flight ns (wire l) [] \<Longrightarrow>
    nl = bl + 1 + MAX_SEQ_NUM \<Longrightarrow> ns = bs + 2 + MAX_SEQ_NUM \<Longrightarrow> phase adr pl ps cs c d v0 w0 e bl bs s l nl ns"

lemma wire_append: "sent w' = sent w @ xs \<Longrightarrow> wire w' = wire w @ map snd xs"
  by (simp add: wire_def)

lemma clock_touch: "clock_pos (touch p w) = Suc (clock_pos w)"
  by (simp add: touch_def world_defs)

lemma wire_touch: "wire (touch p w) = wire w"
  by (simp add: wire_def touch_def world_defs)

lemma in_flight_pending: "in_flight n msgs rest \<Longrightarrow> n < length msgs \<longleftrightarrow> rest \<noteq> []"
  by (auto simp: in_flight_def)

lemma in_flight_next: "in_flight n msgs (m # rest) \<Longrightarrow> msgs ! n = m \<and> in_flight (Suc n) msgs rest"
  by (cases "n < length msgs") (auto simp: in_flight_def Suc_le_eq drop_Suc nth_via_drop drop_tl)

lemma in_flight_append: "in_flight n msgs rest \<Longrightarrow> in_flight n (msgs @ ms) (rest @ ms)"
  by (auto simp: in_flight_def)

lemma data_run_append: "k \<le> m \<Longrightarrow> m \<le> n \<Longrightarrow> data_run d k m @ data_run d m n = data_run d k n"
  using upt_add_eq_append [of k m "n - m"] by (simp add: data_run_def flip: map_append)

lemma run_simps [simp]: "data_run d k k = []" "ack_run a a = []"
  "k < m \<Longrightarrow> data_run d k m = data_bytes d k # data_run d (Suc k) m"
  "a < k \<Longrightarrow> ack_run a k = ack_bytes (Suc a) # ack_run (Suc a) k"
  by (simp_all add: data_run_def ack_run_def upt_conv_Cons del: upt_Suc)

lemma ack_run_Suc: "a \<le> k \<Longrightarrow> ack_run a (Suc k) = ack_run a k @ [ack_bytes (Suc k)]"
  by (simp add: ack_run_def)

lemma parts_to_wire: "map snd (parts_to a d m n) = data_run d m n"
  by (simp add: parts_to_def data_run_def)

text \<open>What the output file holds when the last missing chunk is verified.\<close>

lemma output_verified:
  assumes ok: "peer_ok w" and m: "missing_chunks w = [c]" and v: "verified (chunk_heap w c)" and pos: "positions_ok w"
    and x: "x \<in> set (wanted_chunks w)"
  shows "block (output_of (chunk_heap w) (wanted_chunks w)) (unat (chunk_id (chunk_heap w x))) = chunk_data (chunk_heap w x) \<and>
         verified (chunk_heap w x)"
proof -
  have all: "chunk_sized (chunk_heap w y) \<and> verified (chunk_heap w y)" if "y \<in> set (wanted_chunks w)" for y
    using that ok m v unfolding peer_ok_def chunks_ok_def by auto
  then show ?thesis
    using output_blocks [of "chunk_heap w" "wanted_chunks w" x] pos x by (auto simp: positions_ok_def chunk_sized_def)
qed

text \<open>The last data packet turns \<open>Streaming\<close> into \<open>Complete\<close>.\<close>

lemma finish_downloaded:
  assumes f: "fetching e p t c d MAX_SEQ_NUM w" and same: "same_request w0 w" and m: "missing_chunks w0 = [c]"
    and c: "c \<in> set (wanted_chunks w0)" and pos: "positions_ok w0"
  shows "\<exists>w'. finish_chunk t w = Inr w' \<and> downloaded c d w0 w' \<and> sent w' = sent w \<and> clock_pos w' = clock_pos w \<and>
           (\<forall>q. peer_addr (peer_heap w' q) = peer_addr (peer_heap w q))"
proof -
  have same': "missing_chunks w = [c]" "wanted_chunks w = wanted_chunks w0" "user_output_filename w = user_output_filename w0"
    "bin_hash (chunk_heap w x) = bin_hash (chunk_heap w0 x)" "chunk_id (chunk_heap w x) = chunk_id (chunk_heap w0 x)" for x
    using same m by (simp_all add: same_request_def)
  obtain w' out where w': "finish_chunk t w = Inr w'" "missing_chunks w' = []" "sent w' = sent w" "clock_pos w' = clock_pos w"
    "user_output_filename w = Some out" "files w' out = Some (output_of (chunk_heap w) (wanted_chunks w))"
    and data: "chunk_data (chunk_heap w c) = d" and addr: "\<forall>q. peer_addr (peer_heap w' q) = peer_addr (peer_heap w q)"
    using leecher_finish [OF f same'(1)] by blast
  have ok: "peer_ok w" and ver: "verified (chunk_heap w c)" using f data by (auto simp: fetching_def verified_def)
  have "positions_ok w" using pos by (simp add: positions_ok_def same')
  from output_verified [OF ok same'(1) ver this] have "downloaded c d w0 w'" unfolding downloaded_def
    using w' c data same' by (auto simp: verified_def)
  then show ?thesis using w' addr by blast
qed

definition session :: "addresses \<Rightarrow> pptr \<Rightarrow> pptr \<Rightarrow> cptr \<Rightarrow> cptr \<Rightarrow> byte list \<Rightarrow> world \<Rightarrow> world \<Rightarrow> nat \<Rightarrow> nat \<Rightarrow> nat \<Rightarrow> network \<Rightarrow> bool" where
  "session adr pl ps cs c d v0 w0 e bl bs n \<longleftrightarrow>
     route adr pl ps (seeder n) (leecher n) \<and>
     phase adr pl ps cs c d v0 w0 e bl bs (seeder n) (leecher n) (to_leecher n) (to_seeder n)"

lemma pending_wire:
  "pending To_Leecher n \<longleftrightarrow> to_leecher n < length (wire (seeder n))"
  "pending To_Seeder n \<longleftrightarrow> to_seeder n < length (wire (leecher n))"
  by (simp_all add: wire_def)

text \<open>What each peer makes of a datagram: the state it is left in, with the addresses it knows unchanged.\<close>

definition seeder_takes :: "addresses \<Rightarrow> pptr \<Rightarrow> byte list \<Rightarrow> world \<Rightarrow> world \<Rightarrow> bool" where
  "seeder_takes adr pl msg s w \<longleftrightarrow>
     (\<exists>pack. deserialize_packet (msg @ fill adr msg) = Inr (Some pack) \<and>
        dispatch (seeder_config adr) (leecher_addr adr) pl pack (touch pl s) = Inr w) \<and>
     (\<forall>q. peer_addr (peer_heap w q) = peer_addr (peer_heap s q))"

definition leecher_takes :: "addresses \<Rightarrow> pptr \<Rightarrow> byte list \<Rightarrow> world \<Rightarrow> world \<Rightarrow> bool" where
  "leecher_takes adr ps msg l w \<longleftrightarrow>
     (\<exists>pack. deserialize_packet (msg @ fill adr msg) = Inr (Some pack) \<and>
        dispatch (leecher_config adr) (seeder_addr adr) ps pack (touch ps l) = Inr w) \<and>
     (\<forall>q. peer_addr (peer_heap w q) = peer_addr (peer_heap l q)) \<and> clock_pos w \<le> clock_pos l + 4"

lemma seeder_takes_whohas:
  assumes "ready v0 cs d (max_conn (seeder_config adr)) s"
  shows "\<exists>w. seeder_takes adr pl (whohas_msg d) s w \<and> ready v0 cs d (max_conn (seeder_config adr)) w \<and>
           wire w = wire s @ [ihave_msg d]"
proof -
  obtain pack where pk: "deserialize_packet (whohas_msg d @ fill adr (whohas_msg d)) = Inr (Some pack)" "ptype pack = WHOHAS"
    "hash_num pack = 1" "length (hash_list pack) = MAX_HASH_IN_PACKET" "hash_list pack ! 0 = fips_sha1 d"
    using deserialize_hash [of WHOHAS "fips_sha1 d" 0] by (auto simp: whohas_msg_def has_hashes_def length_fips_sha1)
  let ?w = "emit (peer_addr (peer_heap (touch pl s) pl)) (ihave_msg d) (touch pl s)"
  note r = ready_touch [OF assms, of pl]
  have "dispatch (seeder_config adr) (leecher_addr adr) pl pack (touch pl s) = Inr ?w"
    using seeder_whohas [OF r pk(3-5)] pk(2) by (simp add: dispatch_def ihave_msg_def)
  then have "seeder_takes adr pl (whohas_msg d) s ?w"
    unfolding seeder_takes_def using pk(1) touch_peers(2) by (auto simp: emit_def)
  moreover have "wire ?w = wire s @ [ihave_msg d]" by (simp add: wire_def emit_def touch_def world_defs)
  ultimately show ?thesis using ready_emit [OF r] by blast
qed

lemma seeder_takes_get:
  assumes "ready v0 cs d (max_conn (seeder_config adr)) s"
  shows "\<exists>w t. seeder_takes adr pl (get_msg d) s w \<and> streaming v0 pl t d 0 1 w \<and> server_frame s w \<and> wire w = wire s @ data_run d 0 1"
proof -
  obtain pack where pk: "deserialize_packet (get_msg d @ fill adr (get_msg d)) = Inr (Some pack)" "ptype pack = GET"
    "length (hash_list pack) = MAX_HASH_IN_PACKET" "hash_list pack ! 0 = fips_sha1 d"
    using deserialize_hash [of GET "fips_sha1 d" 1] by (auto simp: get_msg_def has_hashes_def length_fips_sha1)
  obtain w t where w: "receive_GET pack pl (max_conn (seeder_config adr)) (touch pl s) = Inr w" "streaming v0 pl t d 0 1 w"
    "sent w = sent (touch pl s) @ parts_to (peer_addr (peer_heap (touch pl s) pl)) d 0 1"
    "\<forall>q. peer_addr (peer_heap w q) = peer_addr (peer_heap (touch pl s) q)"
    using seeder_get [OF ready_touch [OF assms] pk(3,4)] by blast
  have "seeder_takes adr pl (get_msg d) s w"
    unfolding seeder_takes_def dispatch_def using pk(1,2) w(1,4) touch_peers(2) by auto
  moreover have "server_frame s w"
    using receive_GET_ok [OF _ w(1)] ready_touch [OF assms, of pl] server_frame_trans [OF server_frame_touch] by (auto simp: ready_def)
  moreover have "wire w = wire s @ data_run d 0 1"
    using wire_append [OF w(3)] by (simp add: wire_touch parts_to_wire)
  ultimately show ?thesis using w(2) by blast
qed

lemma seeder_takes_ack:
  assumes "streaming v0 pl t d a m s" and "Suc a < MAX_SEQ_NUM"
  shows "\<exists>w n. seeder_takes adr pl (ack_bytes (Suc a)) s w \<and> streaming v0 pl t d (Suc a) n w \<and> m \<le> n \<and>
           server_frame s w \<and> wire w = wire s @ data_run d m n"
proof -
  obtain pack where pk: "deserialize_packet (ack_bytes (Suc a) @ fill adr (ack_bytes (Suc a))) = Inr (Some pack)"
    "ptype pack = ACK" "ack_num pack = of_nat (Suc a)"
    using deserialize_ack by blast
  obtain w n where w: "receive_ACK pack pl (touch pl s) = Inr w" "streaming v0 pl t d (Suc a) n w" "m \<le> n"
    "sent w = sent (touch pl s) @ parts_to (peer_addr (peer_heap (touch pl s) pl)) d m n" "peer_heap w = peer_heap (touch pl s)"
    using seeder_ack [OF streaming_touch [OF assms(1)] assms(2) pk(3)] by blast
  have "server_ok (touch pl s)" using streaming_touch [OF assms(1), of pl] by (simp add: streaming_def serving_def)
  then have "server_frame s w" using receive_ACK_ok [of "touch pl s" pack pl] w(1) server_frame_trans [OF server_frame_touch] by auto
  moreover have "seeder_takes adr pl (ack_bytes (Suc a)) s w"
    unfolding seeder_takes_def dispatch_def using pk(1,2) w(1,5) touch_peers(2) by auto
  ultimately show ?thesis using w(2,3) wire_append [OF w(4)] by (auto simp: wire_touch parts_to_wire)
qed

lemma seeder_takes_last:
  assumes "streaming v0 pl t d a m s"
  shows "\<exists>w. seeder_takes adr pl (ack_bytes MAX_SEQ_NUM) s w \<and> server_ok w \<and> server_frame s w \<and> steady w \<and>
           server_transfers w = server_transfers v0 \<and> wire w = wire s"
proof -
  obtain pack where pk: "deserialize_packet (ack_bytes MAX_SEQ_NUM @ fill adr (ack_bytes MAX_SEQ_NUM)) = Inr (Some pack)"
    "ptype pack = ACK" "ack_num pack = of_nat MAX_SEQ_NUM"
    using deserialize_ack by blast
  obtain w where w: "receive_ACK pack pl (touch pl s) = Inr w" "sent w = sent (touch pl s)"
    "\<forall>q. peer_addr (peer_heap w q) = peer_addr (peer_heap (touch pl s) q)"
    "server_ok w" "server_frame (touch pl s) w" "steady w" "server_transfers w = server_transfers v0"
    using seeder_last_ack [OF streaming_touch [OF assms] pk(3)] by blast
  have "seeder_takes adr pl (ack_bytes MAX_SEQ_NUM) s w"
    unfolding seeder_takes_def dispatch_def using pk(1,2) w(1,3) touch_peers(2) by auto
  moreover have "wire w = wire s" using w(2) by (metis wire_def wire_touch)
  ultimately show ?thesis using w(4,6,7) server_frame_trans [OF server_frame_touch w(5)] by blast
qed

lemma leecher_takes_ihave:
  assumes "asking c d l" and "available (peer_heap l ps) = 1"
    and "find_peer (peer_heap l) (leecher_config adr) (seeder_addr adr) = Some ps"
  shows "\<exists>w u. leecher_takes adr ps (ihave_msg d) l w \<and> fetching 0 ps u c d 0 w \<and> same_request l w \<and> wire w = wire l @ [get_msg d]"
proof -
  obtain pack where pk: "deserialize_packet (ihave_msg d @ fill adr (ihave_msg d)) = Inr (Some pack)" "ptype pack = IHAVE"
    "hash_num pack = 1" "length (hash_list pack) = MAX_HASH_IN_PACKET" "hash_list pack ! 0 = fips_sha1 d"
    using deserialize_hash [of IHAVE "fips_sha1 d" 0] by (auto simp: ihave_msg_def has_hashes_def length_fips_sha1)
  have av: "available (peer_heap (touch ps l) ps) = 1" using assms(2) by (simp add: touch_def world_defs)
  obtain w u where w: "receive_IHAVE pack (leecher_config adr) (seeder_addr adr) (touch ps l) = Inr w" "fetching 0 ps u c d 0 w"
    "same_request (touch ps l) w" "clock_pos w = clock_pos (touch ps l) + 3"
    "sent w = sent (touch ps l) @ [(peer_addr (peer_heap (touch ps l) ps), hash_message GET 1 [fips_sha1 d])]"
    using leecher_ihave [OF asking_touch [OF assms(1)] _ av pk(3-5)] assms(3) find_peer_touch by metis
  have "same_request l w" using same_request_trans [OF same_request_touch(1) w(3)] .
  moreover from this have "leecher_takes adr ps (ihave_msg d) l w"
    unfolding leecher_takes_def dispatch_def using pk(1,2) w(1,4) by (auto simp: same_request_def clock_touch)
  ultimately show ?thesis using w(2) wire_append [OF w(5)] by (metis get_msg_def list.simps(8,9) snd_conv wire_touch)
qed

lemma leecher_takes_data:
  assumes "fetching e ps u c d k l" and "Suc k < MAX_SEQ_NUM"
  shows "\<exists>w. leecher_takes adr ps (data_bytes d k) l w \<and> fetching e ps u c d (Suc k) w \<and> same_request l w \<and>
           wire w = wire l @ [ack_bytes (Suc k)]"
proof -
  obtain w where w: "receive_DATA (data_packet d k) ps (touch ps l) = Inr w" "fetching e ps u c d (Suc k) w"
    "same_request (touch ps l) w" "clock_pos w = Suc (clock_pos (touch ps l))"
    "sent w = sent (touch ps l) @ [(peer_addr (peer_heap (touch ps l) ps), ack_bytes (Suc k))]"
    using leecher_store [OF fetching_touch [OF assms(1)], of ps] assms(2) by auto
  have "ptype (data_packet d k) = DATA" by (simp add: data_packet_def)
  moreover have "same_request l w" using same_request_trans [OF same_request_touch(1) w(3)] .
  ultimately have "leecher_takes adr ps (data_bytes d k) l w"
    unfolding leecher_takes_def dispatch_def using data_packet_arrives w(1,4) by (auto simp: same_request_def clock_touch)
  then show ?thesis using w(2) \<open>same_request l w\<close> wire_append [OF w(5)] by (metis list.simps(8,9) snd_conv wire_touch)
qed

lemma leecher_takes_last:
  assumes "fetching e ps u c d k l" and "Suc k = MAX_SEQ_NUM" and "same_request w0 l"
    and w0: "missing_chunks w0 = [c]" "c \<in> set (wanted_chunks w0)" "positions_ok w0"
  shows "\<exists>w. leecher_takes adr ps (data_bytes d k) l w \<and> downloaded c d w0 w \<and> wire w = wire l @ [ack_bytes MAX_SEQ_NUM]"
proof -
  obtain v where v: "receive_DATA (data_packet d k) ps (touch ps l) = finish_chunk u v" "fetching e ps u c d MAX_SEQ_NUM v"
    "same_request (touch ps l) v" "clock_pos v = Suc (clock_pos (touch ps l))" "sent v = sent (touch ps l) @ [(peer_addr (peer_heap (touch ps l) ps), ack_bytes MAX_SEQ_NUM)]"
    using leecher_store [OF fetching_touch [OF assms(1)], of ps] assms(2) by auto
  have lv: "same_request l v" using same_request_trans [OF same_request_touch(1) v(3)] .
  obtain w where w: "finish_chunk u v = Inr w" "downloaded c d w0 w" "sent w = sent v" "clock_pos w = clock_pos v"
    "\<forall>q. peer_addr (peer_heap w q) = peer_addr (peer_heap v q)"
    using finish_downloaded [OF v(2) same_request_trans [OF assms(3) lv] w0] by blast
  have "ptype (data_packet d k) = DATA" by (simp add: data_packet_def)
  then have "leecher_takes adr ps (data_bytes d k) l w"
    unfolding leecher_takes_def dispatch_def using data_packet_arrives v(1,4) w(1,4,5) lv
    by (auto simp: same_request_def clock_touch)
  moreover have "wire w = wire l @ [ack_bytes MAX_SEQ_NUM]"
    using wire_append [OF v(5)] w(3) by (simp add: wire_touch) (simp add: wire_def)
  ultimately show ?thesis using w(2) by blast
qed

section \<open>Every delivery is progress\<close>

lemma deliver_seeder_takes:
  assumes r: "route adr pl ps (seeder n) (leecher n)" and p: "to_seeder n < length (wire (leecher n))"
    and t: "seeder_takes adr pl (wire (leecher n) ! to_seeder n) (seeder n) w"
  shows "deliver adr To_Seeder n = Inr (n\<lparr>seeder := w, to_seeder := Suc (to_seeder n)\<rparr>) \<and> route adr pl ps w (leecher n)"
  using deliver_to_seeder [OF r p] t route_addr [OF r, of w "leecher n"] by (auto simp: seeder_takes_def simp del: deliver.simps)

lemma deliver_leecher_takes:
  assumes r: "route adr pl ps (seeder n) (leecher n)" and p: "to_leecher n < length (wire (seeder n))"
    and t: "leecher_takes adr ps (wire (seeder n) ! to_leecher n) (leecher n) w"
  shows "deliver adr To_Leecher n = Inr (n\<lparr>leecher := w, to_leecher := Suc (to_leecher n)\<rparr>) \<and> route adr pl ps (seeder n) w"
  using deliver_to_leecher [OF r p] t route_addr [OF r, of "seeder n" w] by (auto simp: leecher_takes_def simp del: deliver.simps)

lemma session_seeder:
  assumes s: "session adr pl ps cs c d v0 w0 e bl bs n" and p: "to_seeder n < length (wire (leecher n))"
    and "seeder_takes adr pl (wire (leecher n) ! to_seeder n) (seeder n) w"
    and "phase adr pl ps cs c d v0 w0 e bl bs w (leecher n) (to_leecher n) (Suc (to_seeder n))"
  shows "\<exists>n'. deliver adr To_Seeder n = Inr n' \<and> session adr pl ps cs c d v0 w0 e bl bs n' \<and>
           to_seeder n' = Suc (to_seeder n) \<and> to_leecher n' = to_leecher n \<and> leecher n' = leecher n"
  using deliver_seeder_takes [OF _ p assms(3)] s assms(4)
  by (intro exI [of _ "n\<lparr>seeder := w, to_seeder := Suc (to_seeder n)\<rparr>"]) (auto simp: session_def simp del: deliver.simps)

lemma session_leecher:
  assumes s: "session adr pl ps cs c d v0 w0 e bl bs n" and p: "to_leecher n < length (wire (seeder n))"
    and t: "leecher_takes adr ps (wire (seeder n) ! to_leecher n) (leecher n) w"
    and "phase adr pl ps cs c d v0 w0 e bl bs (seeder n) w (Suc (to_leecher n)) (to_seeder n)"
  shows "\<exists>n'. deliver adr To_Leecher n = Inr n' \<and> session adr pl ps cs c d v0 w0 e bl bs n' \<and>
           to_seeder n' = to_seeder n \<and> to_leecher n' = Suc (to_leecher n) \<and>
           clock_pos (leecher n') \<le> clock_pos (leecher n) + 4"
  using deliver_leecher_takes [OF _ p t] s assms(4) t
  by (intro exI [of _ "n\<lparr>leecher := w, to_leecher := Suc (to_leecher n)\<rparr>"])
    (auto simp: session_def leecher_takes_def simp del: deliver.simps)

text \<open>The case distinction for the seeder, and for the leecher.\<close>

lemma phase_seeder:
  assumes "phase adr pl ps cs c d v0 w0 e bl bs s l nl ns" and "ns < length (wire l)"
  shows "\<exists>w. seeder_takes adr pl (wire l ! ns) s w \<and> phase adr pl ps cs c d v0 w0 e bl bs w l nl (Suc ns)"
  using assms(1)
proof cases
  case Asked
  note msg = in_flight_next [OF Asked(7)]
  obtain w where w: "seeder_takes adr pl (whohas_msg d) s w" "ready v0 cs d (max_conn (seeder_config adr)) w"
    "wire w = wire s @ [ihave_msg d]"
    using seeder_takes_whohas [OF Asked(1)] by blast
  have "in_flight nl (wire w) [ihave_msg d]" using in_flight_append [OF Asked(6)] w(3) by simp
  then show ?thesis using phase.Answered [OF w(2) Asked(2-5)] w(1) msg Asked(8,9) by (intro exI [of _ w]) simp
next
  case (Requested u)
  note msg = in_flight_next [OF Requested(5)]
  obtain w t where w: "seeder_takes adr pl (get_msg d) s w" "streaming v0 pl t d 0 1 w" "wire w = wire s @ data_run d 0 1"
    using seeder_takes_get [OF Requested(1)] by blast
  have "in_flight nl (wire w) (data_run d 0 1)" using in_flight_append [OF Requested(4), of "data_run d 0 1"] w(3) by simp
  then show ?thesis
    using phase.Streaming [OF w(2) Requested(2,3), of nl "Suc ns"] w(1) msg Requested(6,7)
    by (intro exI [of _ w]) (simp add: chunk_consts)
next
  case (Streaming t a m u k)
  then have a: "a < k" using assms(2) in_flight_pending [OF Streaming(8)] by (cases "a = k") auto
  have msg: "wire l ! ns = ack_bytes (Suc a)" "in_flight (Suc ns) (wire l) (ack_run (Suc a) k)"
    using in_flight_next [of ns "wire l"] Streaming(8) a by simp_all
  obtain w n where w: "seeder_takes adr pl (ack_bytes (Suc a)) s w" "streaming v0 pl t d (Suc a) n w" "m \<le> n"
    "wire w = wire s @ data_run d m n"
    using seeder_takes_ack [OF Streaming(1)] Streaming(6) a by (metis less_trans_Suc)
  have "in_flight nl (wire w) (data_run d k n)"
    using in_flight_append [OF Streaming(7), of "data_run d m n"] data_run_append [OF Streaming(5) w(3)] w(4) by simp
  then show ?thesis
    using phase.Streaming [OF w(2) Streaming(2,3), of nl "Suc ns"] w(1,3) msg a Streaming(5,6,9,10) by (intro exI [of _ w]) simp
next
  case (Complete t a)
  have msg: "wire l ! ns = ack_bytes (Suc a)" "in_flight (Suc ns) (wire l) (ack_run (Suc a) MAX_SEQ_NUM)"
    using in_flight_next [of ns "wire l"] Complete(5,3) by simp_all
  show ?thesis
  proof (cases "Suc a < MAX_SEQ_NUM")
    case True
    obtain w n where w: "seeder_takes adr pl (ack_bytes (Suc a)) s w" "streaming v0 pl t d (Suc a) n w" "MAX_SEQ_NUM \<le> n"
      "wire w = wire s @ data_run d MAX_SEQ_NUM n"
      using seeder_takes_ack [OF Complete(1) True] by blast
    then have n: "n = MAX_SEQ_NUM" by (simp add: streaming_def serving_def)
    then have "in_flight nl (wire w) []" using Complete(4) w(4) by simp
    then show ?thesis
      using phase.Complete [OF w(2) [unfolded n] Complete(2) True _ msg(2), of nl] w(1) msg(1) Complete(6,7)
      by (intro exI [of _ w]) simp
  next
    case False
    then have a: "Suc a = MAX_SEQ_NUM" using Complete by simp
    obtain w where w: "seeder_takes adr pl (ack_bytes MAX_SEQ_NUM) s w" "wire w = wire s"
      using seeder_takes_last [OF Complete(1)] by blast
    then have "in_flight nl (wire w) []" using Complete(4) by simp
    moreover have "Suc ns = bs + 2 + MAX_SEQ_NUM" using a Complete(7) by simp
    ultimately have "phase adr pl ps cs c d v0 w0 e bl bs w l nl (Suc ns)"
      using msg(2) a Complete(6) by (intro phase.Closed [OF Complete(2)]) simp_all
    then show ?thesis using w(1) msg(1) a by (intro exI [of _ w]) simp
  qed
qed (use assms(2) in \<open>simp_all add: in_flight_pending\<close>)

lemma phase_leecher:
  assumes "phase adr pl ps cs c d v0 w0 e bl bs s l nl ns" and "nl < length (wire s)"
    and "find_peer (peer_heap l) (leecher_config adr) (seeder_addr adr) = Some ps"
    and w0: "missing_chunks w0 = [c]" "c \<in> set (wanted_chunks w0)" "positions_ok w0"
  shows "\<exists>w. leecher_takes adr ps (wire s ! nl) l w \<and> phase adr pl ps cs c d v0 w0 e bl bs s w (Suc nl) ns"
  using assms(1)
proof cases
  case Answered
  note msg = in_flight_next [OF Answered(6)]
  obtain w u where w: "leecher_takes adr ps (ihave_msg d) l w" "fetching 0 ps u c d 0 w" "same_request l w"
    "wire w = wire l @ [get_msg d]"
    using leecher_takes_ihave [OF Answered(2,3) assms(3)] by blast
  have "in_flight ns (wire w) [get_msg d]" using in_flight_append [OF Answered(7)] w(4) by simp
  then show ?thesis
    using phase.Requested [OF Answered(1), of e ps u c w w0 "Suc nl" ns] same_request_trans [OF Answered(4) w(3)] w(1,2) msg
      Answered(5,8,9)
    by (intro exI [of _ w]) simp
next
  case (Streaming t a m u k)
  then have k: "k < m" using assms(2) in_flight_pending [OF Streaming(7)] by (cases "k = m") auto
  have msg: "wire s ! nl = data_bytes d k" "in_flight (Suc nl) (wire s) (data_run d (Suc k) m)"
    using in_flight_next [of nl "wire s"] Streaming(7) k by simp_all
  show ?thesis
  proof (cases "Suc k < MAX_SEQ_NUM")
    case True
    obtain w where w: "leecher_takes adr ps (data_bytes d k) l w" "fetching e ps u c d (Suc k) w" "same_request l w"
      "wire w = wire l @ [ack_bytes (Suc k)]"
      using leecher_takes_data [OF Streaming(2) True] by blast
    have "in_flight ns (wire w) (ack_run a (Suc k))"
      using in_flight_append [OF Streaming(8), of "[ack_bytes (Suc k)]"] w(4) Streaming(4) by (simp only: ack_run_Suc)
    then show ?thesis
      using phase.Streaming [OF Streaming(1) w(2) same_request_trans [OF Streaming(3) w(3)] _ _ True msg(2), of ns] w(1) msg(1)
        k Streaming(4,9,10)
      by (intro exI [of _ w]) simp
  next
    case False
    then have e: "Suc k = MAX_SEQ_NUM" "m = MAX_SEQ_NUM" using Streaming k by (auto simp: streaming_def serving_def)
    obtain w where w: "leecher_takes adr ps (data_bytes d k) l w" "downloaded c d w0 w" "wire w = wire l @ [ack_bytes MAX_SEQ_NUM]"
      using leecher_takes_last [OF Streaming(2) e(1) Streaming(3) w0] by blast
    have "in_flight ns (wire w) (ack_run a MAX_SEQ_NUM)"
      using in_flight_append [OF Streaming(8), of "[ack_bytes MAX_SEQ_NUM]"] w(3) ack_run_Suc [OF Streaming(4)] e(1) by simp
    moreover have "Suc nl = bl + 1 + MAX_SEQ_NUM" "a < MAX_SEQ_NUM" using e(1) Streaming(4,9) by simp_all
    ultimately have "phase adr pl ps cs c d v0 w0 e bl bs s w (Suc nl) ns"
      using msg(2) e Streaming(10) by (intro phase.Complete [OF Streaming(1) [unfolded e(2)] w(2)]) simp_all
    then show ?thesis using w(1) msg(1) by (intro exI [of _ w]) simp
  qed
qed (use assms(2) in \<open>simp_all add: in_flight_pending\<close>)

text \<open>The request the leecher was started with: one chunk is missing.\<close>

definition one_missing :: "cptr \<Rightarrow> world \<Rightarrow> bool" where
  "one_missing c w \<longleftrightarrow> missing_chunks w = [c] \<and> c \<in> set (wanted_chunks w) \<and> positions_ok w"

lemma session_step:
  assumes s: "session adr pl ps cs c d v0 w0 e bl bs n" and w0: "one_missing c w0"
  shows "\<exists>n'. deliver adr dir n = Inr n' \<and> session adr pl ps cs c d v0 w0 e bl bs n' \<and>
           (if pending dir n then to_leecher n + to_seeder n < to_leecher n' + to_seeder n' else n' = n) \<and>
           clock_pos (leecher n') \<le> clock_pos (leecher n) + 4"
proof (cases "pending dir n")
  case True
  have ph: "phase adr pl ps cs c d v0 w0 e bl bs (seeder n) (leecher n) (to_leecher n) (to_seeder n)"
    and find: "find_peer (peer_heap (leecher n)) (leecher_config adr) (seeder_addr adr) = Some ps"
    using s by (simp_all add: session_def route_def)
  show ?thesis
  proof (cases dir)
    case To_Leecher
    then have p: "to_leecher n < length (wire (seeder n))" using True pending_wire by simp
    then show ?thesis
      using phase_leecher [OF ph p find] session_leecher [OF s p] w0 True To_Leecher by (fastforce simp: one_missing_def)
  next
    case To_Seeder
    then have p: "to_seeder n < length (wire (leecher n))" using True pending_wire by simp
    then show ?thesis
      using phase_seeder [OF ph p] session_seeder [OF s p] True To_Seeder by fastforce
  qed
next
  case False
  then show ?thesis using s by (cases dir) auto
qed

text \<open>A delivery takes at most four readings of the leecher's clock.\<close>

lemma session_clock:
  assumes "session adr pl ps cs c d v0 w0 e bl bs n" and "one_missing c w0" and "fold_result (deliver adr) turns n = Inr n'"
  shows "clock_pos (leecher n') \<le> clock_pos (leecher n) + 4 * length turns"
  using assms(1,3)
proof (induction turns arbitrary: n)
  case (Cons dir turns)
  obtain m where m: "deliver adr dir n = Inr m" "session adr pl ps cs c d v0 w0 e bl bs m"
    "clock_pos (leecher m) \<le> clock_pos (leecher n) + 4"
    using session_step [OF Cons.prems(1) assms(2)] by blast
  with Cons.prems(2) show ?case using Cons.IH [OF m(2)] by (simp del: deliver.simps)
qed simp

lemma session_bound: "session adr pl ps cs c d v0 w0 e bl bs n \<Longrightarrow> to_leecher n + to_seeder n \<le> bl + bs + 1053"
proof -
  assume "session adr pl ps cs c d v0 w0 e bl bs n"
  then have "phase adr pl ps cs c d v0 w0 e bl bs (seeder n) (leecher n) (to_leecher n) (to_seeder n)"
    by (simp add: session_def)
  then show ?thesis by cases (auto simp: chunk_consts)
qed

lemma session_base: "session adr pl ps cs c d v0 w0 e bl bs n \<Longrightarrow> bl + bs \<le> to_leecher n + to_seeder n"
  unfolding session_def by (auto elim: phase.cases)

lemma session_rest:
  assumes "session adr pl ps cs c d v0 w0 e bl bs n" and quiet: "\<forall>dir. \<not> pending dir n"
  shows "downloaded c d w0 (leecher n)"
proof -
  have ph: "phase adr pl ps cs c d v0 w0 e bl bs (seeder n) (leecher n) (to_leecher n) (to_seeder n)"
    using assms(1) by (simp add: session_def)
  have q: "\<not> to_leecher n < length (wire (seeder n))" "\<not> to_seeder n < length (wire (leecher n))"
    using quiet pending_wire by blast+
  from ph show ?thesis
  proof cases
    case (Streaming t a m u k)
    then have "data_run d k m = []" "ack_run a k = []" using q in_flight_pending by blast+
    then have "k = m" "a = k" using Streaming(4,5) by (auto simp: data_run_def ack_run_def simp del: upt_Suc)
    then show ?thesis using Streaming by (auto simp: streaming_def serving_def)
  qed (use q in \<open>auto simp: in_flight_pending\<close>)
qed

interpretation net: fair_system "deliver adr" "\<lambda>n. session adr pl ps cs c d v0 w0 e bl bs n \<and> one_missing c w0" pending
    "\<lambda>n. to_leecher n + to_seeder n" "bl + bs + 1053" for adr pl ps cs c d v0 w0 e bl bs
proof
  show "\<exists>n'. deliver adr dir n = Inr n' \<and> (session adr pl ps cs c d v0 w0 e bl bs n' \<and> one_missing c w0) \<and>
      (if pending dir n then to_leecher n + to_seeder n < to_leecher n' + to_seeder n' else n' = n)"
    if "session adr pl ps cs c d v0 w0 e bl bs n \<and> one_missing c w0" for n dir
    using session_step [of adr pl ps cs c d v0 w0 e bl bs n dir] that by blast
  show "to_leecher n + to_seeder n \<le> bl + bs + 1053" if "session adr pl ps cs c d v0 w0 e bl bs n \<and> one_missing c w0" for n
    using session_bound that by blast
qed

section \<open>Starting and completing a session\<close>

text \<open>The moment after the leecher asked who owns its missing chunk.\<close>

definition start :: "world \<Rightarrow> world \<Rightarrow> network" where
  "start s l = \<lparr>seeder = s, leecher = l, to_leecher = 0, to_seeder = 0\<rparr>"

lemma session_start:
  assumes "route adr pl ps s l" and "ready s cs d (max_conn (seeder_config adr)) s" and "sent s = []"
    and "asking c d l" and "available (peer_heap l ps) = 1" and "map snd (sent l) = [hash_message WHOHAS 0 [fips_sha1 d]]"
  shows "session adr pl ps cs c d s l 0 0 0 (start s l)"
  using assms phase.Asked [of s cs d adr s c l ps l 0 0 0 0 0 pl]
  by (simp add: session_def start_def wire_def whohas_msg_def in_flight_def)

text \<open>From every moment of the session, turns do not fault and enough of them complete it.\<close>

lemma session_turns:
  assumes "session adr pl ps cs c d v0 w0 e bl bs n" and "one_missing c w0"
  shows "\<exists>n'. fold_result (deliver adr) turns n = Inr n' \<and> session adr pl ps cs c d v0 w0 e bl bs n'"
  using net.run_progress [of adr pl ps cs c d v0 w0 e bl bs n turns] assms by blast

lemma session_completes:
  assumes "session adr pl ps cs c d v0 w0 e bl bs n" and "one_missing c w0"
    and "\<And>r dir. r \<in> set rounds \<Longrightarrow> dir \<in> set r" and "1053 \<le> length rounds"
  shows "\<exists>n'. fold_result (deliver adr) (concat rounds) n = Inr n' \<and> (\<forall>dir. \<not> pending dir n') \<and> downloaded c d w0 (leecher n')"
proof -
  have "bl + bs \<le> to_leecher n + to_seeder n" using session_base [OF assms(1)] .
  then obtain n' where "fold_result (deliver adr) (concat rounds) n = Inr n'" "session adr pl ps cs c d v0 w0 e bl bs n'"
    "\<forall>dir. \<not> pending dir n'"
    using net.fair_rest [of adr pl ps cs c d v0 w0 e bl bs n rounds] assms by auto
  then show ?thesis using session_rest by blast
qed

text \<open>Peers 1 and 2 of a configuration, and a chunk of zeros that peer 1 owns and peer 2 wants.\<close>

definition demo_peers :: bt_config_t where
  "demo_peers = \<lparr>chunk_file = [], has_chunk_file = [], output_file = [], peer_list_file = [], max_conn = 4, identity = 1,
     myport = 0, config_peers = [1, 2]\<rparr>"

definition demo_addresses :: addresses where
  "demo_addresses = \<lparr>seeder_config = demo_peers, leecher_config = demo_peers\<lparr>identity := 2\<rparr>,
     seeder_addr = \<lparr>sin_family = 2, sin_port = 1, sin_addr = 0x0100007f\<rparr>,
     leecher_addr = \<lparr>sin_family = 2, sin_port = 2, sin_addr = 0x0100007f\<rparr>, fill = (\<lambda>_. [])\<rparr>"

definition demo_zeros :: world where
  "demo_zeros = initial_world\<lparr>chunk_heap := (\<lambda>_. zero_chunk\<lparr>bin_hash := fips_sha1 (replicate BT_CHUNK_SIZE 0)\<rparr>), chunk_top := 1\<rparr>"

definition demo_seeder :: world where
  "demo_seeder = demo_zeros\<lparr>have_chunks := [0]\<rparr>"

definition demo_leecher :: world where
  "demo_leecher = demo_zeros\<lparr>missing_chunks := [0], wanted_chunks := [0], user_output_filename := Some ''out'',
     user_get_chunk_file := Some ''get'',
     sent := [(peer_addr (peer_heap initial_world 1), hash_message WHOHAS 0 [fips_sha1 (replicate BT_CHUNK_SIZE 0)])]\<rparr>"

lemmas demo_zeros_defs = demo_seeder_def demo_leecher_def demo_zeros_def initial_world_def zero_chunk_def

lemma demo_ready: "ready demo_seeder 0 (replicate BT_CHUNK_SIZE 0) 4 demo_seeder"
  by (simp add: ready_def server_ok_def have_sized_def steady_def find_by_chunk_hash_def demo_zeros_defs length_fips_sha1
      packet_arrays_def zero_packet_def)

lemma demo_asking: "asking 0 (replicate BT_CHUNK_SIZE 0) demo_leecher" "one_missing 0 demo_leecher"
  by (simp_all add: asking_def one_missing_def positions_ok_def peer_ok_def server_ok_def have_sized_def chunks_ok_def transfers_ok_def
      request_ok_def chunk_sized_def bits_counted_def demo_zeros_defs length_fips_sha1 packet_arrays_def zero_packet_def)

end
