(* ===== verification/Outage.thy ===== *)
theory Outage
  imports Session
begin

text \<open>
  A download over a network that loses a window. After every data packet in flight was lost, both
  peers hear nothing and \<open>select\<close> times out. The leecher repeats its last acknowledgement at each
  time-out; the third duplicate makes the seeder send the window again, and the session goes on as if
  nothing had been lost.
\<close>

section \<open>The seeder waits\<close>

lemma not_dead:
  assumes "e \<le> 3" shows "\<not> MAX_TO_COUNTS \<le> of_nat e + 1"
proof -
  have "e = 0 \<or> e = 1 \<or> e = 2 \<or> e = 3" using assms by auto
  then show ?thesis by (auto simp: MAX_TO_COUNTS_def word_le_nat_alt)
qed

lemma flow_ok_loss:
  assumes f: "flow_ok w t" and s: "steady w"
  shows "flow_ok (detected_first_loss t w) t"
proof -
  let ?v = "detected_first_loss t w"
  have l: "local_to t w ?v" by (rule congestion_frame)
  have "clock_pos w \<le> clock_pos ?v" by (auto simp: congestion_defs split: CongestType.splits)
  then have now: "now_of w \<le> now_of ?v" using steady_mono [OF s] by (simp add: local_toD [OF l])
  have "cc_ok (cc ?v t)" using f cc_ok_loss by (simp add: flow_ok_def)
  then show ?thesis
    using f now loss_refines [of t w]
    by (cases "congest_state (cc w t)")
       (auto simp: flow_ok_def window_of_def loss_spec_def cc_ok_def word_le_nat_alt)
qed

lemma serving_only:
  assumes "serving v0 p t d a n w" and "server_transfers v0 = []"
  shows "server_transfers w = [t]"
proof -
  have "t \<in> set (server_transfers w)" "distinct (server_transfers w)" "remove1 t (server_transfers w) = []"
    using assms by (auto simp: serving_def server_ok_def dest: find_by_peer_SomeD)
  then show ?thesis by (cases "server_transfers w") (auto split: if_splits)
qed

text \<open>A time-out of \<open>select\<close> may count as a loss, but the window stays where it is and nothing is sent.\<close>

lemma seeder_quiet:
  assumes s: "serving v0 p t d a n w" and v0: "server_transfers v0 = []" "missing_chunks v0 = []" and e: "timeout_count (cc w t) = 0"
  shows "\<exists>w'. handle_timeout config w = Inr w' \<and> serving v0 p t d a n w' \<and> dup_count (cc w' t) = dup_count (cc w t) \<and>
           sent w' = sent w \<and> (\<forall>q. peer_addr (peer_heap w' q) = peer_addr (peer_heap w q))"
proof -
  have only: "server_transfers w = [t]" by (rule serving_only [OF s v0(1)])
  have f: "flow_ok w t" and st: "steady w" and ok: "server_ok w" using s by (simp_all add: serving_def)
  let ?w = "snd (millitime w)"
  let ?u = "upd_cctrl t (\<lambda>c. c\<lparr>timeout_count := timeout_count c + 1\<rparr>) ?w"
  let ?out = "fst (transfer_has_timeout t w)"
  define v where "v = (if ?out then detected_first_loss t ?u else ?w)"
  have "steady ?w" "steady ?u" using st by (simp_all add: steady_def world_defs)
  have "flow_ok ?w t" "flow_ok ?u t" using f st by (auto intro!: flow_ok_frame [of w t] simp: world_defs)
  then have fv: "flow_ok v t" unfolding v_def using flow_ok_loss [OF _ \<open>steady ?u\<close>] by simp
  have "local_to t w ?w" "local_to t w ?u" by (rule local_toI, simp add: world_defs)+
  then have l: "local_to t w v" using local_to_trans [OF _ congestion_frame(2)] by (simp add: v_def)
  have srv: "handle_server_timeout w = v"
    using only e not_dead [of 0]
    by (auto simp: handle_server_timeout_def v_def transfer_has_timeout_def Let_def millitime_def world_defs)
  have okv: "server_ok v" using handle_server_timeout_ok [OF ok] srv by simp
  have pos: "cc_begin (cc v t) = cc_begin (cc w t)" "cc_index (cc v t) = cc_index (cc w t)" "dup_count (cc v t) = dup_count (cc w t)"
    using congestion_position(2) [of t ?u] by (auto simp: v_def position_def) (simp_all add: world_defs)
  have sv: "sent v = sent w" by (auto simp: v_def congestion_defs split: CongestType.splits)
  have "steady v" using st by (simp add: steady_def local_toD [OF l])
  then have "serving v0 p t d a n v"
    using s okv fv pos by (simp add: serving_def local_toD [OF l] find_by_peer_local [OF l])
  moreover from this have "handle_timeout config w = Inr v"
    using v0(2) srv by (simp add: handle_timeout_def handle_client_timeout_def serving_def)
  ultimately show ?thesis using pos(3) sv by (auto simp: local_toD [OF l])
qed

text \<open>What the seeder makes of an acknowledgement it has already seen.\<close>

lemma seeder_duplicate:
  assumes s: "serving v0 p t d k n w" and q: "unat (dup_count (cc w t)) < 2" and k: "k < MAX_SEQ_NUM" "ack_num pack = of_nat k"
  shows "\<exists>w'. receive_ACK pack p w = Inr w' \<and> serving v0 p t d k n w' \<and> dup_count (cc w' t) = dup_count (cc w t) + 1 \<and>
           timeout_count (cc w' t) = 0 \<and> sent w' = sent w \<and> (\<forall>q. peer_addr (peer_heap w' q) = peer_addr (peer_heap w q))"
proof -
  let ?u = "upd_cctrl t (\<lambda>c. c\<lparr>timeout_count := 0\<rparr>) (upd_cctrl t (\<lambda>c. c\<lparr>dup_count := dup_count c + 1\<rparr>) w)"
  let ?r = "upd_transfer t (\<lambda>x. x\<lparr>timestamp := now_of w\<rparr>) (snd (millitime ?u))"
  have f: "find_by_peer w (server_transfers w) p = Some t" and b: "cc_begin (cc w t) = of_nat k" and fl: "flow_ok w t" and st: "steady w"
    and ok: "server_ok w"
    using s by (simp_all add: serving_def)
  have last: "ack_num pack \<noteq> of_nat MAX_SEQ_NUM"
    using k unat_small [of k] unat_small [of MAX_SEQ_NUM] by (metis less_irrefl less_imp_le order_refl)
  have "\<not> MAX_DUP_ACKS \<le> dup_count (cc w t) + 1"
    using q by (simp add: MAX_DUP_ACKS_def word_le_nat_alt unat_word_ariths)
  then have r: "receive_ACK pack p w = Inr ?r"
    using f b k(2) last by (simp add: receive_ACK_def ack_window_def Let_def) (simp add: world_defs)
  have ok': "server_ok ?r" using receive_ACK_ok [OF ok, of pack p] r by auto
  have l: "local_to t w ?r" by (rule local_toI) (simp add: world_defs)
  have "flow_ok ?r t" by (rule flow_ok_frame [OF fl st]) (simp_all add: world_defs)
  moreover have "steady ?r" using st by (simp add: steady_def local_toD [OF l])
  moreover have c: "cc_begin (cc ?r t) = cc_begin (cc w t)" "cc_index (cc ?r t) = cc_index (cc w t)"
    "dup_count (cc ?r t) = dup_count (cc w t) + 1" "timeout_count (cc ?r t) = 0" "sent ?r = sent w"
    by (simp_all add: world_defs)
  ultimately have "serving v0 p t d k n ?r"
    using s ok' by (simp add: serving_def local_toD [OF l] find_by_peer_local [OF l])
  then show ?thesis using r c by (auto simp: local_toD [OF l])
qed

lemma seeder_third_duplicate:
  assumes s: "serving v0 p t d k n w" and q: "dup_count (cc w t) = 2" and k: "k < MAX_SEQ_NUM" "ack_num pack = of_nat k"
  shows "\<exists>w' m. receive_ACK pack p w = Inr w' \<and> streaming v0 p t d k m w' \<and>
           sent w' = sent w @ parts_to (peer_addr (peer_heap w p)) d k m \<and> (\<forall>q. peer_addr (peer_heap w' q) = peer_addr (peer_heap w q))"
proof -
  have f: "find_by_peer w (server_transfers w) p = Some t" and b: "cc_begin (cc w t) = of_nat k" and fl: "flow_ok w t" and st: "steady w"
    and ok: "server_ok w" and p: "tr_peer (transfer_heap w t) = p" and d: "chunk_data (transfer_chunk w t) = d"
    using s by (simp_all add: serving_def)
  let ?u = "upd_cctrl t (\<lambda>c. c\<lparr>cc_index := cc_begin c\<rparr>) (upd_cctrl t (\<lambda>c. c\<lparr>dup_count := dup_count c + 1\<rparr>) w)"
  define v where "v = detected_first_loss t ?u"
  have lu: "local_to t w ?u" by (rule local_toI) (simp add: world_defs)
  have l: "local_to t w v" unfolding v_def by (rule local_to_trans [OF lu congestion_frame(2)])
  have fu: "flow_ok ?u t" by (rule flow_ok_frame [OF fl st]) (simp_all add: world_defs)
  have "steady ?u" using st by (simp add: steady_def local_toD [OF lu])
  then have fv: "flow_ok v t" unfolding v_def by (rule flow_ok_loss [OF fu])
  have pos: "cc_begin (cc v t) = of_nat k" "cc_index (cc v t) = of_nat k"
    using congestion_position(2) [of t ?u] b by (simp_all add: v_def position_def) (simp_all add: world_defs)
  have sv: "sent v = sent w" by (auto simp: v_def congestion_defs split: CongestType.splits)
  have stv: "steady v" using st by (simp add: steady_def local_toD [OF l])
  have "t \<in> set (server_transfers w)" using f by (auto dest: find_by_peer_SomeD)
  then have size: "length (chunk_data (transfer_chunk v t)) = BT_CHUNK_SIZE"
    using serves_chunk_sized [OF ok] by (simp add: local_toD [OF l])
  have ix: "unat (of_nat k :: u32) = k" using unat_small [of k] k by simp
  let ?n = "window_end (cc v t)"
  have "unat (of_nat k + wind_size (cc v t)) = k + unat (wind_size (cc v t))"
    using flow_ok_wind [OF fv stv] k(1) ix by (subst unat_plus_simple [THEN iffD1]) (auto simp: chunk_consts word_le_nat_alt unat_word_ariths)
  then have n: "k \<le> ?n" "?n \<le> MAX_SEQ_NUM" "min MAX_SEQ_NUM (Suc k) \<le> ?n"
    using fv ix k by (auto simp: window_end_def pos flow_ok_def)
  let ?s = "sent_parts t ?n (upd_cctrl t (\<lambda>c. c\<lparr>dup_count := 0\<rparr>) v)"
  let ?r = "upd_transfer t (\<lambda>x. x\<lparr>timestamp := now_of v\<rparr>) (snd (millitime (upd_cctrl t (\<lambda>c. c\<lparr>timeout_count := 0\<rparr>) ?s)))"
  have last: "ack_num pack \<noteq> of_nat MAX_SEQ_NUM"
    using k unat_small [of k] unat_small [of MAX_SEQ_NUM] by (metis less_irrefl less_imp_le order_refl)
  have "MAX_DUP_ACKS \<le> dup_count (cc w t) + 1" using q by (simp add: MAX_DUP_ACKS_def)
  then have "ack_window t (ack_num pack) w = Inr ?s"
    using b k(2) send_DATA_parts [OF size] by (simp add: ack_window_def Let_def v_def) (simp add: world_defs)
  then have r: "receive_ACK pack p w = Inr ?r"
    using f last by (simp add: receive_ACK_def) (simp add: Let_def sent_parts_def world_defs)
  have ok': "server_ok ?r" using receive_ACK_ok [OF ok, of pack p] r by auto
  have lr: "local_to t w ?r" by (rule local_to_trans [OF l]) (rule local_toI, simp add: sent_parts_def world_defs)
  have fr: "flow_ok ?r t" by (rule flow_ok_frame [OF fv stv]) (simp_all add: sent_parts_def world_defs)
  have "steady ?r" using st by (simp add: steady_def local_toD [OF lr])
  moreover have c: "cc_begin (cc ?r t) = of_nat k" "cc_index (cc ?r t) = of_nat ?n" "dup_count (cc ?r t) = 0" "timeout_count (cc ?r t) = 0"
    "sent ?r = sent w @ parts_to (peer_addr (transfer_peer w t)) (chunk_data (transfer_chunk w t)) k ?n"
    by (simp_all add: sent_parts_def world_defs local_toD [OF l] pos sv ix parts_to_def)
  ultimately have "streaming v0 p t d k ?n ?r"
    using s ok' fr n by (simp add: streaming_def serving_def local_toD [OF lr] find_by_peer_local [OF lr])
  then show ?thesis using r c(5) p d by (auto simp: local_toD [OF lr])
qed

section \<open>The leecher asks again\<close>

text \<open>A single missing chunk has a single transfer.\<close>

lemma fetching_only:
  assumes f: "fetching e p t c d k w" and m: "missing_chunks w = [c]"
  shows "client_transfers w = [t]"
proof -
  have ok: "peer_ok w" and tin: "t \<in> set (client_transfers w)" using f fetching_member [OF f] by (simp_all add: fetching_def)
  have "set (map (\<lambda>u. tr_chunk (transfer_heap w u)) (client_transfers w)) \<subseteq> {c}"
    and dist: "distinct (map (\<lambda>u. tr_chunk (transfer_heap w u)) (client_transfers w))"
    using ok m by (auto simp: peer_ok_def transfers_ok_def)
  then have "length (client_transfers w) \<le> 1"
    using distinct_card [OF dist] card_mono [of "{c}"] by (metis length_map card.empty card.insert empty_iff finite.emptyI finite.insertI One_nat_def)
  then show ?thesis using tin by (cases "client_transfers w") auto
qed

text \<open>At a time-out the leecher repeats its acknowledgement, and does nothing else.\<close>

lemma leecher_quiet:
  assumes f: "fetching e p t c d k w" and k: "0 < k" "k < MAX_SEQ_NUM" and e: "e \<le> 3"
    and m: "missing_chunks w = [c]" "server_transfers w = []"
    and out: "TIMEOUT_THRESHOLD < now_of w - timestamp (transfer_heap w t)"
  shows "\<exists>w'. handle_timeout config w = Inr w' \<and> fetching (Suc e) p t c d k w' \<and> same_request w w' \<and>
           wire w' = wire w @ [ack_bytes k] \<and> clock_pos w' = clock_pos w + 2 \<and>
           timestamp (transfer_heap w' t) = millitime_of (clock w (Suc (clock_pos w)))"
proof -
  have ok: "peer_ok w" and tc: "tr_chunk (transfer_heap w t) = c" and fp: "find_by_peer w (client_transfers w) p = Some t"
    and bits: "bits (chunk_heap w c) = replicate k 1 @ replicate (MAX_SEQ_NUM - k) 0" and ec: "timeout_count (cc w t) = of_nat e"
    using f by (simp_all add: fetching_def)
  have tin: "t \<in> set (client_transfers w)" using fetching_member [OF f] by simp
  note only = fetching_only [OF f m(1)]
  let ?w = "snd (millitime w)"
  let ?u = "upd_cctrl t (\<lambda>c. c\<lparr>timeout_count := timeout_count c + 1\<rparr>) ?w"
  let ?q = "tr_peer (transfer_heap w t)"
  let ?v = "emit (peer_addr (peer_heap ?u ?q)) (ack_bytes k) (upd_transfer t (\<lambda>x. x\<lparr>timestamp := now_of ?u\<rparr>) (snd (millitime ?u)))"
  have "find_by_peer ?u (client_transfers ?u) ?q = Some t" using only by (simp add: find_by_peer_iff world_defs)
  then have ack: "send_ACK ?q (of_nat k) ?u = Inr ?v" by (rule send_ACK_eq)
  have "data_find_largest_consec_seq t ?u = of_nat k"
    using consec_prefix [of k] k tc by (simp add: data_find_largest_consec_seq_def world_defs bits)
  moreover note not_dead [OF e]
  moreover have "bits_count (chunk_heap w c) \<noteq> 0" using fetching_count [OF f] k by simp
  ultimately have to: "client_timeouts (client_transfers w) w = Inr ?v"
    using only out tc ec ack
    by (simp add: transfer_has_timeout_def Let_def millitime_def) (simp add: world_defs)
  have v: "missing_chunks ?v = [c]" "client_transfers ?v = [t]" "tr_chunk (transfer_heap ?v t) = c" "chunk_heap ?v = chunk_heap w"
    using m only tc by (simp_all add: emit_def world_defs)
  have "length (bin_hash (chunk_heap w c)) = BIN_HASH_SIZE" using fetching_member [OF f] by (simp add: chunk_sized_def)
  then have "find_by_chunk_hash ?v [t] (bin_hash (chunk_heap w c)) = Some t"
    using v by (simp add: find_by_chunk_hash_iff compare_bin_hash_iff)
  then have init: "init_data_transfer ?v = Inr (EXIT_FAILURE, ?v)"
    using v by (simp add: init_data_transfer_def get_chunk_data_def split: option.split)
  have r: "handle_timeout config w = Inr ?v"
    using m to init v by (simp add: handle_timeout_def handle_server_timeout_def handle_client_timeout_def)
  have okv: "peer_ok ?v" by (rule handle_timeout_ok [OF ok r])
  have l: "local_to t w ?v" by (rule local_toI) (simp add: emit_def world_defs)
  have c: "timeout_count (cc ?v t) = of_nat (Suc e)" "timestamp (transfer_heap ?v t) = millitime_of (clock w (Suc (clock_pos w)))"
    "clock_pos ?v = clock_pos w + 2" "clock ?v = clock w"
    using ec by (simp_all add: emit_def world_defs)
  have "\<exists>i < clock_pos ?v. timestamp (transfer_heap ?v t) = millitime_of (clock ?v i)"
    by (intro exI [of _ "Suc (clock_pos w)"]) (use c in simp)
  then have "fetching (Suc e) p t c d k ?v"
    using f okv c v by (simp add: fetching_def find_by_peer_local [OF l] local_toD [OF l])
  moreover have "same_request w ?v" by (simp add: same_request_def emit_def world_defs)
  moreover have "wire ?v = wire w @ [ack_bytes k]" by (simp add: wire_def emit_def world_defs)
  ultimately show ?thesis using r c by blast
qed

text \<open>Without any part yet it repeats the \<open>GET\<close>.\<close>

lemma leecher_quiet_get:
  assumes f: "fetching e p t c d 0 w" and e: "e \<le> 3" and m: "missing_chunks w = [c]" "server_transfers w = []"
    and out: "TIMEOUT_THRESHOLD < now_of w - timestamp (transfer_heap w t)"
  shows "\<exists>w'. handle_timeout config w = Inr w' \<and> same_request w w' \<and> wire w' = wire w @ [hash_message GET 1 [fips_sha1 d]]"
proof -
  have ok: "peer_ok w" and tc: "tr_chunk (transfer_heap w t) = c" and ec: "timeout_count (cc w t) = of_nat e"
    and h: "bin_hash (chunk_heap w c) = fips_sha1 d"
    using f by (simp_all add: fetching_def)
  note only = fetching_only [OF f m(1)]
  let ?w = "snd (millitime w)"
  let ?u = "upd_cctrl t (\<lambda>c. c\<lparr>timeout_count := timeout_count c + 1\<rparr>) ?w"
  let ?q = "tr_peer (transfer_heap w t)"
  let ?v = "emit (peer_addr (peer_heap ?u ?q)) (hash_message GET 1 [fips_sha1 d])
    (upd_transfer t (\<lambda>x. x\<lparr>timestamp := now_of ?u\<rparr>) (snd (millitime ?u)))"
  have stack: "packet_arrays (stack_packet ?u)" using ok by (simp add: peer_ok_def server_ok_def world_defs)
  have "find_by_peer ?u (client_transfers ?u) ?q = Some t" using only by (simp add: find_by_peer_iff world_defs)
  then have "send_GET ?q (fips_sha1 d) 1 ?u = Inr ?v" by (rule send_GET_eq [OF _ stack]) (simp add: length_fips_sha1)
  moreover have "bits_count (chunk_heap w c) = 0" using fetching_count [OF f] by simp
  moreover note not_dead [OF e]
  ultimately have to: "client_timeouts (client_transfers w) w = Inr ?v"
    using only out tc ec h by (simp add: transfer_has_timeout_def Let_def millitime_def) (simp add: world_defs)
  have v: "missing_chunks ?v = [c]" "client_transfers ?v = [t]" "tr_chunk (transfer_heap ?v t) = c" "chunk_heap ?v = chunk_heap w"
    using m only tc by (simp_all add: emit_def world_defs)
  have "find_by_chunk_hash ?v [t] (bin_hash (chunk_heap w c)) = Some t"
    using v h by (simp add: find_by_chunk_hash_iff compare_bin_hash_iff length_fips_sha1)
  then have "init_data_transfer ?v = Inr (EXIT_FAILURE, ?v)"
    using v by (simp add: init_data_transfer_def get_chunk_data_def split: option.split)
  then have "handle_timeout config w = Inr ?v"
    using m to v by (simp add: handle_timeout_def handle_server_timeout_def handle_client_timeout_def)
  moreover have "same_request w ?v" by (simp add: same_request_def emit_def world_defs)
  moreover have "wire ?v = wire w @ [hash_message GET 1 [fips_sha1 d]]" by (simp add: wire_def emit_def world_defs)
  ultimately show ?thesis by blast
qed

section \<open>Events of the network\<close>

text \<open>
  A datagram is delivered, all data packets in flight are lost, or nothing happens until \<open>select\<close> times
  out at both peers.
\<close>

datatype net_event = Turn delivery | Lose_Data | Quiet

fun net_step :: "addresses \<Rightarrow> net_event \<Rightarrow> network \<Rightarrow> network result" where
  "net_step adr (Turn dir) n = deliver adr dir n"
| "net_step adr Lose_Data n = Inr (n\<lparr>to_leecher := length (sent (seeder n))\<rparr>)"
| "net_step adr Quiet n =
     bind_result (handle_timeout (seeder_config adr) (seeder n)) (\<lambda>s.
     bind_result (handle_timeout (leecher_config adr) (leecher n)) (\<lambda>l. Inr (n\<lparr>seeder := s, leecher := l\<rparr>)))"

text \<open>
  The clock \<open>clk\<close> shows a time-out at each of the next \<open>j\<close> checks of a transfer, when every check is
  followed by one datagram: the readings are \<open>i\<close>, \<open>i + 2\<close>, \<open>i + 4\<close> and so on.
\<close>

primrec overdue :: "nat \<Rightarrow> (nat \<Rightarrow> timeval) \<Rightarrow> nat \<Rightarrow> mytime_t \<Rightarrow> bool" where
  "overdue 0 clk i stamp \<longleftrightarrow> True"
| "overdue (Suc j) clk i stamp \<longleftrightarrow>
     TIMEOUT_THRESHOLD < millitime_of (clk i) - stamp \<and> overdue j clk (i + 2) (millitime_of (clk (Suc i)))"

text \<open>
  The session hangs: the leecher has \<open>k\<close> parts, the seeder knows it and has seen \<open>q\<close> duplicates, nothing
  is in flight, and the leecher's transfer will time out \<open>j\<close> times more.
\<close>

definition stalled :: "addresses \<Rightarrow> pptr \<Rightarrow> pptr \<Rightarrow> cptr \<Rightarrow> byte list \<Rightarrow> world \<Rightarrow> world \<Rightarrow> nat \<Rightarrow> nat \<Rightarrow> nat \<Rightarrow> nat \<Rightarrow> network \<Rightarrow> bool"
  where
  "stalled adr pl ps c d v0 w0 k e q j n \<longleftrightarrow>
     route adr pl ps (seeder n) (leecher n) \<and> same_request w0 (leecher n) \<and>
     (\<exists>t m. serving v0 pl t d k m (seeder n) \<and> dup_count (cc (seeder n) t) = of_nat q \<and> timeout_count (cc (seeder n) t) = 0) \<and>
     (\<exists>u. fetching e ps u c d k (leecher n) \<and>
        overdue j (clock (leecher n)) (clock_pos (leecher n)) (timestamp (transfer_heap (leecher n) u))) \<and>
     in_flight (to_leecher n) (wire (seeder n)) [] \<and> in_flight (to_seeder n) (wire (leecher n)) [] \<and>
     1 + k \<le> to_leecher n \<and> 2 + k \<le> to_seeder n"

text \<open>The requests the session was started with: the seeder only serves, the leecher only fetches.\<close>

definition only_roles :: "cptr \<Rightarrow> world \<Rightarrow> world \<Rightarrow> bool" where
  "only_roles c v0 w0 \<longleftrightarrow> server_transfers v0 = [] \<and> missing_chunks v0 = [] \<and> server_transfers w0 = [] \<and> missing_chunks w0 = [c]"

text \<open>After a time-out the repeated acknowledgement is in flight.\<close>

lemma stalled_quiet:
  assumes st: "stalled adr pl ps c d v0 w0 k e q (Suc j) n" and o: "only_roles c v0 w0" and k: "0 < k" "k < MAX_SEQ_NUM" and e: "e \<le> 3"
  shows "\<exists>n' t m u. net_step adr Quiet n = Inr n' \<and> route adr pl ps (seeder n') (leecher n') \<and> same_request w0 (leecher n') \<and>
     serving v0 pl t d k m (seeder n') \<and> dup_count (cc (seeder n') t) = of_nat q \<and>
     fetching (Suc e) ps u c d k (leecher n') \<and>
     overdue j (clock (leecher n')) (clock_pos (leecher n')) (timestamp (transfer_heap (leecher n') u)) \<and>
     in_flight (to_leecher n') (wire (seeder n')) [] \<and> in_flight (to_seeder n') (wire (leecher n')) [ack_bytes k] \<and>
     to_leecher n' = to_leecher n \<and> to_seeder n' = to_seeder n"
proof -
  obtain t m where t: "serving v0 pl t d k m (seeder n)" "dup_count (cc (seeder n) t) = of_nat q" "timeout_count (cc (seeder n) t) = 0"
    using st by (auto simp: stalled_def)
  obtain u where u: "fetching e ps u c d k (leecher n)"
    "overdue (Suc j) (clock (leecher n)) (clock_pos (leecher n)) (timestamp (transfer_heap (leecher n) u))"
    using st unfolding stalled_def by blast
  have req: "same_request w0 (leecher n)" using st by (simp add: stalled_def)
  obtain s where s: "handle_timeout (seeder_config adr) (seeder n) = Inr s" "serving v0 pl t d k m s"
    "dup_count (cc s t) = of_nat q" "sent s = sent (seeder n)" "\<And>q. peer_addr (peer_heap s q) = peer_addr (peer_heap (seeder n) q)"
    using seeder_quiet [OF t(1) _ _ t(3), of "seeder_config adr"] o t(2) unfolding only_roles_def by metis
  have m: "missing_chunks (leecher n) = [c]" "server_transfers (leecher n) = []"
    using req o by (simp_all add: same_request_def only_roles_def)
  obtain l where l: "handle_timeout (leecher_config adr) (leecher n) = Inr l" "fetching (Suc e) ps u c d k l" "same_request (leecher n) l"
    "wire l = wire (leecher n) @ [ack_bytes k]" "clock_pos l = clock_pos (leecher n) + 2"
    "timestamp (transfer_heap l u) = millitime_of (clock (leecher n) (Suc (clock_pos (leecher n))))"
    using leecher_quiet [OF u(1) k e m, of "leecher_config adr"] u(2) by auto
  have "net_step adr Quiet n = Inr (n\<lparr>seeder := s, leecher := l\<rparr>)" using s(1) l(1) by simp
  moreover have "route adr pl ps s l"
    using st s(5) l(3) by (auto simp: stalled_def same_request_def intro: route_addr)
  moreover have "overdue j (clock l) (clock_pos l) (timestamp (transfer_heap l u))"
    using u(2) l(3,5,6) by (simp add: same_request_def)
  moreover have "in_flight (to_leecher n) (wire s) []" using st s(4) by (simp add: stalled_def wire_def)
  moreover have "in_flight (to_seeder n) (wire l) [ack_bytes k]"
    using st in_flight_append [of "to_seeder n" "wire (leecher n)" "[]" "[ack_bytes k]"] l(4) by (simp add: stalled_def)
  ultimately show ?thesis
    using s(2,3) l(2) same_request_trans [OF req l(3)]
    by (intro exI [of _ "n\<lparr>seeder := s, leecher := l\<rparr>"] exI [of _ t] exI [of _ m] exI [of _ u]) simp
qed

text \<open>The acknowledgement reaches the seeder: a duplicate, or the third one.\<close>

lemma seeder_takes_duplicate:
  assumes s: "serving v0 pl t d k m s" and q: "dup_count (cc s t) = of_nat q" and k: "k < MAX_SEQ_NUM"
  shows "q < 2 \<Longrightarrow> \<exists>w. seeder_takes adr pl (ack_bytes k) s w \<and> serving v0 pl t d k m w \<and> dup_count (cc w t) = of_nat (Suc q) \<and>
           timeout_count (cc w t) = 0 \<and> wire w = wire s"
    and "q = 2 \<Longrightarrow> \<exists>w m'. seeder_takes adr pl (ack_bytes k) s w \<and> streaming v0 pl t d k m' w \<and> wire w = wire s @ data_run d k m'"
proof -
  obtain pack where pk: "deserialize_packet (ack_bytes k @ fill adr (ack_bytes k)) = Inr (Some pack)"
    "ptype pack = ACK" "ack_num pack = of_nat k"
    using deserialize_ack by blast
  note t = serving_touch [OF s, of pl]
  have takes: "seeder_takes adr pl (ack_bytes k) s w"
    if "receive_ACK pack pl (touch pl s) = Inr w" "\<forall>q. peer_addr (peer_heap w q) = peer_addr (peer_heap (touch pl s) q)" for w
    unfolding seeder_takes_def dispatch_def using pk(1,2) that touch_peers(2) by auto
  show "\<exists>w. seeder_takes adr pl (ack_bytes k) s w \<and> serving v0 pl t d k m w \<and> dup_count (cc w t) = of_nat (Suc q) \<and>
      timeout_count (cc w t) = 0 \<and> wire w = wire s" if "q < 2"
  proof -
    have "unat (dup_count (cc (touch pl s) t)) < 2" using q that by (auto simp: less_Suc_eq numeral_2_eq_2)
    then obtain w where w: "receive_ACK pack pl (touch pl s) = Inr w" "serving v0 pl t d k m w"
      "dup_count (cc w t) = dup_count (cc (touch pl s) t) + 1" "timeout_count (cc w t) = 0" "sent w = sent (touch pl s)"
      "\<forall>q. peer_addr (peer_heap w q) = peer_addr (peer_heap (touch pl s) q)"
      using seeder_duplicate [OF t _ k pk(3)] by blast
    then show ?thesis using takes [OF w(1,6)] q wire_touch [of pl s] by (intro exI [of _ w]) (simp add: wire_def)
  qed
  show "\<exists>w m'. seeder_takes adr pl (ack_bytes k) s w \<and> streaming v0 pl t d k m' w \<and> wire w = wire s @ data_run d k m'" if "q = 2"
  proof -
    have "dup_count (cc (touch pl s) t) = 2" using q that by simp
    then obtain w m' where w: "receive_ACK pack pl (touch pl s) = Inr w" "streaming v0 pl t d k m' w"
      "sent w = sent (touch pl s) @ parts_to (peer_addr (peer_heap (touch pl s) pl)) d k m'"
      "\<forall>q. peer_addr (peer_heap w q) = peer_addr (peer_heap (touch pl s) q)"
      using seeder_third_duplicate [OF t _ k pk(3)] by blast
    then show ?thesis using takes [OF w(1,4)] wire_append [OF w(3)] by (auto simp: wire_touch parts_to_wire)
  qed
qed

lemma deliver_ack:
  assumes "route adr pl ps (seeder n) (leecher n)" and "in_flight (to_seeder n) (wire (leecher n)) [msg]"
    and "seeder_takes adr pl msg (seeder n) w"
  shows "deliver adr To_Seeder n = Inr (n\<lparr>seeder := w, to_seeder := Suc (to_seeder n)\<rparr>)" and "route adr pl ps w (leecher n)"
proof -
  have "to_seeder n < length (wire (leecher n))" "wire (leecher n) ! to_seeder n = msg"
    using in_flight_pending [OF assms(2)] in_flight_next [OF assms(2)] by auto
  then show "deliver adr To_Seeder n = Inr (n\<lparr>seeder := w, to_seeder := Suc (to_seeder n)\<rparr>)"
    using deliver_to_seeder [OF assms(1)] assms(3) by (auto simp: seeder_takes_def simp del: deliver.simps)
  show "route adr pl ps w (leecher n)" using assms(1) by (rule route_addr) (use assms(3) in \<open>simp_all add: seeder_takes_def\<close>)
qed

lemma stalled_again:
  assumes st: "stalled adr pl ps c d v0 w0 k e q (Suc j) n" and o: "only_roles c v0 w0" and k: "0 < k" "k < MAX_SEQ_NUM" and e: "e \<le> 3"
    and q: "q < 2"
  shows "\<exists>n'. fold_result (net_step adr) [Quiet, Turn To_Seeder] n = Inr n' \<and> stalled adr pl ps c d v0 w0 k (Suc e) (Suc q) j n'"
proof -
  obtain n1 t m u where n1: "net_step adr Quiet n = Inr n1" "route adr pl ps (seeder n1) (leecher n1)" "same_request w0 (leecher n1)"
     "serving v0 pl t d k m (seeder n1)" "dup_count (cc (seeder n1) t) = of_nat q"
     "fetching (Suc e) ps u c d k (leecher n1)"
     "overdue j (clock (leecher n1)) (clock_pos (leecher n1)) (timestamp (transfer_heap (leecher n1) u))"
     "in_flight (to_leecher n1) (wire (seeder n1)) []" "in_flight (to_seeder n1) (wire (leecher n1)) [ack_bytes k]"
     "to_leecher n1 = to_leecher n" "to_seeder n1 = to_seeder n"
    using stalled_quiet [OF st o k e] by blast
  obtain w where w: "seeder_takes adr pl (ack_bytes k) (seeder n1) w" "serving v0 pl t d k m w" "dup_count (cc w t) = of_nat (Suc q)"
    "timeout_count (cc w t) = 0" "wire w = wire (seeder n1)"
    using seeder_takes_duplicate(1) [OF n1(4,5) k(2) q] by blast
  let ?n = "n1\<lparr>seeder := w, to_seeder := Suc (to_seeder n1)\<rparr>"
  have "stalled adr pl ps c d v0 w0 k (Suc e) (Suc q) j ?n"
    unfolding stalled_def using n1 w deliver_ack(2) [OF n1(2,9) w(1)] in_flight_next [OF n1(9)] st
    by (auto simp: stalled_def simp del: of_nat_Suc)
  then show ?thesis using n1(1) deliver_ack(1) [OF n1(2,9) w(1)] by (auto simp del: net_step.simps(3) deliver.simps)
qed

lemma stalled_resumes:
  assumes st: "stalled adr pl ps c d v0 w0 k e 2 (Suc j) n" and o: "only_roles c v0 w0" and k: "0 < k" "k < MAX_SEQ_NUM" and e: "e \<le> 3"
  shows "\<exists>n' bl bs. fold_result (net_step adr) [Quiet, Turn To_Seeder] n = Inr n' \<and> session adr pl ps cs c d v0 w0 (Suc e) bl bs n'"
proof -
  obtain n1 t m u where n1: "net_step adr Quiet n = Inr n1" "route adr pl ps (seeder n1) (leecher n1)" "same_request w0 (leecher n1)"
     "serving v0 pl t d k m (seeder n1)" "dup_count (cc (seeder n1) t) = of_nat 2"
     "fetching (Suc e) ps u c d k (leecher n1)"
     "in_flight (to_leecher n1) (wire (seeder n1)) []" "in_flight (to_seeder n1) (wire (leecher n1)) [ack_bytes k]"
     "to_leecher n1 = to_leecher n" "to_seeder n1 = to_seeder n"
    using stalled_quiet [OF st o k e] by blast
  obtain w m' where w: "seeder_takes adr pl (ack_bytes k) (seeder n1) w" "streaming v0 pl t d k m' w"
    "wire w = wire (seeder n1) @ data_run d k m'"
    using seeder_takes_duplicate(2) [OF n1(4,5) k(2)] by blast
  let ?n = "n1\<lparr>seeder := w, to_seeder := Suc (to_seeder n1)\<rparr>"
  have "1 + k \<le> to_leecher n" "2 + k \<le> to_seeder n" using st by (simp_all add: stalled_def)
  then obtain bl bs where b: "to_leecher n = bl + 1 + k" "Suc (to_seeder n) = bs + 2 + k"
    by (metis add.commute add.left_commute le_Suc_ex le_SucI plus_1_eq_Suc)
  have km: "k \<le> m'" using w(2) by (simp add: streaming_def serving_def)
  have "in_flight (to_leecher n1) (wire w) (data_run d k m')" using in_flight_append [OF n1(7), of "data_run d k m'"] w(3) by simp
  then have "phase adr pl ps cs c d v0 w0 (Suc e) bl bs w (leecher n1) (to_leecher n1) (Suc (to_seeder n1))"
    using in_flight_next [OF n1(8)] km k(2) b n1(9,10)
    by (intro phase.Streaming [OF w(2) n1(6,3), of "to_leecher n1" "Suc (to_seeder n1)"]) simp_all
  then have "session adr pl ps cs c d v0 w0 (Suc e) bl bs ?n"
    using deliver_ack(2) [OF n1(2,8) w(1)] by (simp add: session_def)
  then show ?thesis using n1(1) deliver_ack(1) [OF n1(2,8) w(1)] by (auto simp del: net_step.simps(3) deliver.simps)
qed

section \<open>From the session to the loss and back\<close>

lemma asking_empty: "asking c d w \<Longrightarrow> bits_count (chunk_heap w c) = 0 \<and> client_transfers w = []"
  by (auto simp: asking_def peer_ok_def chunks_ok_def bits_counted_def)

text \<open>While the transfer runs and no acknowledgement is in flight, the two peers agree on what has arrived.\<close>

lemma session_agreed:
  assumes s: "session adr pl ps cs c d v0 w0 e bl bs n" and m: "missing_chunks (leecher n) \<noteq> []" "client_transfers (leecher n) \<noteq> []"
    and no_acks: "\<not> pending To_Seeder n"
  obtains t m u k where "streaming v0 pl t d k m (seeder n)" "fetching e ps u c d k (leecher n)" "same_request w0 (leecher n)"
    "k < MAX_SEQ_NUM" "in_flight (to_seeder n) (wire (leecher n)) []" "1 + k \<le> to_leecher n" "2 + k \<le> to_seeder n"
    "to_leecher n \<le> length (sent (seeder n))"
proof -
  have ph: "phase adr pl ps cs c d v0 w0 e bl bs (seeder n) (leecher n) (to_leecher n) (to_seeder n)"
    using s by (simp add: session_def)
  have q: "\<not> to_seeder n < length (wire (leecher n))" using no_acks pending_wire by blast
  from ph show ?thesis
  proof cases
    case (Requested u)
    then show ?thesis using q in_flight_pending by blast
  next
    case (Streaming t a m u k)
    then have "ack_run a k = []" using q in_flight_pending by blast
    then have "a = k" using Streaming(4) by (auto simp: ack_run_def simp del: upt_Suc)
    then show ?thesis
      using that [OF Streaming(1) [unfolded \<open>a = k\<close>] Streaming(2,3,6)] Streaming(7-10) by (auto simp: in_flight_def wire_def)
  qed (use m asking_empty in \<open>auto simp: downloaded_def\<close>)
qed

lemma stalled_start:
  assumes s: "session adr pl ps cs c d v0 w0 0 bl bs n"
    and "missing_chunks (leecher n) \<noteq> []" "0 < bits_count (chunk_heap (leecher n) c)" "\<not> pending To_Seeder n"
    and late: "\<forall>t \<in> set (client_transfers (leecher n)). overdue j (clock (leecher n)) (clock_pos (leecher n)) (timestamp (transfer_heap (leecher n) t))"
  shows "\<exists>k. 0 < k \<and> k < MAX_SEQ_NUM \<and> stalled adr pl ps c d v0 w0 k 0 0 j (n\<lparr>to_leecher := length (sent (seeder n))\<rparr>)"
proof -
  have "client_transfers (leecher n) \<noteq> []"
    using assms(2,3) s by (auto simp: session_def downloaded_def elim!: phase.cases dest: asking_empty fetching_member)
  then obtain t m u k where h: "streaming v0 pl t d k m (seeder n)" "fetching 0 ps u c d k (leecher n)" "same_request w0 (leecher n)"
    "k < MAX_SEQ_NUM" "in_flight (to_seeder n) (wire (leecher n)) []" "1 + k \<le> to_leecher n" "2 + k \<le> to_seeder n"
    "to_leecher n \<le> length (sent (seeder n))"
    using session_agreed [OF s assms(2) _ assms(4)] by metis
  have "0 < k" using fetching_count [OF h(2)] assms(3) by simp
  moreover have "overdue j (clock (leecher n)) (clock_pos (leecher n)) (timestamp (transfer_heap (leecher n) u))"
    using fetching_member [OF h(2)] late by blast
  moreover have "in_flight (length (sent (seeder n))) (wire (seeder n)) []" by (simp add: in_flight_def wire_def)
  moreover have "route adr pl ps (seeder n) (leecher n)" using s by (simp add: session_def)
  moreover have "1 + k \<le> length (sent (seeder n))" using h(6,8) by linarith
  ultimately have "stalled adr pl ps c d v0 w0 k 0 0 j (n\<lparr>to_leecher := length (sent (seeder n))\<rparr>)"
    unfolding stalled_def using h(1-3,5,7) unfolding streaming_def by auto
  then show ?thesis using \<open>0 < k\<close> h(4) by blast
qed

lemma fold_turns: "fold_result (net_step adr) (map Turn turns) n = fold_result (deliver adr) turns n"
  by (induction turns arbitrary: n) (auto simp: bind_result_def simp del: deliver.simps split: sum.splits)

definition recovery :: "net_event list" where
  "recovery = [Quiet, Turn To_Seeder]"

lemma recovery_resumes:
  assumes "stalled adr pl ps c d v0 w0 k 0 0 3 n" and o: "only_roles c v0 w0" and k: "0 < k" "k < MAX_SEQ_NUM"
  shows "\<exists>n' bl bs. fold_result (net_step adr) (recovery @ recovery @ recovery) n = Inr n' \<and> session adr pl ps cs c d v0 w0 3 bl bs n'"
proof -
  have "stalled adr pl ps c d v0 w0 k 0 0 (Suc 2) n" using assms(1) by (simp add: eval_nat_numeral)
  then obtain n1 where n1: "fold_result (net_step adr) recovery n = Inr n1" "stalled adr pl ps c d v0 w0 k 1 1 (Suc 1) n1"
    unfolding recovery_def using stalled_again [OF _ o k, of adr pl ps d 0 0 2 n] by (auto simp: numeral_2_eq_2)
  then obtain n2 where n2: "fold_result (net_step adr) recovery n1 = Inr n2" "stalled adr pl ps c d v0 w0 k 2 2 (Suc 0) n2"
    unfolding recovery_def using stalled_again [OF _ o k, of adr pl ps d 1 1 1 n1] by (auto simp: numeral_2_eq_2)
  obtain n3 bl bs where "fold_result (net_step adr) recovery n2 = Inr n3" "session adr pl ps cs c d v0 w0 3 bl bs n3"
    unfolding recovery_def using stalled_resumes [OF n2(2) o k, of cs] by (auto simp: numeral_3_eq_3 numeral_2_eq_2)
  then show ?thesis using n1(1) n2(1) by (auto simp: fold_result_append)
qed

section \<open>Properties\<close>

text \<open>
  Claim C4. A download of one chunk survives the loss of a whole window: at any moment of a session at
  which the leecher has some parts and no acknowledgement is in flight, every data packet in flight
  may be lost. If the two peers then wait until the transfer has timed out three times, each time-out
  repeats the acknowledgement, the third repetition makes the seeder send the window again, and after
  enough turns of both directions the chunk is verified and the output file written, as without the
  loss. At the start the chunk is the only one the leecher misses and neither peer serves another transfer; the
  seeder owns exactly one chunk with its hash and allows at least one connection; each peer knows the
  other by its address and the seeder is available to the leecher; the wanted chunks have different
  numbers, all below 8192; and the clock of the seeder does not wrap or run backwards.
\<close>

theorem lost_window_is_recovered:
  assumes start: "route adr pl ps s l" "ready s cs d (max_conn (seeder_config adr)) s" "sent s = []" "asking c d l"
      "available (peer_heap l ps) = 1" "map snd (sent l) = [hash_message WHOHAS 0 [fips_sha1 d]]" "one_missing c l"
    and roles: "server_transfers s = []" "missing_chunks s = []" "server_transfers l = []"
    and n: "fold_result (deliver adr) turns (start s l) = Inr n" "missing_chunks (leecher n) \<noteq> []"
      "0 < bits_count (chunk_heap (leecher n) c)" "\<not> pending To_Seeder n"
    and late: "\<forall>t \<in> set (client_transfers (leecher n)).
      overdue 3 (clock (leecher n)) (clock_pos (leecher n)) (timestamp (transfer_heap (leecher n) t))"
    and fair: "\<And>r dir. r \<in> set rounds \<Longrightarrow> dir \<in> set r" "1053 \<le> length rounds"
  shows "\<exists>n'. fold_result (net_step adr) (Lose_Data # recovery @ recovery @ recovery @ map Turn (concat rounds)) n = Inr n' \<and>
           downloaded c d l (leecher n')"
proof -
  have s: "session adr pl ps cs c d s l 0 0 0 n"
    using session_turns [OF session_start [OF start(1-6)] start(7), of turns] n(1) by auto
  have o: "only_roles c s l" using roles start(7) by (simp add: only_roles_def one_missing_def)
  obtain k where k: "0 < k" "k < MAX_SEQ_NUM" "stalled adr pl ps c d s l k 0 0 3 (n\<lparr>to_leecher := length (sent (seeder n))\<rparr>)"
    using stalled_start [OF s n(2-4) late] by blast
  obtain n1 bl bs where n1: "session adr pl ps cs c d s l 3 bl bs n1"
    "fold_result (net_step adr) (recovery @ recovery @ recovery) (n\<lparr>to_leecher := length (sent (seeder n))\<rparr>) = Inr n1"
    using recovery_resumes [OF k(3) o k(1,2)] by blast
  obtain n' where "fold_result (deliver adr) (concat rounds) n1 = Inr n'" "downloaded c d l (leecher n')"
    using session_completes [OF n1(1) start(7) fair] by blast
  moreover have "fold_result (net_step adr) (Lose_Data # recovery @ recovery @ recovery @ map Turn (concat rounds)) n =
      bind_result (fold_result (net_step adr) (recovery @ recovery @ recovery) (n\<lparr>to_leecher := length (sent (seeder n))\<rparr>))
        (fold_result (net_step adr) (map Turn (concat rounds)))"
    by (simp add: fold_result_append [symmetric])
  ultimately show ?thesis using n1(2) by (simp add: fold_turns)
qed

text \<open>The first turns of a session, one delivery after the other, until the first part is acknowledged.\<close>

lemma session_turn:
  assumes s: "session adr pl ps cs c d v0 w0 e bl bs n" and w0: "one_missing c w0"
  shows "pending To_Seeder n \<Longrightarrow> \<exists>n'. deliver adr To_Seeder n = Inr n' \<and> session adr pl ps cs c d v0 w0 e bl bs n' \<and>
           to_seeder n' = Suc (to_seeder n) \<and> to_leecher n' = to_leecher n"
    and "pending To_Leecher n \<Longrightarrow> \<exists>n'. deliver adr To_Leecher n = Inr n' \<and> session adr pl ps cs c d v0 w0 e bl bs n' \<and>
           to_seeder n' = to_seeder n \<and> to_leecher n' = Suc (to_leecher n)"
proof -
  have ph: "phase adr pl ps cs c d v0 w0 e bl bs (seeder n) (leecher n) (to_leecher n) (to_seeder n)"
    and find: "find_peer (peer_heap (leecher n)) (leecher_config adr) (seeder_addr adr) = Some ps"
    using s by (simp_all add: session_def route_def)
  show "\<exists>n'. deliver adr To_Seeder n = Inr n' \<and> session adr pl ps cs c d v0 w0 e bl bs n' \<and>
           to_seeder n' = Suc (to_seeder n) \<and> to_leecher n' = to_leecher n" if "pending To_Seeder n"
  proof -
    have p: "to_seeder n < length (wire (leecher n))" using that pending_wire by simp
    show ?thesis using phase_seeder [OF ph p] session_seeder [OF s p] by blast
  qed
  show "\<exists>n'. deliver adr To_Leecher n = Inr n' \<and> session adr pl ps cs c d v0 w0 e bl bs n' \<and>
           to_seeder n' = to_seeder n \<and> to_leecher n' = Suc (to_leecher n)" if "pending To_Leecher n"
  proof -
    have p: "to_leecher n < length (wire (seeder n))" using that pending_wire by simp
    have "missing_chunks w0 = [c]" "c \<in> set (wanted_chunks w0)" "positions_ok w0" using w0 by (simp_all add: one_missing_def)
    then show ?thesis using phase_leecher [OF ph p find] session_leecher [OF s p] by blast
  qed
qed

lemma early_phase:
  assumes "phase adr pl ps cs c d v0 w0 0 0 0 s l nl ns"
  shows "nl = 0 \<Longrightarrow> ns = 0 \<Longrightarrow> ns < length (wire l)" and "nl = 0 \<Longrightarrow> ns = 1 \<Longrightarrow> nl < length (wire s)"
    and "nl = 1 \<Longrightarrow> ns = 1 \<Longrightarrow> ns < length (wire l)"
    and "nl = 1 \<Longrightarrow> ns = 2 \<Longrightarrow> nl < length (wire s) \<and> \<not> ns < length (wire l) \<and> (\<exists>u. fetching 0 ps u c d 0 l)"
    and "nl = 2 \<Longrightarrow> ns = 2 \<Longrightarrow> ns < length (wire l)"
    and "nl = 2 \<Longrightarrow> ns = 3 \<Longrightarrow> \<not> ns < length (wire l) \<and> (\<exists>u. fetching 0 ps u c d 1 l)"
proof -
  show "ns < length (wire l)" if "nl = 0" "ns = 0"
    using assms
  proof cases
    case Asked
    then show ?thesis using that in_flight_pending [OF Asked(7)] by (auto simp: streaming_def serving_def chunk_consts)
  qed (use that in \<open>simp_all add: chunk_consts del: run_simps\<close>)
  show "nl < length (wire s)" if "nl = 0" "ns = 1"
    using assms
  proof cases
    case Answered
    then show ?thesis using that in_flight_pending [OF Answered(6)] by (auto simp: streaming_def serving_def chunk_consts)
  qed (use that in \<open>simp_all add: chunk_consts del: run_simps\<close>)
  show "ns < length (wire l)" if "nl = 1" "ns = 1"
    using assms
  proof cases
    case (Requested u)
    then show ?thesis using that in_flight_pending [OF Requested(5)] by (auto simp: streaming_def serving_def chunk_consts)
  qed (use that in \<open>simp_all add: chunk_consts del: run_simps\<close>)
  show "nl < length (wire s) \<and> \<not> ns < length (wire l) \<and> (\<exists>u. fetching 0 ps u c d 0 l)" if "nl = 1" "ns = 2"
    using assms
  proof cases
    case (Streaming t a m u k)
    then show ?thesis using that in_flight_pending [OF Streaming(7)] in_flight_pending [OF Streaming(8)] by (auto simp: streaming_def serving_def chunk_consts)
  qed (use that in \<open>simp_all add: chunk_consts del: run_simps\<close>)
  show "ns < length (wire l)" if "nl = 2" "ns = 2"
    using assms
  proof cases
    case (Streaming t a m u k)
    then show ?thesis using that in_flight_pending [OF Streaming(8)] by (auto simp: streaming_def serving_def chunk_consts)
  qed (use that in \<open>simp_all add: chunk_consts del: run_simps\<close>)
  show "\<not> ns < length (wire l) \<and> (\<exists>u. fetching 0 ps u c d 1 l)" if "nl = 2" "ns = 3"
    using assms
  proof cases
    case (Streaming t a m u k)
    then show ?thesis using that in_flight_pending [OF Streaming(8)] by (auto simp: streaming_def serving_def chunk_consts)
  qed (use that in \<open>simp_all add: chunk_consts del: run_simps\<close>)
qed

lemma early_session:
  assumes "session adr pl ps cs c d v0 w0 0 0 0 n"
  shows "to_leecher n = 0 \<Longrightarrow> to_seeder n = 0 \<Longrightarrow> pending To_Seeder n"
    and "to_leecher n = 0 \<Longrightarrow> to_seeder n = 1 \<Longrightarrow> pending To_Leecher n"
    and "to_leecher n = 1 \<Longrightarrow> to_seeder n = 1 \<Longrightarrow> pending To_Seeder n"
    and "to_leecher n = 1 \<Longrightarrow> to_seeder n = 2 \<Longrightarrow> pending To_Leecher n \<and> \<not> pending To_Seeder n \<and> (\<exists>u. fetching 0 ps u c d 0 (leecher n))"
    and "to_leecher n = 2 \<Longrightarrow> to_seeder n = 2 \<Longrightarrow> pending To_Seeder n"
    and "to_leecher n = 2 \<Longrightarrow> to_seeder n = 3 \<Longrightarrow> \<not> pending To_Seeder n \<and> (\<exists>u. fetching 0 ps u c d 1 (leecher n))"
proof -
  have ph: "phase adr pl ps cs c d v0 w0 0 0 0 (seeder n) (leecher n) (to_leecher n) (to_seeder n)"
    using assms by (simp add: session_def)
  note early = early_phase [OF ph, folded pending_wire]
  show "to_leecher n = 0 \<Longrightarrow> to_seeder n = 0 \<Longrightarrow> pending To_Seeder n" by (rule early(1))
  show "to_leecher n = 0 \<Longrightarrow> to_seeder n = 1 \<Longrightarrow> pending To_Leecher n" by (rule early(2))
  show "to_leecher n = 1 \<Longrightarrow> to_seeder n = 1 \<Longrightarrow> pending To_Seeder n" by (rule early(3))
  show "to_leecher n = 1 \<Longrightarrow> to_seeder n = 2 \<Longrightarrow> pending To_Leecher n \<and> \<not> pending To_Seeder n \<and> (\<exists>u. fetching 0 ps u c d 0 (leecher n))" by (rule early(4))
  show "to_leecher n = 2 \<Longrightarrow> to_seeder n = 2 \<Longrightarrow> pending To_Seeder n" by (rule early(5))
  show "to_leecher n = 2 \<Longrightarrow> to_seeder n = 3 \<Longrightarrow> \<not> pending To_Seeder n \<and> (\<exists>u. fetching 0 ps u c d 1 (leecher n))"
    by (rule early(6))
qed

definition request_turns :: "delivery list" where
  "request_turns = [To_Seeder, To_Leecher, To_Seeder]"

definition first_turns :: "delivery list" where
  "first_turns = request_turns @ [To_Leecher, To_Seeder]"

lemma request_turns_run:
  assumes "session adr pl ps cs c d v0 w0 0 0 0 n" and w0: "one_missing c w0" and "to_leecher n = 0" "to_seeder n = 0"
  shows "\<exists>n' u. fold_result (deliver adr) request_turns n = Inr n' \<and> session adr pl ps cs c d v0 w0 0 0 0 n' \<and>
           \<not> pending To_Seeder n' \<and> fetching 0 ps u c d 0 (leecher n') \<and> to_leecher n' = 1 \<and> to_seeder n' = 2"
proof -
  note turn = session_turn [OF _ w0] and early = early_session
  obtain n1 where n1: "deliver adr To_Seeder n = Inr n1" "session adr pl ps cs c d v0 w0 0 0 0 n1" "to_leecher n1 = 0" "to_seeder n1 = 1"
    using turn(1) [OF assms(1) early(1) [OF assms(1)]] assms(3,4) by auto
  obtain n2 where n2: "deliver adr To_Leecher n1 = Inr n2" "session adr pl ps cs c d v0 w0 0 0 0 n2" "to_leecher n2 = 1" "to_seeder n2 = 1"
    using turn(2) [OF n1(2) early(2) [OF n1(2)]] n1(3,4) by auto
  obtain n3 where n3: "deliver adr To_Seeder n2 = Inr n3" "session adr pl ps cs c d v0 w0 0 0 0 n3" "to_leecher n3 = 1" "to_seeder n3 = 2"
    using turn(1) [OF n2(2) early(3) [OF n2(2)]] n2(3,4) by auto
  have "fold_result (deliver adr) request_turns n = Inr n3"
    using n1(1) n2(1) n3(1) by (simp add: request_turns_def del: deliver.simps)
  then show ?thesis using n3(2-4) early(4) [OF n3(2)] by blast
qed

lemma first_turns_run:
  assumes "session adr pl ps cs c d v0 w0 0 0 0 n" and w0: "one_missing c w0" and "to_leecher n = 0" "to_seeder n = 0"
  shows "\<exists>n' u. fold_result (deliver adr) first_turns n = Inr n' \<and> session adr pl ps cs c d v0 w0 0 0 0 n' \<and>
           \<not> pending To_Seeder n' \<and> fetching 0 ps u c d 1 (leecher n')"
proof -
  note turn = session_turn [OF _ w0] and early = early_session
  obtain n3 where n3: "fold_result (deliver adr) request_turns n = Inr n3" "session adr pl ps cs c d v0 w0 0 0 0 n3"
    "to_leecher n3 = 1" "to_seeder n3 = 2"
    using request_turns_run [OF assms] by blast
  obtain n4 where n4: "deliver adr To_Leecher n3 = Inr n4" "session adr pl ps cs c d v0 w0 0 0 0 n4" "to_leecher n4 = 2" "to_seeder n4 = 2"
    using turn(2) [OF n3(2)] early(4) [OF n3(2)] n3(3,4) by auto
  obtain n5 where n5: "deliver adr To_Seeder n4 = Inr n5" "session adr pl ps cs c d v0 w0 0 0 0 n5" "to_leecher n5 = 2" "to_seeder n5 = 3"
    using turn(1) [OF n4(2) early(5) [OF n4(2)]] n4(3,4) by auto
  have "fold_result (deliver adr) first_turns n = Inr n5"
    using n3(1) n4(1) n5(1) by (simp add: first_turns_def fold_result_append del: deliver.simps)
  then show ?thesis using n5(2) early(6) [OF n5(2)] n5(3,4) by blast
qed

text \<open>The two idle peers of the session's example, with a leecher whose clock ticks every four seconds.\<close>

definition slow_leecher :: world where
  "slow_leecher = demo_leecher\<lparr>clock := (\<lambda>i. \<lparr>tv_sec = 4 * int i, tv_usec = 0\<rparr>)\<rparr>"

lemma slow_asking: "asking 0 (replicate BT_CHUNK_SIZE 0) slow_leecher" "one_missing 0 slow_leecher"
proof -
  have "peer_ok (demo_leecher\<lparr>clock := f\<rparr>) = peer_ok demo_leecher" for f
    by (simp add: peer_ok_def server_ok_def serves_def have_sized_def transfers_ok_def request_ok_def)
  then show "asking 0 (replicate BT_CHUNK_SIZE 0) slow_leecher" using demo_asking(1) by (simp add: slow_leecher_def asking_def)
  show "one_missing 0 slow_leecher" using demo_asking(2) by (simp add: slow_leecher_def one_missing_def positions_ok_def)
qed

lemma slow_reading: "i \<le> 100 \<Longrightarrow> millitime_of (clock slow_leecher i) = of_nat (4000 * i)"
proof -
  assume "i \<le> 100"
  then have "4 * int i AND 0xfffff = 4 * int i"
    using take_bit_int_eq_self [of "4 * int i" 20] take_bit_eq_mask [of 20 "4 * int i"] by (simp add: mask_eq_exp_minus_1)
  then show ?thesis by (simp add: slow_leecher_def millitime_of_def)
qed

lemma slow_difference: "i < p \<Longrightarrow> p \<le> 100 \<Longrightarrow> TIMEOUT_THRESHOLD < millitime_of (clock slow_leecher p) - millitime_of (clock slow_leecher i)"
proof -
  assume a: "i < p" "p \<le> 100"
  have "(of_nat (4000 * p) - of_nat (4000 * i) :: u64) = of_nat (4000 * (p - i))"
    using a by (simp add: right_diff_distrib' of_nat_diff)
  moreover have "unat (of_nat (4000 * (p - i)) :: u64) = 4000 * (p - i)" using a by (simp only: unat_of_nat) simp
  ultimately show ?thesis using a slow_reading [of i] slow_reading [of p]
    by (simp only: word_less_nat_alt TIMEOUT_THRESHOLD_def) simp
qed

lemma slow_overdue: "i < p \<Longrightarrow> p \<le> 20 \<Longrightarrow> overdue 3 (clock slow_leecher) p (millitime_of (clock slow_leecher i))"
  by (simp add: eval_nat_numeral slow_difference)

lemma slow_start:
  "route demo_addresses 2 1 demo_seeder slow_leecher"
  "ready demo_seeder 0 (replicate BT_CHUNK_SIZE 0) (max_conn (seeder_config demo_addresses)) demo_seeder"
  "sent demo_seeder = []" "asking 0 (replicate BT_CHUNK_SIZE 0) slow_leecher" "available (peer_heap slow_leecher 1) = 1"
  "map snd (sent slow_leecher) = [hash_message WHOHAS 0 [fips_sha1 (replicate BT_CHUNK_SIZE 0)]]" "one_missing 0 slow_leecher"
proof -
  show "route demo_addresses 2 1 demo_seeder slow_leecher"
    by (simp add: route_def find_peer_find slow_leecher_def demo_addresses_def demo_peers_def demo_zeros_defs)
  have "max_conn (seeder_config demo_addresses) = 4" by (simp add: demo_addresses_def demo_peers_def)
  then show "ready demo_seeder 0 (replicate BT_CHUNK_SIZE 0) (max_conn (seeder_config demo_addresses)) demo_seeder"
    using demo_ready by simp
  show "asking 0 (replicate BT_CHUNK_SIZE 0) slow_leecher" "one_missing 0 slow_leecher" by (rule slow_asking)+
qed (simp_all add: slow_leecher_def demo_zeros_defs)

theorem lost_window_is_recovered_witness:
  "\<exists>n n'. fold_result (deliver demo_addresses) first_turns (start demo_seeder slow_leecher) = Inr n \<and>
     fold_result (net_step demo_addresses) (Lose_Data # recovery @ recovery @ recovery @
       map Turn (concat (replicate 1053 [To_Leecher, To_Seeder]))) n = Inr n' \<and> missing_chunks (leecher n') = []"
proof -
  note s = session_start [OF slow_start(1-6)]
  obtain n u where n: "fold_result (deliver demo_addresses) first_turns (start demo_seeder slow_leecher) = Inr n"
    "session demo_addresses 2 1 0 0 (replicate BT_CHUNK_SIZE 0) demo_seeder slow_leecher 0 0 0 n" "\<not> pending To_Seeder n"
    "fetching 0 1 u 0 (replicate BT_CHUNK_SIZE 0) 1 (leecher n)"
    using first_turns_run [OF s slow_start(7)] by (auto simp: start_def)
  have m: "missing_chunks (leecher n) \<noteq> []" "0 < bits_count (chunk_heap (leecher n) 0)"
    using fetching_member [OF n(4)] fetching_count [OF n(4)] by auto
  have pos: "clock_pos (leecher n) \<le> 20"
    using session_clock [OF s slow_start(7) n(1)]
    by (simp add: start_def slow_leecher_def demo_zeros_defs first_turns_def request_turns_def)
  have "same_request slow_leecher (leecher n)"
    using n(2) m(1) by (auto simp: session_def downloaded_def elim!: phase.cases)
  then have clk: "clock (leecher n) = clock slow_leecher" by (simp add: same_request_def)
  have late: "\<forall>t \<in> set (client_transfers (leecher n)).
      overdue 3 (clock (leecher n)) (clock_pos (leecher n)) (timestamp (transfer_heap (leecher n) t))"
  proof
    fix t assume "t \<in> set (client_transfers (leecher n))"
    then have "t = u" using fetching_only [OF n(4)] \<open>same_request slow_leecher (leecher n)\<close> slow_asking(1)
      by (auto simp: same_request_def asking_def)
    then show "overdue 3 (clock (leecher n)) (clock_pos (leecher n)) (timestamp (transfer_heap (leecher n) t))"
      using n(4) slow_overdue pos clk by (auto simp: fetching_def)
  qed
  have roles: "server_transfers demo_seeder = []" "missing_chunks demo_seeder = []" "server_transfers slow_leecher = []"
    by (simp_all add: slow_leecher_def demo_zeros_defs)
  have fair: "dir \<in> set r" if "r \<in> set (replicate 1053 [To_Leecher, To_Seeder])" for r dir
    using that by (cases dir) auto
  obtain n' where "fold_result (net_step demo_addresses) (Lose_Data # recovery @ recovery @ recovery @
      map Turn (concat (replicate 1053 [To_Leecher, To_Seeder]))) n = Inr n'" "downloaded 0 (replicate BT_CHUNK_SIZE 0) slow_leecher (leecher n')"
    using lost_window_is_recovered [where rounds = "replicate 1053 [To_Leecher, To_Seeder]", OF slow_start roles n(1) m n(3) late fair]
    by auto
  then show ?thesis using n(1) unfolding downloaded_def by blast
qed

lemma full_seeder_faults:
  assumes "packet_arrays (stack_packet w)" and "limit \<le> int (length (server_transfers w))" and "0 < length (hash_list pack)"
  shows "receive_GET pack p limit w = Inl Out_Of_Bounds"
  using assms send_DENIED_faults [OF assms(1)] by (auto simp: receive_GET_def array_get_def split: option.split)

text \<open>
  Claim C36. The first data packet is the weak point of the protocol. If it is lost, the leecher has
  no part to acknowledge and repeats its \<open>GET\<close> when the transfer times out. A seeder that serves at
  most one transfer at a time takes the repeated \<open>GET\<close> for a request of another transfer, tries to
  send \<open>DENIED\<close> and writes past the end of the packet: one lost datagram between two honest peers ends
  the seeder.
\<close>

theorem lost_first_packet_ends_seeder:
  assumes start: "route adr pl ps s l" "ready s cs d (max_conn (seeder_config adr)) s" "sent s = []" "asking c d l"
      "available (peer_heap l ps) = 1" "map snd (sent l) = [hash_message WHOHAS 0 [fips_sha1 d]]" "one_missing c l"
    and roles: "server_transfers s = []" "missing_chunks s = []" "server_transfers l = []" and "max_conn (seeder_config adr) = 1"
    and n: "fold_result (deliver adr) turns (start s l) = Inr n" "client_transfers (leecher n) \<noteq> []"
      "bits_count (chunk_heap (leecher n) c) = 0" "\<not> pending To_Seeder n" "missing_chunks (leecher n) \<noteq> []"
    and late: "\<forall>t \<in> set (client_transfers (leecher n)).
      overdue 1 (clock (leecher n)) (clock_pos (leecher n)) (timestamp (transfer_heap (leecher n) t))"
  shows "fold_result (net_step adr) [Lose_Data, Quiet, Turn To_Seeder] n = Inl Out_Of_Bounds"
proof -
  have s: "session adr pl ps cs c d s l 0 0 0 n"
    using session_turns [OF session_start [OF start(1-6)] start(7), of turns] n(1) by auto
  obtain t m u k where h: "streaming s pl t d k m (seeder n)" "fetching 0 ps u c d k (leecher n)" "same_request l (leecher n)"
    "in_flight (to_seeder n) (wire (leecher n)) []"
    using session_agreed [OF s n(5,2,4)] by metis
  have k: "k = 0" using fetching_count [OF h(2)] n(3) by simp
  have sv: "serving s pl t d k m (seeder n)" and e: "timeout_count (cc (seeder n) t) = 0" using h(1) by (simp_all add: streaming_def)
  obtain v where v: "handle_timeout (seeder_config adr) (seeder n) = Inr v" "serving s pl t d k m v"
    "\<forall>q. peer_addr (peer_heap v q) = peer_addr (peer_heap (seeder n) q)"
    using seeder_quiet [OF sv roles(1,2) e, of "seeder_config adr"] by blast
  have out: "TIMEOUT_THRESHOLD < now_of (leecher n) - timestamp (transfer_heap (leecher n) u)"
    using late fetching_member [OF h(2)] by simp
  have "missing_chunks (leecher n) = [c]" "server_transfers (leecher n) = []"
    using h(3) roles start(7) by (simp_all add: same_request_def one_missing_def)
  then obtain w where w: "handle_timeout (leecher_config adr) (leecher n) = Inr w" "same_request (leecher n) w"
    "wire w = wire (leecher n) @ [get_msg d]"
    using leecher_quiet_get [OF h(2) [unfolded k] _ _ _ out, of "leecher_config adr"] by (auto simp: get_msg_def)
  let ?n = "n\<lparr>seeder := v, leecher := w, to_leecher := length (sent (seeder n))\<rparr>"
  have "in_flight (to_seeder n) (wire w) [get_msg d]" using in_flight_append [OF h(4), of "[get_msg d]"] w(3) by simp
  then have fl: "to_seeder ?n < length (wire (leecher ?n))" "wire (leecher ?n) ! to_seeder ?n = get_msg d"
    using in_flight_pending in_flight_next by fastforce+
  have rt: "route adr pl ps (seeder ?n) (leecher ?n)"
    using s v(3) w(2) by (auto simp: session_def same_request_def intro: route_addr)
  obtain pack where pk: "deserialize_packet (get_msg d @ fill adr (get_msg d)) = Inr (Some pack)" "ptype pack = GET"
    "length (hash_list pack) = MAX_HASH_IN_PACKET"
    using deserialize_hash [of GET "fips_sha1 d" 1] by (auto simp: get_msg_def has_hashes_def length_fips_sha1)
  have tv: "serving s pl t d k m (touch pl v)" by (rule serving_touch [OF v(2)])
  have "packet_arrays (stack_packet (touch pl v))" using tv by (simp add: serving_def server_ok_def)
  moreover have "server_transfers (touch pl v) = [t]" by (rule serving_only [OF tv roles(1)])
  ultimately have "receive_GET pack pl 1 (touch pl v) = Inl Out_Of_Bounds"
    using pk(3) by (intro full_seeder_faults) (simp_all add: packet_consts chunk_consts)
  then have "deliver adr To_Seeder ?n = Inl Out_Of_Bounds"
    using deliver_to_seeder [OF rt fl(1)] fl(2) pk assms(11) by (simp add: dispatch_def del: deliver.simps)
  moreover have "net_step adr Quiet (n\<lparr>to_leecher := length (sent (seeder n))\<rparr>) = Inr ?n" using v(1) w(1) by simp
  ultimately show ?thesis by (simp only: fold_result.simps net_step.simps(1,2) bind_result_Inr bind_result_Inl)
qed

definition narrow_addresses :: addresses where
  "narrow_addresses = demo_addresses\<lparr>seeder_config := demo_peers\<lparr>max_conn := 1\<rparr>\<rparr>"

theorem lost_first_packet_ends_seeder_witness:
  "\<exists>n. fold_result (deliver narrow_addresses) request_turns (start demo_seeder slow_leecher) = Inr n \<and>
     fold_result (net_step narrow_addresses) [Lose_Data, Quiet, Turn To_Seeder] n = Inl Out_Of_Bounds"
proof -
  have limit: "max_conn (seeder_config narrow_addresses) = 1" by (simp add: narrow_addresses_def)
  have "route narrow_addresses 2 1 demo_seeder slow_leecher"
    using slow_start(1) by (simp add: route_def find_peer_find narrow_addresses_def demo_addresses_def)
  moreover have "ready demo_seeder 0 (replicate BT_CHUNK_SIZE 0) (max_conn (seeder_config narrow_addresses)) demo_seeder"
    unfolding limit using demo_ready by (simp add: ready_def) (simp add: demo_zeros_defs)
  moreover note slow_start(3-7)
  ultimately have start: "route narrow_addresses 2 1 demo_seeder slow_leecher"
    "ready demo_seeder 0 (replicate BT_CHUNK_SIZE 0) (max_conn (seeder_config narrow_addresses)) demo_seeder" by blast+
  note s = session_start [OF start slow_start(3-6)]
  obtain n u where n: "fold_result (deliver narrow_addresses) request_turns (start demo_seeder slow_leecher) = Inr n"
    "session narrow_addresses 2 1 0 0 (replicate BT_CHUNK_SIZE 0) demo_seeder slow_leecher 0 0 0 n" "\<not> pending To_Seeder n"
    "fetching 0 1 u 0 (replicate BT_CHUNK_SIZE 0) 0 (leecher n)"
    using request_turns_run [OF s slow_start(7)] by (auto simp: start_def)
  have m: "client_transfers (leecher n) \<noteq> []" "bits_count (chunk_heap (leecher n) 0) = 0" "missing_chunks (leecher n) \<noteq> []"
    using fetching_member [OF n(4)] fetching_count [OF n(4)] by auto
  have pos: "clock_pos (leecher n) \<le> 20"
    using session_clock [OF s slow_start(7) n(1)]
    by (simp add: start_def slow_leecher_def demo_zeros_defs request_turns_def)
  have same: "same_request slow_leecher (leecher n)"
    using n(2) m(3) by (auto simp: session_def downloaded_def elim!: phase.cases)
  then have "clock (leecher n) = clock slow_leecher" "missing_chunks (leecher n) = [0]"
    using slow_asking(1) by (simp_all add: same_request_def asking_def)
  then have late: "\<forall>t \<in> set (client_transfers (leecher n)).
      overdue 1 (clock (leecher n)) (clock_pos (leecher n)) (timestamp (transfer_heap (leecher n) t))"
    using n(4) pos slow_difference fetching_only [OF n(4)] by (auto simp: fetching_def)
  have roles: "server_transfers demo_seeder = []" "missing_chunks demo_seeder = []" "server_transfers slow_leecher = []"
    by (simp_all add: slow_leecher_def demo_zeros_defs)
  show ?thesis
    using lost_first_packet_ends_seeder [OF start slow_start(3-7) roles limit n(1) m(1,2) n(3) m(3) late] n(1) by blast
qed

end
