(* ===== verification/File_Session.thy ===== *)
theory File_Session
  imports Session
begin

text \<open>
  The download of a whole file: as in \<open>Session\<close>, but the leecher misses any number of chunks that one
  \<open>WHOHAS\<close> can name, and the seeder owns them all. They are fetched one after the other: the
  acknowledgement of the last part of a chunk is followed by the \<open>GET\<close> for the next one, which reaches
  the seeder when the transfer before it is closed.
\<close>

section \<open>The leecher\<close>

lemma working_member:
  assumes "working p t c d k rest fin w"
  shows "peer_ok w" "c \<notin> set (have_chunks w)" "distinct (c # map fst rest)" "t \<in> set (client_transfers w)" "length d = BT_CHUNK_SIZE"
proof -
  have m: "missing_chunks w = c # map fst rest" and ok: "peer_ok w" using assms by (simp_all add: working_def fetching_def)
  then have "distinct (missing_chunks w)" "set (missing_chunks w) \<inter> set (have_chunks w) = {}"
    unfolding peer_ok_def chunks_ok_def by blast+
  then show "peer_ok w" "c \<notin> set (have_chunks w)" "distinct (c # map fst rest)" using ok unfolding m by auto
qed (use assms in \<open>simp_all add: working_def fetching_def\<close>)

lemma working_touch:
  assumes "working p t c d k rest fin w"
  shows "working p t c d k rest fin (touch q w)"
  using assms fetching_touch [of 0 p t c d k w q] by (simp add: working_def) (simp add: touch_def world_defs)

text \<open>The frame of a download of many chunks: the list of missing chunks is what changes.\<close>

definition same_wish :: "world \<Rightarrow> world \<Rightarrow> bool" where
  "same_wish w w' \<longleftrightarrow> same_request (w\<lparr>missing_chunks := missing_chunks w'\<rparr>) w'"

lemma same_wish_refl [simp]: "same_wish w w"
  by (simp add: same_wish_def same_request_def)

lemma same_wish_request: "same_wish w w1 \<Longrightarrow> same_request w1 w2 \<Longrightarrow> same_wish w w2"
  by (simp add: same_wish_def same_request_def)

lemma same_wish_trans: "same_wish w w1 \<Longrightarrow> same_wish w1 w2 \<Longrightarrow> same_wish w w2"
  by (simp add: same_wish_def same_request_def)

lemma working_store:
  assumes f: "working p t c d k rest fin w" and k: "k < MAX_SEQ_NUM"
  shows "\<exists>v. receive_DATA (data_packet d k) p w = (if Suc k = MAX_SEQ_NUM then finish_chunk t v else Inr v) \<and>
           working p t c d (Suc k) rest fin v \<and> same_request w v \<and> clock_pos v = Suc (clock_pos w) \<and>
           sent v = sent w @ [(peer_addr (peer_heap w p), ack_bytes (Suc k))]"
proof -
  have w: "fetching 0 p t c d k w" using f by (simp add: working_def)
  obtain v where v: "receive_DATA (data_packet d k) p w = (if Suc k = MAX_SEQ_NUM then finish_chunk t v else Inr v)"
    "fetching 0 p t c d (Suc k) v" "same_request w v" "clock_pos v = Suc (clock_pos w)"
    "sent v = sent w @ [(peer_addr (peer_heap w p), ack_bytes (Suc k))]"
    "\<And>x. x \<noteq> c \<Longrightarrow> chunk_heap v x = chunk_heap w x" "client_transfers v = client_transfers w"
    "have_chunks v = have_chunks w" "tr_peer (transfer_heap v t) = tr_peer (transfer_heap w t)"
    using leecher_store [OF w k] by metis
  have other: "x \<noteq> c" if "(x, y) \<in> set rest \<or> (x, y) \<in> set fin" for x y
    using that working_member(2,3) [OF f] f by (force simp: working_def)
  have "working p t c d (Suc k) rest fin v"
    using f v(2,3) v(6) [OF other] v(7-9) unfolding working_def by (fastforce simp: same_request_def)
  then show ?thesis using v(1,3-5) by blast
qed

text \<open>The chunk is complete, and the next one is requested.\<close>

lemma leecher_next:
  assumes f: "working p t c d MAX_SEQ_NUM ((c', d') # rest) fin w"
  shows "\<exists>w'. finish_chunk t w = Inr w' \<and> working p (transfer_top w) c' d' 0 rest ((c, d) # fin) w' \<and> same_wish w w' \<and>
           clock_pos w' = clock_pos w + 2 \<and> sent w' = sent w @ [(peer_addr (peer_heap w p), hash_message GET 1 [fips_sha1 d'])]"
proof -
  have w: "fetching 0 p t c d MAX_SEQ_NUM w" and tp: "tr_peer (transfer_heap w t) = p" and only: "client_transfers w = [t]"
    and m: "missing_chunks w = c # c' # map fst rest"
    and todo: "\<And>x y. (x, y) \<in> set ((c', d') # rest) \<Longrightarrow> chunk_peer (chunk_heap w x) = [p] \<and> unfetched y (chunk_heap w x)"
    and fin: "\<And>x y. (x, y) \<in> set fin \<Longrightarrow> x \<in> set (have_chunks w) \<and> chunk_data (chunk_heap w x) = y"
    using f by (auto simp: working_def)
  have ok: "peer_ok w" and c: "tr_chunk (transfer_heap w t) = c" and hash: "bin_hash (chunk_heap w c) = fips_sha1 d"
    using w by (auto simp: fetching_def)
  have mem: "t \<in> set (client_transfers w)" using only by simp
  have data: "chunk_data (chunk_heap w c) = d"
    by (rule file_by_parts) (use w fetching_member [OF w] in \<open>auto simp: fetching_def chunk_sized_def\<close>)
  then have ver: "verified (chunk_heap w c)" using hash by (simp add: verified_def)
  let ?v = "w\<lparr>missing_chunks := c' # map fst rest, have_chunks := c # have_chunks w\<rparr>"
  let ?u = "delete_client_transfer t ?v"
  have val: "validate_chunk t w = Inr (True, ?v)" using validate_chunk_eq [OF ok mem] ver by (simp add: c m)
  have chk: "check_all_received ?v = Inr ?v" by (simp add: check_all_received_def)
  have oku: "peer_ok ?u" by (rule complete_ok [OF ok mem c [symmetric] ver]) (simp add: m chk)
  have u: "missing_chunks ?u = c' # map fst rest" "client_transfers ?u = []" "chunk_heap ?u = chunk_heap w"
    "available (peer_heap ?u p) = 1" "have_chunks ?u = c # have_chunks w" "transfer_top ?u = transfer_top w"
    "sent ?u = sent w" "clock_pos ?u = clock_pos w" "peer_addr (peer_heap ?u p) = peer_addr (peer_heap w p)" "same_wish w ?u"
    by (simp_all add: delete_client_transfer_def delete_transfer_def world_defs only tp same_wish_def same_request_def)
  have init: "init_data_transfer ?u = Inr (EXIT_FAILURE, opened p c' d' ?u)"
  proof (rule request_next [OF _ u(1,2) _ u(4)])
    show "packet_arrays (stack_packet ?u)" using oku by (simp add: peer_ok_def server_ok_def)
    show "chunk_peer (chunk_heap ?u x) = [p]" if x: "x \<in> set (c' # map fst rest)" for x
    proof -
      obtain y where "(x, y) \<in> set ((c', d') # rest)" using x by force
      then show ?thesis unfolding u(3) using todo by blast
    qed
    show "bin_hash (chunk_heap ?u c') = fips_sha1 d'" using todo [of c' d'] by (simp add: u(3) unfetched_def)
  qed
  have "working p (transfer_top ?u) c' d' 0 rest ((c, d) # fin) (opened p c' d' ?u)"
    by (rule working_opened [OF init oku u(1)]) (use todo fin data in \<open>auto simp: u(3,5)\<close>)
  moreover have "finish_chunk t w = Inr (opened p c' d' ?u)" by (simp add: finish_chunk_def val chk init)
  moreover have "same_wish w (opened p c' d' ?u)" using u(10) opened_facts(9) by (rule same_wish_request)
  ultimately show ?thesis
    using opened_facts(10,11) [where p = p and c = c' and d = d' and w = ?u] u(6-9) by (intro exI [of _ "opened p c' d' ?u"]) simp
qed

text \<open>The question about all chunks of the list, and its answer.\<close>

definition hashes_of :: "(cptr \<times> byte list) list \<Rightarrow> byte list list" where
  "hashes_of todo = map (\<lambda>(c, d). fips_sha1 d) todo"

lemma hashes_of_simps [simp]: "length (hashes_of todo) = length todo" "h \<in> set (hashes_of todo) \<Longrightarrow> length h = BIN_HASH_SIZE"
  by (auto simp: hashes_of_def length_fips_sha1)

definition whohas_all :: "(cptr \<times> byte list) list \<Rightarrow> byte list" where "whohas_all todo = hash_message WHOHAS 0 (hashes_of todo)"
definition ihave_all :: "(cptr \<times> byte list) list \<Rightarrow> byte list" where "ihave_all todo = hash_message IHAVE 0 (hashes_of todo)"

lemma asking_all_touch: "asking_all todo w \<Longrightarrow> asking_all todo (touch p w)"
  using peer_ok_touch [of w] by (simp add: asking_all_def) (simp add: touch_def world_defs)

lemma leecher_takes_ihave_all:
  assumes a: "asking_all ((c, d) # rest) l" and "available (peer_heap l ps) = 1" and n: "Suc (length rest) \<le> MAX_HASH_IN_PACKET"
    and find: "find_peer (peer_heap l) (leecher_config adr) (seeder_addr adr) = Some ps"
  shows "\<exists>w u. leecher_takes adr ps (ihave_all ((c, d) # rest)) l w \<and> working ps u c d 0 rest [] w \<and> same_request l w \<and>
           wire w = wire l @ [get_msg d]"
proof -
  let ?todo = "(c, d) # rest" and ?l = "touch ps l"
  obtain pack where pk: "deserialize_packet (ihave_all ?todo @ fill adr (ihave_all ?todo)) = Inr (Some pack)" "ptype pack = IHAVE"
    "unat (hash_num pack) = length ?todo" "length (hash_list pack) = MAX_HASH_IN_PACKET" "take (length ?todo) (hash_list pack) = hashes_of ?todo"
    using deserialize_hashes [of IHAVE "hashes_of ?todo" 0] n by (auto simp: ihave_all_def has_hashes_def)
  have av: "available (peer_heap ?l ps) = 1" using assms(2) by (simp add: touch_def world_defs)
  have hashes: "take (unat (hash_num pack)) (hash_list pack) = map (\<lambda>(c, d). fips_sha1 d) ?todo" "unat (hash_num pack) \<le> MAX_HASH_IN_PACKET"
    using pk(3,5) n by (simp_all add: hashes_of_def)
  obtain w where w: "receive_IHAVE pack (leecher_config adr) (seeder_addr adr) ?l = Inr w"
    "working ps (transfer_top ?l) c d 0 rest [] w" "same_request ?l w" "clock_pos w = clock_pos ?l + 3"
    "sent w = sent ?l @ [(peer_addr (peer_heap ?l ps), hash_message GET 1 [fips_sha1 d])]"
    using leecher_ihave_all [OF asking_all_touch [OF a] _ av pk(4) hashes] find find_peer_touch by metis
  have "same_request l w" using same_request_trans [OF same_request_touch(1) w(3)] .
  moreover from this have "leecher_takes adr ps (ihave_all ?todo) l w"
    unfolding leecher_takes_def dispatch_def using pk(1,2) w(1,4) by (auto simp: same_request_def clock_touch)
  ultimately show ?thesis using w(2) wire_append [OF w(5)] by (metis get_msg_def list.simps(8,9) snd_conv wire_touch)
qed

text \<open>What a data packet does before \<open>finish_chunk\<close> runs, if it does.\<close>

lemma leecher_takes_store:
  assumes "working ps u c d k rest fin l" and "k < MAX_SEQ_NUM"
  shows "\<exists>v. working ps u c d (Suc k) rest fin v \<and> same_request l v \<and> clock_pos v = clock_pos l + 2 \<and>
           wire v = wire l @ [ack_bytes (Suc k)] \<and>
           (\<forall>w. (if Suc k = MAX_SEQ_NUM then finish_chunk u v else Inr v) = Inr w \<longrightarrow> clock_pos w \<le> clock_pos v + 2 \<longrightarrow>
              (\<forall>q. peer_addr (peer_heap w q) = peer_addr (peer_heap v q)) \<longrightarrow> leecher_takes adr ps (data_bytes d k) l w)"
proof -
  obtain v where v: "receive_DATA (data_packet d k) ps (touch ps l) = (if Suc k = MAX_SEQ_NUM then finish_chunk u v else Inr v)"
    "working ps u c d (Suc k) rest fin v" "same_request (touch ps l) v" "clock_pos v = Suc (clock_pos (touch ps l))"
    "sent v = sent (touch ps l) @ [(peer_addr (peer_heap (touch ps l) ps), ack_bytes (Suc k))]"
    using working_store [OF working_touch [OF assms(1)] assms(2)] by blast
  have same: "same_request l v" using same_request_trans [OF same_request_touch(1) v(3)] .
  have "ptype (data_packet d k) = DATA" by (simp add: data_packet_def)
  then have "leecher_takes adr ps (data_bytes d k) l w"
    if "(if Suc k = MAX_SEQ_NUM then finish_chunk u v else Inr v) = Inr w" "clock_pos w \<le> clock_pos v + 2"
      "\<forall>q. peer_addr (peer_heap w q) = peer_addr (peer_heap v q)" for w
    unfolding leecher_takes_def dispatch_def using data_packet_arrives that v(1,4) same by (auto simp: same_request_def clock_touch)
  moreover have "wire v = wire l @ [ack_bytes (Suc k)]" using wire_append [OF v(5)] by (simp add: wire_touch)
  ultimately show ?thesis using v(2,4) same by (intro exI [of _ v]) (simp add: clock_touch)
qed

lemma leecher_takes_part:
  assumes "working ps u c d k rest fin l" and "Suc k < MAX_SEQ_NUM"
  shows "\<exists>w. leecher_takes adr ps (data_bytes d k) l w \<and> working ps u c d (Suc k) rest fin w \<and> same_wish l w \<and>
           wire w = wire l @ [ack_bytes (Suc k)]"
  using leecher_takes_store [OF assms(1), of adr] assms(2) same_wish_request [OF same_wish_refl, of l] by fastforce

lemma leecher_takes_next:
  assumes "working ps u c d k ((c', d') # rest) fin l" and "Suc k = MAX_SEQ_NUM"
  shows "\<exists>w u'. leecher_takes adr ps (data_bytes d k) l w \<and> working ps u' c' d' 0 rest ((c, d) # fin) w \<and> same_wish l w \<and>
           wire w = wire l @ [ack_bytes MAX_SEQ_NUM, get_msg d']"
proof -
  obtain v where v: "working ps u c d MAX_SEQ_NUM ((c', d') # rest) fin v" "same_request l v" "clock_pos v = clock_pos l + 2"
    "wire v = wire l @ [ack_bytes MAX_SEQ_NUM]"
    "\<And>w. finish_chunk u v = Inr w \<Longrightarrow> clock_pos w \<le> clock_pos v + 2 \<Longrightarrow>
       \<forall>q. peer_addr (peer_heap w q) = peer_addr (peer_heap v q) \<Longrightarrow> leecher_takes adr ps (data_bytes d k) l w"
    using leecher_takes_store [OF assms(1), of adr] assms(2) by auto
  obtain w where w: "finish_chunk u v = Inr w" "working ps (transfer_top v) c' d' 0 rest ((c, d) # fin) w" "same_wish v w"
    "clock_pos w = clock_pos v + 2" "sent w = sent v @ [(peer_addr (peer_heap v ps), hash_message GET 1 [fips_sha1 d'])]"
    using leecher_next [OF v(1)] by blast
  have "leecher_takes adr ps (data_bytes d k) l w"
    using v(5) w(1,3,4) by (simp add: same_wish_def same_request_def)
  moreover have "same_wish l w" using same_wish_trans [OF same_wish_request [OF same_wish_refl v(2)] w(3)] .
  moreover have "wire w = wire l @ [ack_bytes MAX_SEQ_NUM, get_msg d']"
    using wire_append [OF w(5)] v(4) by (simp add: get_msg_def)
  ultimately show ?thesis using w(2) by blast
qed

text \<open>
  The request of the world \<open>w0\<close> is served in \<open>w\<close>: the output file has the data of every chunk of the list
  at its position, and data of the right hash at the position of every wanted chunk.
\<close>

definition file_downloaded :: "(cptr \<times> byte list) list \<Rightarrow> world \<Rightarrow> world \<Rightarrow> bool" where
  "file_downloaded todo w0 w \<longleftrightarrow>
     missing_chunks w = [] \<and>
     (\<exists>out f. user_output_filename w0 = Some out \<and> files w out = Some f \<and>
        (\<forall>(c, d) \<in> set todo. block f (unat (chunk_id (chunk_heap w0 c))) = d) \<and>
        (\<forall>x \<in> set (wanted_chunks w0). fips_sha1 (block f (unat (chunk_id (chunk_heap w0 x)))) = bin_hash (chunk_heap w0 x)))"

lemma leecher_last:
  assumes f: "working p t c d MAX_SEQ_NUM [] fin w" and same: "same_wish w0 w"
    and wanted: "fst ` set ((c, d) # fin) \<subseteq> set (wanted_chunks w0)" and pos: "positions_ok w0"
  shows "\<exists>w'. finish_chunk t w = Inr w' \<and> file_downloaded ((c, d) # fin) w0 w' \<and> sent w' = sent w \<and> clock_pos w' = clock_pos w \<and>
           (\<forall>q. peer_addr (peer_heap w' q) = peer_addr (peer_heap w q))"
proof -
  have w: "fetching 0 p t c d MAX_SEQ_NUM w" and m: "missing_chunks w = [c]"
    and fin: "\<And>x y. (x, y) \<in> set fin \<Longrightarrow> chunk_data (chunk_heap w x) = y"
    using f by (auto simp: working_def)
  have same': "wanted_chunks w = wanted_chunks w0" "user_output_filename w = user_output_filename w0"
    "bin_hash (chunk_heap w x) = bin_hash (chunk_heap w0 x)" "chunk_id (chunk_heap w x) = chunk_id (chunk_heap w0 x)" for x
    using same by (simp_all add: same_wish_def same_request_def)
  obtain w' out where w': "finish_chunk t w = Inr w'" "missing_chunks w' = []" "sent w' = sent w" "clock_pos w' = clock_pos w"
    "user_output_filename w = Some out" "files w' out = Some (output_of (chunk_heap w) (wanted_chunks w))"
    and data: "chunk_data (chunk_heap w c) = d" and addr: "\<forall>q. peer_addr (peer_heap w' q) = peer_addr (peer_heap w q)"
    using leecher_finish [OF w m] by blast
  let ?f = "output_of (chunk_heap w) (wanted_chunks w)"
  have ok: "peer_ok w" and ver: "verified (chunk_heap w c)" using w data by (auto simp: fetching_def verified_def)
  have "positions_ok w" using pos by (simp add: positions_ok_def same')
  note out = output_verified [OF ok m ver this]
  have "block ?f (unat (chunk_id (chunk_heap w0 x))) = y" if "(x, y) \<in> set ((c, d) # fin)" for x y
  proof -
    have "x \<in> set (wanted_chunks w)" using that wanted by (force simp: same')
    then show ?thesis using out [of x] that fin data by (auto simp: same')
  qed
  moreover have "fips_sha1 (block ?f (unat (chunk_id (chunk_heap w0 x)))) = bin_hash (chunk_heap w0 x)"
    if "x \<in> set (wanted_chunks w0)" for x
    using out [of x] that by (simp add: same' verified_def)
  ultimately have "file_downloaded ((c, d) # fin) w0 w'"
    unfolding file_downloaded_def using w'(2,5,6) same'(2) by auto
  then show ?thesis using w' addr by blast
qed

lemma leecher_takes_final:
  assumes "working ps u c d k [] fin l" and "Suc k = MAX_SEQ_NUM" and "same_wish w0 l"
    and "fst ` set ((c, d) # fin) \<subseteq> set (wanted_chunks w0)" and "positions_ok w0"
  shows "\<exists>w. leecher_takes adr ps (data_bytes d k) l w \<and> file_downloaded ((c, d) # fin) w0 w \<and>
           wire w = wire l @ [ack_bytes MAX_SEQ_NUM]"
proof -
  obtain v where v: "working ps u c d MAX_SEQ_NUM [] fin v" "same_request l v" "clock_pos v = clock_pos l + 2"
    "wire v = wire l @ [ack_bytes MAX_SEQ_NUM]"
    "\<And>w. finish_chunk u v = Inr w \<Longrightarrow> clock_pos w \<le> clock_pos v + 2 \<Longrightarrow>
       \<forall>q. peer_addr (peer_heap w q) = peer_addr (peer_heap v q) \<Longrightarrow> leecher_takes adr ps (data_bytes d k) l w"
    using leecher_takes_store [OF assms(1), of adr] assms(2) by auto
  obtain w where w: "finish_chunk u v = Inr w" "file_downloaded ((c, d) # fin) w0 w" "sent w = sent v" "clock_pos w = clock_pos v"
    "\<forall>q. peer_addr (peer_heap w q) = peer_addr (peer_heap v q)"
    using leecher_last [OF v(1) same_wish_request [OF assms(3) v(2)] assms(4,5)] by blast
  then show ?thesis using v(4,5) by (metis le_add1 wire_def)
qed

section \<open>The seeder\<close>

text \<open>The seeder serves nobody, and its chunks are those it started with.\<close>

definition at_rest :: "world \<Rightarrow> world \<Rightarrow> bool" where
  "at_rest v0 w \<longleftrightarrow> server_ok w \<and> steady w \<and> server_transfers w = [] \<and> server_frame v0 w"

text \<open>It owns one chunk of every hash of the list, with the data of that hash.\<close>

definition stocks :: "(cptr \<times> byte list) list \<Rightarrow> world \<Rightarrow> bool" where
  "stocks todo v0 \<longleftrightarrow>
     server_transfers v0 = [] \<and>
     (\<forall>(c, d) \<in> set todo. length d = BT_CHUNK_SIZE \<and>
        (\<exists>cs. filter (\<lambda>x. bin_hash (chunk_heap v0 x) = fips_sha1 d) (have_chunks v0) = [cs] \<and> chunk_data (chunk_heap v0 cs) = d))"

lemma at_rest_ready:
  assumes "at_rest v0 w" and "stocks todo v0" and "(c, d) \<in> set todo" and "0 < limit"
  shows "\<exists>cs. ready v0 cs d limit w"
  using assms by (fastforce simp: at_rest_def stocks_def ready_def server_frame_def find_by_chunk_hash_def)

lemma server_frame_emit: "server_frame w (emit a m w)"
  by (simp add: server_frame_def emit_def)

lemma owned_stock:
  assumes "at_rest v0 w" and "stocks todo v0" and "(c, d) \<in> set todo"
  shows "owned w (fips_sha1 d) = [fips_sha1 d]"
proof -
  obtain cs where cs: "filter (\<lambda>x. bin_hash (chunk_heap w x) = fips_sha1 d) (have_chunks w) = [cs]"
    using assms by (fastforce simp: at_rest_def stocks_def server_frame_def)
  have "filter (\<lambda>x. compare_bin_hash (bin_hash (chunk_heap w x)) (fips_sha1 d)) (have_chunks w) =
      filter (\<lambda>x. bin_hash (chunk_heap w x) = fips_sha1 d) (have_chunks w)"
    using assms(1) by (intro filter_cong) (auto simp: compare_bin_hash_iff length_fips_sha1 at_rest_def server_ok_def have_sized_def)
  moreover have "cs \<in> set (filter (\<lambda>x. bin_hash (chunk_heap w x) = fips_sha1 d) (have_chunks w))" unfolding cs by simp
  then have "bin_hash (chunk_heap w cs) = fips_sha1 d" by simp
  ultimately show ?thesis using cs by (simp add: owned_def)
qed

lemma owned_all:
  assumes "at_rest v0 w" and "stocks todo v0"
  shows "concat (map (owned w) (hashes_of todo)) = hashes_of todo"
proof -
  have one: "concat (map (owned w) hs) = hs" if "\<forall>h \<in> set hs. owned w h = [h]" for hs
    using that by (induction hs) auto
  show ?thesis by (rule one) (use owned_stock [OF assms] in \<open>auto simp: hashes_of_def\<close>)
qed

lemma at_rest_step: "at_rest v0 w \<Longrightarrow> server_ok w' \<Longrightarrow> steady w' \<Longrightarrow> server_transfers w' = server_transfers w \<Longrightarrow> server_frame w w' \<Longrightarrow> at_rest v0 w'"
  using server_frame_trans by (auto simp: at_rest_def)

lemma at_rest_touch: "at_rest v0 w \<Longrightarrow> at_rest v0 (touch p w)"
  by (rule at_rest_step [OF _ _ steady_touch _ server_frame_touch])
    (simp_all add: at_rest_def, simp_all add: server_ok_def serves_def have_sized_def touch_def world_defs)

lemma seeder_takes_whohas_all:
  assumes r: "at_rest v0 s" and st: "stocks todo v0" and n: "length todo \<le> MAX_HASH_IN_PACKET"
  shows "\<exists>w. seeder_takes adr pl (whohas_all todo) s w \<and> at_rest v0 w \<and> wire w = wire s @ [ihave_all todo]"
proof -
  obtain pack where pk: "deserialize_packet (whohas_all todo @ fill adr (whohas_all todo)) = Inr (Some pack)" "ptype pack = WHOHAS"
    "unat (hash_num pack) = length todo" "length (hash_list pack) = MAX_HASH_IN_PACKET" "take (length todo) (hash_list pack) = hashes_of todo"
    using deserialize_hashes [of WHOHAS "hashes_of todo" 0] n by (auto simp: whohas_all_def has_hashes_def)
  let ?s = "touch pl s"
  let ?w = "emit (peer_addr (peer_heap ?s pl)) (ihave_all todo) ?s"
  have rs: "at_rest v0 ?s" using r by (rule at_rest_touch)
  then have ok: "server_ok ?s" by (simp add: at_rest_def)
  have "receive_WHOHAS pack pl ?s = Inr ?w"
    using ok pk(3-5) n owned_all [OF rs st]
    by (subst receive_WHOHAS_reply) (auto simp: ihave_all_def server_ok_def have_sized_def)
  then have "dispatch (seeder_config adr) (leecher_addr adr) pl pack ?s = Inr ?w" using pk(2) by (simp add: dispatch_def)
  then have "seeder_takes adr pl (whohas_all todo) s ?w"
    unfolding seeder_takes_def using pk(1) touch_peers(2) by (auto simp: emit_def)
  moreover have "wire ?w = wire s @ [ihave_all todo]" by (simp add: wire_def emit_def touch_def world_defs)
  moreover have "at_rest v0 ?w"
    by (rule at_rest_step [OF rs _ _ _ server_frame_emit])
      (use rs in \<open>simp_all add: at_rest_def server_ok_def serves_def have_sized_def steady_def emit_def\<close>)
  ultimately show ?thesis by blast
qed

section \<open>The phases of the download of a file\<close>

text \<open>
  The list \<open>todo\<close> is what was fetched, in reverse, then the current chunk, then the rest. \<open>FSwitching\<close> is
  the time between the last part of a chunk and its last acknowledgement: the leecher has asked for the
  next chunk already.
\<close>

inductive file_phase :: "addresses \<Rightarrow> pptr \<Rightarrow> pptr \<Rightarrow> (cptr \<times> byte list) list \<Rightarrow> world \<Rightarrow> world \<Rightarrow>
    world \<Rightarrow> world \<Rightarrow> nat \<Rightarrow> nat \<Rightarrow> bool"
  for adr pl ps todo v0 w0
where
  FAsked: "at_rest v0 s \<Longrightarrow> asking_all todo l \<Longrightarrow> available (peer_heap l ps) = 1 \<Longrightarrow> same_wish w0 l \<Longrightarrow>
    in_flight nl (wire s) [] \<Longrightarrow> in_flight ns (wire l) [whohas_all todo] \<Longrightarrow>
    nl = 0 \<Longrightarrow> ns = 0 \<Longrightarrow> file_phase adr pl ps todo v0 w0 s l nl ns"
| FAnswered: "at_rest v0 s \<Longrightarrow> asking_all todo l \<Longrightarrow> available (peer_heap l ps) = 1 \<Longrightarrow> same_wish w0 l \<Longrightarrow>
    in_flight nl (wire s) [ihave_all todo] \<Longrightarrow> in_flight ns (wire l) [] \<Longrightarrow>
    nl = 0 \<Longrightarrow> ns = 1 \<Longrightarrow> file_phase adr pl ps todo v0 w0 s l nl ns"
| FRequested: "at_rest v0 s \<Longrightarrow> working ps u c d 0 rest fin l \<Longrightarrow> same_wish w0 l \<Longrightarrow> todo = rev fin @ (c, d) # rest \<Longrightarrow>
    in_flight nl (wire s) [] \<Longrightarrow> in_flight ns (wire l) [get_msg d] \<Longrightarrow>
    nl = 1 + 525 * length fin \<Longrightarrow> ns = 1 + 526 * length fin \<Longrightarrow> file_phase adr pl ps todo v0 w0 s l nl ns"
| FStreaming: "streaming v0 pl t d a m s \<Longrightarrow> server_frame v0 s \<Longrightarrow> working ps u c d k rest fin l \<Longrightarrow> same_wish w0 l \<Longrightarrow>
    todo = rev fin @ (c, d) # rest \<Longrightarrow> a \<le> k \<Longrightarrow> k \<le> m \<Longrightarrow> k < MAX_SEQ_NUM \<Longrightarrow>
    in_flight nl (wire s) (data_run d k m) \<Longrightarrow> in_flight ns (wire l) (ack_run a k) \<Longrightarrow>
    nl = 1 + 525 * length fin + k \<Longrightarrow> ns = 2 + 526 * length fin + a \<Longrightarrow> file_phase adr pl ps todo v0 w0 s l nl ns"
| FSwitching: "streaming v0 pl t d a MAX_SEQ_NUM s \<Longrightarrow> server_frame v0 s \<Longrightarrow> working ps u c' d' 0 rest ((c, d) # fin) l \<Longrightarrow>
    same_wish w0 l \<Longrightarrow> todo = rev ((c, d) # fin) @ (c', d') # rest \<Longrightarrow> a < MAX_SEQ_NUM \<Longrightarrow>
    in_flight nl (wire s) [] \<Longrightarrow> in_flight ns (wire l) (ack_run a MAX_SEQ_NUM @ [get_msg d']) \<Longrightarrow>
    nl = 526 + 525 * length fin \<Longrightarrow> ns = 2 + 526 * length fin + a \<Longrightarrow> file_phase adr pl ps todo v0 w0 s l nl ns"
| FComplete: "streaming v0 pl t d a MAX_SEQ_NUM s \<Longrightarrow> server_frame v0 s \<Longrightarrow> file_downloaded todo w0 l \<Longrightarrow> a < MAX_SEQ_NUM \<Longrightarrow>
    length todo = Suc n \<Longrightarrow> in_flight nl (wire s) [] \<Longrightarrow> in_flight ns (wire l) (ack_run a MAX_SEQ_NUM) \<Longrightarrow>
    nl = 526 + 525 * n \<Longrightarrow> ns = 2 + 526 * n + a \<Longrightarrow> file_phase adr pl ps todo v0 w0 s l nl ns"
| FClosed: "at_rest v0 s \<Longrightarrow> file_downloaded todo w0 l \<Longrightarrow> in_flight nl (wire s) [] \<Longrightarrow> in_flight ns (wire l) [] \<Longrightarrow>
    nl = 1 + 525 * length todo \<Longrightarrow> ns = 1 + 526 * length todo \<Longrightarrow> file_phase adr pl ps todo v0 w0 s l nl ns"

text \<open>What the seeder and the leecher must be given.\<close>

definition servable :: "addresses \<Rightarrow> (cptr \<times> byte list) list \<Rightarrow> world \<Rightarrow> bool" where
  "servable adr todo v0 \<longleftrightarrow> stocks todo v0 \<and> todo \<noteq> [] \<and> length todo \<le> MAX_HASH_IN_PACKET \<and> 0 < max_conn (seeder_config adr)"

definition all_missing :: "(cptr \<times> byte list) list \<Rightarrow> world \<Rightarrow> bool" where
  "all_missing todo w \<longleftrightarrow> fst ` set todo \<subseteq> set (wanted_chunks w) \<and> positions_ok w"

lemma servable_ready:
  assumes "servable adr todo v0" and "at_rest v0 s" and "(c, d) \<in> set todo"
  obtains cs where "ready v0 cs d (max_conn (seeder_config adr)) s"
  using at_rest_ready [OF assms(2) _ assms(3)] assms(1) by (auto simp: servable_def)

lemma serving_done:
  assumes "servable adr todo v0" and "streaming v0 pl t d a MAX_SEQ_NUM s" and "server_frame v0 s"
  shows "\<exists>w. seeder_takes adr pl (ack_bytes MAX_SEQ_NUM) s w \<and> at_rest v0 w \<and> wire w = wire s"
proof -
  obtain w where w: "seeder_takes adr pl (ack_bytes MAX_SEQ_NUM) s w" "server_ok w" "server_frame s w" "steady w"
    "server_transfers w = server_transfers v0" "wire w = wire s"
    using seeder_takes_last [OF assms(2)] by blast
  have "at_rest v0 w"
    using w(2,4,5) server_frame_trans [OF assms(3) w(3)] assms(1) by (simp add: at_rest_def servable_def stocks_def)
  then show ?thesis using w(1,6) by blast
qed

lemma serving_ack:
  assumes "streaming v0 pl t d a m s" and "server_frame v0 s" and "Suc a < MAX_SEQ_NUM"
  shows "\<exists>w n. seeder_takes adr pl (ack_bytes (Suc a)) s w \<and> streaming v0 pl t d (Suc a) n w \<and> server_frame v0 w \<and> m \<le> n \<and>
           n \<le> MAX_SEQ_NUM \<and> wire w = wire s @ data_run d m n"
proof -
  obtain w n where w: "seeder_takes adr pl (ack_bytes (Suc a)) s w" "streaming v0 pl t d (Suc a) n w" "m \<le> n" "server_frame s w"
    "wire w = wire s @ data_run d m n"
    using seeder_takes_ack [OF assms(1,3)] by blast
  moreover have "n \<le> MAX_SEQ_NUM" using w(2) by (simp add: streaming_def serving_def)
  ultimately show ?thesis using server_frame_trans [OF assms(2)] by blast
qed

text \<open>An acknowledgement after the last part was sent.\<close>

lemma serving_tail:
  assumes "streaming v0 pl t d a MAX_SEQ_NUM s" and "server_frame v0 s" and "Suc a < MAX_SEQ_NUM" and "in_flight nl (wire s) []"
  shows "\<exists>w. seeder_takes adr pl (ack_bytes (Suc a)) s w \<and> streaming v0 pl t d (Suc a) MAX_SEQ_NUM w \<and> server_frame v0 w \<and>
           in_flight nl (wire w) []"
proof -
  obtain w n where w: "seeder_takes adr pl (ack_bytes (Suc a)) s w" "streaming v0 pl t d (Suc a) n w" "server_frame v0 w"
    "MAX_SEQ_NUM \<le> n" "n \<le> MAX_SEQ_NUM" "wire w = wire s @ data_run d MAX_SEQ_NUM n"
    using serving_ack [OF assms(1-3)] by blast
  then have "n = MAX_SEQ_NUM" "wire w = wire s" by simp_all
  then show ?thesis using w(1-3) assms(4) by auto
qed

lemma file_phase_seeder:
  assumes v0: "servable adr todo v0" and ph: "file_phase adr pl ps todo v0 w0 s l nl ns" and "ns < length (wire l)"
  shows "\<exists>w. seeder_takes adr pl (wire l ! ns) s w \<and> file_phase adr pl ps todo v0 w0 w l nl (Suc ns)"
  using ph
proof cases
  case FAsked
  note msg = in_flight_next [OF FAsked(6)]
  obtain w where w: "seeder_takes adr pl (whohas_all todo) s w" "at_rest v0 w" "wire w = wire s @ [ihave_all todo]"
    using seeder_takes_whohas_all [OF FAsked(1)] v0 unfolding servable_def by blast
  have "in_flight nl (wire w) [ihave_all todo]" using in_flight_append [OF FAsked(5)] w(3) by simp
  then show ?thesis using file_phase.FAnswered [OF w(2) FAsked(2-4)] w(1) msg FAsked(7,8) by (intro exI [of _ w]) simp
next
  case (FRequested u c d rest fin)
  note msg = in_flight_next [OF FRequested(6)]
  obtain cs where r: "ready v0 cs d (max_conn (seeder_config adr)) s"
    using servable_ready [OF v0 FRequested(1), of c d] FRequested(4) by auto
  obtain w t where w: "seeder_takes adr pl (get_msg d) s w" "streaming v0 pl t d 0 1 w" "server_frame s w"
    "wire w = wire s @ data_run d 0 1"
    using seeder_takes_get [OF r] by blast
  have "server_frame v0 w" using server_frame_trans [OF _ w(3)] FRequested(1) by (simp add: at_rest_def)
  moreover have "in_flight nl (wire w) (data_run d 0 1)" using in_flight_append [OF FRequested(5)] w(4) by simp
  ultimately show ?thesis
    using file_phase.FStreaming [OF w(2) _ FRequested(2-4), of nl "Suc ns"] w(1) msg FRequested(7,8)
    by (intro exI [of _ w]) (simp add: chunk_consts)
next
  case (FStreaming t d a m u c k rest fin)
  then have a: "a < k" using assms(3) in_flight_pending [OF FStreaming(10)] by (cases "a = k") auto
  then have sa: "Suc a < MAX_SEQ_NUM" using FStreaming(8) by simp
  have msg: "wire l ! ns = ack_bytes (Suc a)" "in_flight (Suc ns) (wire l) (ack_run (Suc a) k)"
    using in_flight_next [of ns "wire l"] FStreaming(10) a by simp_all
  obtain w n where w: "seeder_takes adr pl (ack_bytes (Suc a)) s w" "streaming v0 pl t d (Suc a) n w" "server_frame v0 w" "m \<le> n"
    "n \<le> MAX_SEQ_NUM" "wire w = wire s @ data_run d m n"
    using serving_ack [OF FStreaming(1,2) sa] by blast
  have "in_flight nl (wire w) (data_run d k n)"
    using in_flight_append [OF FStreaming(9), of "data_run d m n"] w(4,6) FStreaming(7) by (simp add: data_run_append)
  then show ?thesis
    using file_phase.FStreaming [OF w(2,3) FStreaming(3-5) _ _ FStreaming(8) _ msg(2) FStreaming(11)] w(1,4) msg(1) a FStreaming(7,12)
    by (intro exI [of _ w]) simp
next
  case (FSwitching t d a u c' d' rest c fin)
  show ?thesis
  proof (cases "Suc a < MAX_SEQ_NUM")
    case True
    have msg: "wire l ! ns = ack_bytes (Suc a)" "in_flight (Suc ns) (wire l) (ack_run (Suc a) MAX_SEQ_NUM @ [get_msg d'])"
      using in_flight_next [of ns "wire l"] FSwitching(6,8) by simp_all
    obtain w where w: "seeder_takes adr pl (ack_bytes (Suc a)) s w" "streaming v0 pl t d (Suc a) MAX_SEQ_NUM w" "server_frame v0 w"
      "in_flight nl (wire w) []"
      using serving_tail [OF FSwitching(1,2) True FSwitching(7)] by blast
    then show ?thesis
      using file_phase.FSwitching [OF w(2,3) FSwitching(3-5) True w(4) msg(2) FSwitching(9)] FSwitching(10) msg(1)
      by (intro exI [of _ w]) simp
  next
    case False
    then have a: "Suc a = MAX_SEQ_NUM" using FSwitching(6) by simp
    have msg: "wire l ! ns = ack_bytes MAX_SEQ_NUM" "in_flight (Suc ns) (wire l) [get_msg d']"
      using in_flight_next [of ns "wire l"] FSwitching(6,8) a by simp_all
    obtain w where w: "seeder_takes adr pl (ack_bytes MAX_SEQ_NUM) s w" "at_rest v0 w" "wire w = wire s"
      using serving_done [OF v0 FSwitching(1,2)] by blast
    then show ?thesis
      using file_phase.FRequested [OF w(2) FSwitching(3-5), of nl "Suc ns"] FSwitching(7,9,10) a msg
      by (intro exI [of _ w]) (simp add: chunk_consts)
  qed
next
  case (FComplete t d a n)
  show ?thesis
  proof (cases "Suc a < MAX_SEQ_NUM")
    case True
    have msg: "wire l ! ns = ack_bytes (Suc a)" "in_flight (Suc ns) (wire l) (ack_run (Suc a) MAX_SEQ_NUM)"
      using in_flight_next [of ns "wire l"] FComplete(4,7) by simp_all
    obtain w where w: "seeder_takes adr pl (ack_bytes (Suc a)) s w" "streaming v0 pl t d (Suc a) MAX_SEQ_NUM w" "server_frame v0 w"
      "in_flight nl (wire w) []"
      using serving_tail [OF FComplete(1,2) True FComplete(6)] by blast
    then show ?thesis
      using file_phase.FComplete [OF w(2,3) FComplete(3) True FComplete(5) w(4) msg(2) FComplete(8)] FComplete(9) msg(1)
      by (intro exI [of _ w]) simp
  next
    case False
    then have a: "Suc a = MAX_SEQ_NUM" using FComplete(4) by simp
    have msg: "wire l ! ns = ack_bytes MAX_SEQ_NUM" "in_flight (Suc ns) (wire l) []"
      using in_flight_next [of ns "wire l"] FComplete(4,7) a by simp_all
    obtain w where w: "seeder_takes adr pl (ack_bytes MAX_SEQ_NUM) s w" "at_rest v0 w" "wire w = wire s"
      using serving_done [OF v0 FComplete(1,2)] by blast
    then show ?thesis
      using file_phase.FClosed [OF w(2) FComplete(3), of nl "Suc ns"] FComplete(5,6,8,9) a msg
      by (intro exI [of _ w]) (simp add: chunk_consts)
  qed
qed (use assms(3) in \<open>simp_all add: in_flight_pending\<close>)

lemma file_phase_leecher:
  assumes v0: "servable adr todo v0" and w0: "all_missing todo w0"
    and ph: "file_phase adr pl ps todo v0 w0 s l nl ns" and "nl < length (wire s)"
    and find: "find_peer (peer_heap l) (leecher_config adr) (seeder_addr adr) = Some ps"
  shows "\<exists>w. leecher_takes adr ps (wire s ! nl) l w \<and> file_phase adr pl ps todo v0 w0 s w (Suc nl) ns"
  using ph
proof cases
  case FAnswered
  note msg = in_flight_next [OF FAnswered(5)]
  obtain c d rest where todo: "todo = (c, d) # rest" using v0 by (cases todo) (auto simp: servable_def)
  then have n: "Suc (length rest) \<le> MAX_HASH_IN_PACKET" using v0 by (simp add: servable_def)
  obtain w u where w: "leecher_takes adr ps (ihave_all todo) l w" "working ps u c d 0 rest [] w" "same_request l w"
    "wire w = wire l @ [get_msg d]"
    using leecher_takes_ihave_all [OF FAnswered(2) [unfolded todo] FAnswered(3) n find] unfolding todo by blast
  have "in_flight ns (wire w) [get_msg d]" using in_flight_append [OF FAnswered(6)] w(4) by simp
  then show ?thesis
    using file_phase.FRequested [OF FAnswered(1) w(2) same_wish_request [OF FAnswered(4) w(3)], of todo "Suc nl" ns] w(1) msg
      FAnswered(7,8) todo
    by (intro exI [of _ w]) simp
next
  case (FStreaming t d a m u c k rest fin)
  then have k: "k < m" using assms(4) in_flight_pending [OF FStreaming(9)] by (cases "k = m") auto
  have msg: "wire s ! nl = data_bytes d k" "in_flight (Suc nl) (wire s) (data_run d (Suc k) m)"
    using in_flight_next [of nl "wire s"] FStreaming(9) k by simp_all
  show ?thesis
  proof (cases "Suc k < MAX_SEQ_NUM")
    case True
    obtain w where w: "leecher_takes adr ps (data_bytes d k) l w" "working ps u c d (Suc k) rest fin w" "same_wish l w"
      "wire w = wire l @ [ack_bytes (Suc k)]"
      using leecher_takes_part [OF FStreaming(3) True] by blast
    have "in_flight ns (wire w) (ack_run a (Suc k))"
      using in_flight_append [OF FStreaming(10), of "[ack_bytes (Suc k)]"] w(4) FStreaming(6) by (simp only: ack_run_Suc)
    then show ?thesis
      using file_phase.FStreaming [OF FStreaming(1,2) w(2) same_wish_trans [OF FStreaming(4) w(3)] FStreaming(5) _ _ True msg(2), of ns]
        w(1) msg(1) k FStreaming(6,11,12)
      by (intro exI [of _ w]) simp
  next
    case False
    then have e: "Suc k = MAX_SEQ_NUM" "m = MAX_SEQ_NUM" using FStreaming(1,8) k by (auto simp: streaming_def serving_def)
    have a: "a < MAX_SEQ_NUM" using e(1) FStreaming(6) by simp
    have acks: "in_flight ns (wire l @ [ack_bytes MAX_SEQ_NUM]) (ack_run a MAX_SEQ_NUM)"
      using in_flight_append [OF FStreaming(10), of "[ack_bytes (Suc k)]"] ack_run_Suc [OF FStreaming(6)] by (simp only: e(1))
    have quiet: "in_flight (Suc nl) (wire s) []" using msg(2) e by simp
    have count: "Suc nl = 526 + 525 * length fin" using FStreaming(11) e(1) by (simp add: chunk_consts)
    show ?thesis
    proof (cases rest)
      case Nil
      have all: "fst ` set ((c, d) # fin) \<subseteq> set (wanted_chunks w0)" "positions_ok w0"
        using w0 by (auto simp: all_missing_def FStreaming(5) Nil)
      obtain w where w: "leecher_takes adr ps (data_bytes d k) l w" "file_downloaded ((c, d) # fin) w0 w"
        "wire w = wire l @ [ack_bytes MAX_SEQ_NUM]"
        using leecher_takes_final [OF FStreaming(3) [unfolded Nil] e(1) FStreaming(4) all] by blast
      have "file_downloaded todo w0 w" using w(2) by (simp add: file_downloaded_def FStreaming(5) Nil ball_Un conj_commute)
      then show ?thesis
        using file_phase.FComplete [OF FStreaming(1) [unfolded e(2)] FStreaming(2) _ a _ quiet, of todo w0 w "length fin" ns] w(1,3) msg(1)
          acks count FStreaming(5,12)
        by (intro exI [of _ w]) (simp add: Nil)
    next
      case (Cons x rest')
      obtain c' d' where x: "x = (c', d')" by (cases x)
      obtain w u' where w: "leecher_takes adr ps (data_bytes d k) l w" "working ps u' c' d' 0 rest' ((c, d) # fin) w" "same_wish l w"
        "wire w = wire l @ [ack_bytes MAX_SEQ_NUM, get_msg d']"
        using leecher_takes_next [OF FStreaming(3) [unfolded Cons x] e(1)] by blast
      have "in_flight ns (wire w) (ack_run a MAX_SEQ_NUM @ [get_msg d'])"
        using in_flight_append [OF acks, of "[get_msg d']"] w(4) by simp
      then show ?thesis
        using file_phase.FSwitching [OF FStreaming(1) [unfolded e(2)] FStreaming(2) w(2) same_wish_trans [OF FStreaming(4) w(3)] _ a quiet,
            of todo ns] w(1) msg(1) count FStreaming(5,12)
        by (intro exI [of _ w]) (simp add: Cons x)
    qed
  qed
qed (use assms(4) in \<open>auto simp: in_flight_def\<close>)

section \<open>Every delivery is progress\<close>

definition file_session :: "addresses \<Rightarrow> pptr \<Rightarrow> pptr \<Rightarrow> (cptr \<times> byte list) list \<Rightarrow> world \<Rightarrow> world \<Rightarrow> network \<Rightarrow> bool" where
  "file_session adr pl ps todo v0 w0 n \<longleftrightarrow>
     servable adr todo v0 \<and> all_missing todo w0 \<and> route adr pl ps (seeder n) (leecher n) \<and>
     file_phase adr pl ps todo v0 w0 (seeder n) (leecher n) (to_leecher n) (to_seeder n)"

lemma file_session_step:
  assumes s: "file_session adr pl ps todo v0 w0 n"
  shows "\<exists>n'. deliver adr dir n = Inr n' \<and> file_session adr pl ps todo v0 w0 n' \<and>
           (if pending dir n then to_leecher n + to_seeder n < to_leecher n' + to_seeder n' else n' = n)"
proof (cases "pending dir n")
  case True
  have g: "servable adr todo v0" "all_missing todo w0" and r: "route adr pl ps (seeder n) (leecher n)"
    and ph: "file_phase adr pl ps todo v0 w0 (seeder n) (leecher n) (to_leecher n) (to_seeder n)"
    using s by (simp_all add: file_session_def)
  show ?thesis
  proof (cases dir)
    case To_Leecher
    then have p: "to_leecher n < length (wire (seeder n))" using True pending_wire by simp
    have "find_peer (peer_heap (leecher n)) (leecher_config adr) (seeder_addr adr) = Some ps" using r by (simp add: route_def)
    then obtain w where w: "leecher_takes adr ps (wire (seeder n) ! to_leecher n) (leecher n) w"
      "file_phase adr pl ps todo v0 w0 (seeder n) w (Suc (to_leecher n)) (to_seeder n)"
      using file_phase_leecher [OF g ph p] by blast
    show ?thesis using deliver_leecher_takes [OF r p w(1)] w(2) g True To_Leecher
      by (simp add: file_session_def del: deliver.simps)
  next
    case To_Seeder
    then have p: "to_seeder n < length (wire (leecher n))" using True pending_wire by simp
    obtain w where w: "seeder_takes adr pl (wire (leecher n) ! to_seeder n) (seeder n) w"
      "file_phase adr pl ps todo v0 w0 w (leecher n) (to_leecher n) (Suc (to_seeder n))"
      using file_phase_seeder [OF g(1) ph p] by blast
    show ?thesis using deliver_seeder_takes [OF r p w(1)] w(2) g True To_Seeder
      by (simp add: file_session_def del: deliver.simps)
  qed
next
  case False
  then show ?thesis using s by (cases dir) auto
qed

text \<open>The question, its answer, and a \<open>GET\<close>, 525 parts and 525 acknowledgements for every chunk.\<close>

lemma file_session_bound: "file_session adr pl ps todo v0 w0 n \<Longrightarrow> to_leecher n + to_seeder n \<le> 2 + 1051 * length todo"
proof -
  assume "file_session adr pl ps todo v0 w0 n"
  then have "file_phase adr pl ps todo v0 w0 (seeder n) (leecher n) (to_leecher n) (to_seeder n)"
    by (simp add: file_session_def)
  then show ?thesis by cases (auto simp: chunk_consts)
qed

lemma file_session_rest:
  assumes "file_session adr pl ps todo v0 w0 n" and quiet: "\<forall>dir. \<not> pending dir n"
  shows "file_downloaded todo w0 (leecher n)"
proof -
  have ph: "file_phase adr pl ps todo v0 w0 (seeder n) (leecher n) (to_leecher n) (to_seeder n)"
    using assms(1) by (simp add: file_session_def)
  have q: "\<not> to_leecher n < length (wire (seeder n))" "\<not> to_seeder n < length (wire (leecher n))"
    using quiet pending_wire by blast+
  from ph show ?thesis
  proof cases
    case (FStreaming t d a m u c k rest fin)
    then have "data_run d k m = []" "ack_run a k = []" using q in_flight_pending by blast+
    then have "k = m" "a = k" using FStreaming(6,7) by (auto simp: data_run_def ack_run_def simp del: upt_Suc)
    then show ?thesis using FStreaming(1,8) by (auto simp: streaming_def serving_def)
  qed (use q in \<open>auto simp: in_flight_def\<close>)
qed

interpretation files: fair_system "deliver adr" "file_session adr pl ps todo v0 w0" pending "\<lambda>n. to_leecher n + to_seeder n"
    "2 + 1051 * length todo" for adr pl ps todo v0 w0
  using file_session_step file_session_bound by unfold_locales

section \<open>Properties\<close>

lemma file_session_start:
  assumes "route adr pl ps s l" and "at_rest s s" and "servable adr todo s" and "sent s = []"
    and "asking_all todo l" and "available (peer_heap l ps) = 1" and "map snd (sent l) = [whohas_all todo]" and "all_missing todo l"
  shows "file_session adr pl ps todo s l (start s l)"
  using assms file_phase.FAsked [of s s todo l ps l 0 0 adr pl]
  by (simp add: file_session_def start_def wire_def in_flight_def)

lemma file_session_turns:
  assumes "file_session adr pl ps todo v0 w0 n"
  shows "\<exists>n'. fold_result (deliver adr) turns n = Inr n' \<and> file_session adr pl ps todo v0 w0 n'"
  using files.run_progress [OF assms, of turns] by blast

lemma file_session_completes:
  assumes "file_session adr pl ps todo v0 w0 n" and "\<And>r dir. r \<in> set rounds \<Longrightarrow> dir \<in> set r"
    and "2 + 1051 * length todo \<le> length rounds"
  shows "\<exists>n'. fold_result (deliver adr) (concat rounds) n = Inr n' \<and> (\<forall>dir. \<not> pending dir n') \<and> file_downloaded todo w0 (leecher n')"
  using files.fair_rest [OF assms(1), of rounds] assms(2,3) file_session_rest by fastforce

text \<open>
  Claim C3. A download of a file succeeds over a network that loses nothing. The leecher misses the
  chunks of a list, at least one and at most the 74 that one packet can name, has received nothing of
  them and has broadcast their hashes in one \<open>WHOHAS\<close>; the chunks the user wants have different
  numbers, all below 8192, where the 32-bit offset into the output file does not wrap. The seeder owns
  exactly one chunk with each hash, serves nobody else and allows at least one connection. They
  exchange \<open>IHAVE\<close> and then, chunk after chunk, \<open>GET\<close>, the 525 data packets and their
  acknowledgements. No handler faults in whatever order the two directions take turns; and when each
  direction had at least 2 + 1051 turns per chunk, nothing is in flight, no chunk is missing, and the
  output file holds the seeder's data of every chunk at its position. Each peer knows the other by its
  address, the seeder is available to the leecher, and the clock of the seeder must not wrap or run
  backwards.
\<close>

theorem file_is_fetched:
  assumes "route adr pl ps s l" and "at_rest s s" and "servable adr todo s" and "sent s = []"
    and "asking_all todo l" and "available (peer_heap l ps) = 1" and "map snd (sent l) = [whohas_all todo]" and "all_missing todo l"
    and "\<And>r dir. r \<in> set rounds \<Longrightarrow> dir \<in> set r" and "2 + 1051 * length todo \<le> length rounds"
  shows "(\<forall>turns. \<exists>n. fold_result (deliver adr) turns (start s l) = Inr n) \<and>
         (\<exists>n. fold_result (deliver adr) (concat rounds) (start s l) = Inr n \<and> (\<forall>dir. \<not> pending dir n) \<and>
            file_downloaded todo l (leecher n))"
  using file_session_turns [OF file_session_start [OF assms(1-8)]]
    file_session_completes [OF file_session_start [OF assms(1-8)] assms(9,10)] by blast

theorem file_is_fetched_witness:
  "\<exists>n f. fold_result (deliver demo_addresses) (concat (replicate 1053 [To_Leecher, To_Seeder])) (start demo_seeder demo_leecher) = Inr n \<and>
     missing_chunks (leecher n) = [] \<and> files (leecher n) ''out'' = Some f \<and> block f 0 = replicate BT_CHUNK_SIZE 0"
proof -
  let ?todo = "[(0 :: cptr, replicate BT_CHUNK_SIZE (0 :: byte))]"
  have "route demo_addresses 2 1 demo_seeder demo_leecher"
    by (simp add: route_def find_peer_find demo_addresses_def demo_peers_def demo_zeros_defs)
  moreover have "at_rest demo_seeder demo_seeder" using demo_ready by (simp add: at_rest_def ready_def) (simp add: demo_zeros_defs)
  moreover have "servable demo_addresses ?todo demo_seeder"
    by (simp add: servable_def stocks_def demo_zeros_defs demo_addresses_def demo_peers_def packet_consts chunk_consts)
  moreover have "asking_all ?todo demo_leecher" "all_missing ?todo demo_leecher"
    using demo_asking by (simp_all add: asking_all_one all_missing_def one_missing_def)
  moreover have "dir \<in> set r" if "r \<in> set (replicate 1053 [To_Leecher, To_Seeder])" for r dir
    using that by (cases dir) auto
  moreover have "sent demo_seeder = []" "available (peer_heap demo_leecher 1) = 1"
    "map snd (sent demo_leecher) = [whohas_all ?todo]"
    by (simp_all add: demo_zeros_defs whohas_all_def hashes_of_def)
  ultimately have "\<exists>n. fold_result (deliver demo_addresses) (concat (replicate 1053 [To_Leecher, To_Seeder])) (start demo_seeder demo_leecher) = Inr n \<and>
      file_downloaded ?todo demo_leecher (leecher n)"
    using file_is_fetched [of demo_addresses 2 1 demo_seeder demo_leecher ?todo "replicate 1053 [To_Leecher, To_Seeder]"]
    by simp blast
  moreover have "user_output_filename demo_leecher = Some ''out''" "chunk_id (chunk_heap demo_leecher 0) = 0"
    by (simp_all add: demo_zeros_defs)
  ultimately show ?thesis unfolding file_downloaded_def by auto
qed

end
