(* ===== verification/End_To_End.thy ===== *)
theory End_To_End
  imports File_Session Peer_Main
begin

text \<open>
  The whole program: two peers that start on their disks, a user who types a request at one of them,
  and the download that follows. The theory joins start-up (\<open>Peer_Main\<close>), the input buffer, the request of
  the user (\<open>Peer\<close>) and the session (\<open>Session\<close>).
\<close>

section \<open>The get-chunk file\<close>

text \<open>The values of the variables of \<open>create_wanted_missing_list\<close>, line after line.\<close>

fun line_values :: "(nat \<times> byte list) list \<Rightarrow> byte list \<Rightarrow> line_vars list" where
  "line_values [] buf = []"
| "line_values (l # ls) buf =
     (let b = snd l @ 0 # drop (Suc (length (snd l))) buf in (of_nat (fst l), b) # line_values ls b)"

lemma scan_lines_text:
  assumes "\<And>l. l \<in> set ls \<Longrightarrow> line_ok l" and "HEX_HASH_SIZE < length (snd vars)"
  shows "scan_lines vars (chunk_text ls) = Inr (line_values ls (snd vars))"
  using assms
proof (induction ls arbitrary: vars)
  case Nil
  then show ?case by (simp add: chunk_text_def scan_lines.simps)
next
  case (Cons l ls)
  let ?buf = "snd l @ 0 # drop (Suc (length (snd l))) (snd vars)"
  have ok: "line_ok l" using Cons.prems by simp
  have len: "length (snd l) = HEX_HASH_SIZE" "snd l \<noteq> []" using ok by (auto simp: line_ok_def chunk_consts)
  have line: "fgets FILE_LEN (chunk_text (l # ls)) = Some (chunk_line l, chunk_text ls)" "c_string (chunk_line l) = chunk_line l"
    using fgets_chunk_line [OF ok] by (simp_all add: chunk_text_def)
  have scan: "sscanf_int_word (chunk_line l) vars = Inr (2, of_nat (fst l), ?buf)"
    using sscanf_int_word_line [of "fst l" "snd l" "[10]" "snd vars" "fst vars"] ok Cons.prems(2) len
    by (auto simp: chunk_line_def line_ok_def isspace_def)
  have "HEX_HASH_SIZE < length ?buf" using Cons.prems(2) len by simp
  then show ?case
    using Cons.IH [of "(of_nat (fst l), ?buf)"] Cons.prems(1) line scan by (simp add: scan_lines.simps [of vars] Let_def)
qed

lemma want_loop_scan: "scan_lines vars inp = Inr ls \<Longrightarrow> want_loop vars inp w = fold_result want_chunk ls w"
proof (induction vars inp w arbitrary: ls rule: want_loop.induct)
  case (1 vars inp w)
  show ?case
  proof (cases "fgets FILE_LEN inp")
    case None
    then show ?thesis using "1.prems" by (simp add: want_loop.simps [of vars] scan_lines.simps [of vars])
  next
    case (Some lr)
    obtain line rest where lr: "lr = (line, rest)" by force
    from Some "1.prems" obtain n vars' ls' where scan: "sscanf_int_word (c_string line) vars = Inr (n, vars')"
      and ls: "scan_lines vars' rest = Inr ls'" "ls = vars' # ls'"
      by (auto simp: scan_lines.simps [of vars] lr bind_result_eq_Inr)
    have "want_loop vars' rest v = fold_result want_chunk ls' v" if "want_chunk vars' w = Inr v" for v
      using "1.IH" [OF Some lr [symmetric] scan _ that ls(1)] by simp
    then show ?thesis using Some scan ls(2) 
      by (auto simp: want_loop.simps [of vars] lr bind_result_def split: sum.splits)
  qed
qed

section \<open>The line the user types\<close>

definition typed_get :: "byte list \<Rightarrow> byte list \<Rightarrow> byte list" where
  "typed_get getf outf = bytes_of_string ''GET '' @ getf @ 32 # outf @ [10]"

text \<open>A file name that \<open>sscanf\<close> reads as one word of at most 120 characters.\<close>

definition typable :: "byte list \<Rightarrow> bool" where
  "typable name \<longleftrightarrow> name \<noteq> [] \<and> length name \<le> 120 \<and> (\<forall>b \<in> set name. \<not> isspace b \<and> b \<noteq> 0)"

lemma scan_word_typed:
  assumes "typable u" and "rest = [] \<or> isspace (hd rest)" and "isspace sp"
  shows "scan_word (Some 120) (sp # u @ rest) = Some (u, rest)"
proof -
  have "takeWhile (\<lambda>b. \<not> isspace b) (u @ rest) = u"
    using assms by (subst takeWhile_append2) (auto simp: typable_def takeWhile_eq_Nil_iff)
  moreover have "dropWhile isspace (u @ rest) = u @ rest" using assms(1) by (cases u) (auto simp: typable_def)
  ultimately show ?thesis using assms by (simp add: scan_word_def scan_space_def Let_def typable_def)
qed

lemma typed_line:
  assumes "typable getf" and "typable outf"
  shows "fst (split_lines (typed_get getf outf)) = [bytes_of_string ''GET '' @ getf @ 32 # outf]"
    and "snd (split_lines (typed_get getf outf)) = []"
    and "handle_user_input config vars (bytes_of_string ''GET '' @ getf @ 32 # outf) w =
           process_get vars (string_of_bytes getf) (string_of_bytes outf) config w"
    and "0 \<notin> set (typed_get getf outf)" and "length (typed_get getf outf) \<le> 246"
proof -
  have sp: "isspace 10" "isspace 32" by (simp_all add: isspace_def)
  have g: "bytes_of_string ''GET '' = [71, 69, 84, 32]" "bytes_of_string ''GET'' = [71, 69, 84]"
    by (simp_all add: bytes_of_string_def)
  have no: "10 \<notin> set (bytes_of_string ''GET '' @ getf @ 32 # outf)" using assms sp by (auto simp: typable_def g)
  have "split_lines (typed_get getf outf) = ([bytes_of_string ''GET '' @ getf @ 32 # outf], [])"
    using split_lines_line [OF no, of "[]"] split_lines_rest [of "[]"] by (simp add: typed_get_def)
  then show "fst (split_lines (typed_get getf outf)) = [bytes_of_string ''GET '' @ getf @ 32 # outf]"
    "snd (split_lines (typed_get getf outf)) = []" by simp_all
  show "0 \<notin> set (typed_get getf outf)" using assms by (auto simp: typed_get_def typable_def g)
  show "length (typed_get getf outf) \<le> 246" using assms by (auto simp: typed_get_def typable_def g)
  have "scan_word (Some 120) (32 # getf @ 32 # outf) = Some (getf, 32 # outf)"
    by (rule scan_word_typed [OF assms(1)]) (simp_all add: sp)
  moreover have "scan_word (Some 120) (32 # outf) = Some (outf, [])"
    using scan_word_typed [OF assms(2), of "[]" 32] sp by simp
  ultimately show "handle_user_input config vars (bytes_of_string ''GET '' @ getf @ 32 # outf) w =
      process_get vars (string_of_bytes getf) (string_of_bytes outf) config w"
    by (simp add: handle_user_input_def scan_lit_def g)
qed

section \<open>From the typed line to the question\<close>

lemma send_to_others_flags:
  "available (peer_heap (send_to_others config m ps w) p) = available (peer_heap w p)"
  "clock (send_to_others config m ps w) = clock w" "files (send_to_others config m ps w) = files w"
  by (induction ps arbitrary: w) (auto simp: Let_def world_defs emit_def)

text \<open>What fits into one packet is asked in one packet.\<close>

lemma whohas_one_batch:
  assumes "cs \<noteq> []" and "length acc + length cs \<le> MAX_HASH_IN_PACKET" and "\<And>h. h \<in> set acc \<Longrightarrow> length h = BIN_HASH_SIZE"
    and "\<And>c. c \<in> set cs \<Longrightarrow> length (bin_hash (chunk_heap w c)) = BIN_HASH_SIZE"
  shows "whohas_loop config cs (zero_packet\<lparr>hash_list := acc @ drop (length acc) (hash_list zero_packet)\<rparr>) (length acc) w =
    Inr (send_to_others config (hash_message WHOHAS 0 (acc @ map (\<lambda>c. bin_hash (chunk_heap w c)) cs)) (config_peers config) w)"
  using assms
proof (induction cs arbitrary: acc)
  case (Cons c cs)
  let ?h = "bin_hash (chunk_heap w c)" let ?z = "hash_list zero_packet"
  have "length acc < length ?z" using Cons.prems(2) by (simp add: zero_packet_def)
  then have row: "array_set (acc @ drop (length acc) ?z) (length acc) ?h = Inr ((acc @ [?h]) @ drop (length (acc @ [?h])) ?z)"
    by (simp add: array_set_def list_update_append Cons_nth_drop_Suc [symmetric])
  have sz: "\<And>h. h \<in> set (acc @ [?h]) \<Longrightarrow> length h = BIN_HASH_SIZE" using Cons.prems by auto
  show ?case
  proof (cases "cs = []")
    case True
    then show ?thesis using row send_whohas_batch [of "acc @ [?h]" config w] sz Cons.prems(2) by (simp add: Let_def distrib_right)
  next
    case False
    then have "Suc (length acc) \<noteq> MAX_HASH_IN_PACKET" using Cons.prems(2) by (cases cs) auto
    then have "whohas_loop config (c # cs) (zero_packet\<lparr>hash_list := acc @ drop (length acc) ?z\<rparr>) (length acc) w =
        whohas_loop config cs (zero_packet\<lparr>hash_list := (acc @ [?h]) @ drop (length (acc @ [?h])) ?z\<rparr>) (length (acc @ [?h])) w"
      using row False by (simp add: Let_def)
    then show ?thesis using Cons.IH [OF False, of "acc @ [?h]"] Cons.prems sz by simp
  qed
qed simp

lemma send_WHOHAS_batch:
  assumes "missing_chunks w \<noteq> []" and "length (missing_chunks w) \<le> MAX_HASH_IN_PACKET"
    and "\<And>c. c \<in> set (missing_chunks w) \<Longrightarrow> length (bin_hash (chunk_heap w c)) = BIN_HASH_SIZE"
  shows "send_WHOHAS config w = Inr (send_to_others config (hash_message WHOHAS 0 (map (\<lambda>c. bin_hash (chunk_heap w c)) (missing_chunks w)))
    (config_peers config) w)"
  using whohas_one_batch [of "missing_chunks w" "[]" w config] assms by (simp add: send_WHOHAS_def)

text \<open>The chunks that the lines of the get-chunk file create, when nothing is owned.\<close>

definition wanted_chunk :: "nat \<times> byte list \<Rightarrow> chunk" where
  "wanted_chunk k = (chunk_of_line k)\<lparr>chunk_id := of_nat (fst k)\<rparr>"

lemma want_lines:
  assumes "have_chunks w = []" and "\<And>k. k \<in> set ks \<Longrightarrow> line_ok k"
  shows "\<exists>h. fold_result want_chunk (line_values ks buf) w =
      Inr (w\<lparr>chunk_heap := h, chunk_top := chunk_top w + length ks,
             missing_chunks := rev [chunk_top w..<chunk_top w + length ks] @ missing_chunks w,
             wanted_chunks := rev [chunk_top w..<chunk_top w + length ks] @ wanted_chunks w\<rparr>) \<and>
    (\<forall>x < chunk_top w. h x = chunk_heap w x) \<and> map h [chunk_top w..<chunk_top w + length ks] = map wanted_chunk ks"
  using assms
proof (induction ks arbitrary: w buf)
  case (Cons k ks)
  let ?b = "snd k @ 0 # drop (Suc (length (snd k))) buf" and ?c = "chunk_top w"
  let ?v = "w\<lparr>chunk_heap := (chunk_heap w)(?c := wanted_chunk k), chunk_top := Suc ?c, missing_chunks := ?c # missing_chunks w,
     wanted_chunks := ?c # wanted_chunks w\<rparr>"
  have "create_chunk (ucast (of_nat (fst k) :: u32)) ?b = Inr (chunk_of_line k)"
    using create_chunk_line [of k] Cons.prems(2) by simp
  then have v: "want_chunk (of_nat (fst k), ?b) w = Inr ?v"
    using Cons.prems(1) by (simp add: want_chunk_def Let_def wanted_chunk_def) (simp add: world_defs)
  obtain h where h: "fold_result want_chunk (line_values ks ?b) ?v =
      Inr (?v\<lparr>chunk_heap := h, chunk_top := Suc ?c + length ks,
             missing_chunks := rev [Suc ?c..<Suc ?c + length ks] @ missing_chunks ?v,
             wanted_chunks := rev [Suc ?c..<Suc ?c + length ks] @ wanted_chunks ?v\<rparr>)"
    "\<forall>x < Suc ?c. h x = chunk_heap ?v x" "map h [Suc ?c..<Suc ?c + length ks] = map wanted_chunk ks"
    using Cons.IH [of ?v ?b] Cons.prems by auto
  have "[?c..<?c + length (k # ks)] = ?c # [Suc ?c..<Suc ?c + length ks]" by (simp add: upt_conv_Cons del: upt_Suc)
  then show ?case using v h by (intro exI [of _ h]) (simp add: Let_def del: upt_Suc)
next
  case Nil
  then show ?case by (intro exI [of _ "chunk_heap w"]) simp
qed

lemma line_hashes:
  assumes "\<And>k. k \<in> set ks \<Longrightarrow> line_ok k \<and> hex2binary (snd k) = Inr (g k)"
  shows "map line_hash (line_values ks buf) = map g ks"
  using assms
proof (induction ks arbitrary: buf)
  case (Cons k ks)
  have "length (snd k) = HEX_HASH_SIZE" using Cons.prems [of k] by (auto simp: line_ok_def)
  then show ?case using Cons by (simp add: Let_def line_hash_def)
qed simp

text \<open>A peer that owns and misses nothing, and has sent nothing.\<close>

definition blank :: "world \<Rightarrow> bool" where
  "blank w \<longleftrightarrow> peer_ok w \<and> have_chunks w = [] \<and> missing_chunks w = [] \<and> wanted_chunks w = [] \<and> client_transfers w = [] \<and> sent w = []"

text \<open>The list of what is missing, the last line of the file first.\<close>

definition todo_list :: "cptr \<Rightarrow> byte list \<Rightarrow> (nat \<times> byte list) list \<Rightarrow> (cptr \<times> byte list) list" where
  "todo_list b f ks = rev (zip [b..<b + length ks] (map (\<lambda>k. block f (fst k)) ks))"

lemma todo_list_simps:
  "map fst (todo_list b f ks) = rev [b..<b + length ks]" "hashes_of (todo_list b f ks) = rev (map (\<lambda>k. fips_sha1 (block f (fst k))) ks)"
  "length (todo_list b f ks) = length ks"
proof -
  show "map fst (todo_list b f ks) = rev [b..<b + length ks]" by (simp add: todo_list_def rev_map [symmetric])
  have "hashes_of (todo_list b f ks) = map fips_sha1 (map snd (todo_list b f ks))" by (simp add: hashes_of_def case_prod_unfold)
  also have "map snd (todo_list b f ks) = rev (map (\<lambda>k. block f (fst k)) ks)" by (simp add: todo_list_def rev_map [symmetric])
  finally show "hashes_of (todo_list b f ks) = rev (map (\<lambda>k. fips_sha1 (block f (fst k))) ks)" by (simp add: rev_map [symmetric])
  show "length (todo_list b f ks) = length ks" by (simp add: todo_list_def)
qed

lemma todo_list_nth: "set (todo_list b f ks) = (\<lambda>j. (b + j, block f (fst (ks ! j)))) ` {..<length ks}"
proof -
  have "zip [b..<b + length ks] (map (\<lambda>k. block f (fst k)) ks) = map (\<lambda>j. (b + j, block f (fst (ks ! j)))) [0..<length ks]"
    by (intro nth_equalityI) simp_all
  then show ?thesis by (simp add: todo_list_def lessThan_atLeast0)
qed

lemma typed_request:
  assumes b: "blank l" and names: "typable getf" "typable outf" and vars: "HEX_HASH_SIZE < length (snd vars)"
    and getfile: "files l (string_of_bytes getf) = Some (chunk_text ks)" "\<And>k. k \<in> set ks \<Longrightarrow> names_chunk f k"
    and ks: "ks \<noteq> []" "length ks \<le> MAX_HASH_IN_PACKET" "distinct (map (\<lambda>k. fips_sha1 (block f (fst k))) ks)"
    and peers: "recipients config l = [a]"
  shows "\<exists>l'. peer_turn config vars (Ready None (Some (typed_get getf outf))) (create_userbuf, l) = Inr (create_userbuf, l') \<and>
           asking_all (todo_list (chunk_top l) f ks) l' \<and> all_missing (todo_list (chunk_top l) f ks) l' \<and>
           map snd (sent l') = [whohas_all (todo_list (chunk_top l) f ks)] \<and> user_output_filename l' = Some (string_of_bytes outf) \<and>
           (\<forall>j < length ks. unat (chunk_id (chunk_heap l' (chunk_top l + j))) = fst (ks ! j)) \<and>
           (\<forall>p. peer_addr (peer_heap l' p) = peer_addr (peer_heap l p) \<and> available (peer_heap l' p) = available (peer_heap l p))"
proof -
  let ?getf = "string_of_bytes getf" and ?cs = "[chunk_top l..<chunk_top l + length ks]" and ?todo = "todo_list (chunk_top l) f ks"
  define w1 where "w1 = l\<lparr>user_output_filename := Some (string_of_bytes outf), user_get_chunk_file := Some ?getf\<rparr>"
  have lines: "line_ok k" "hex2binary (snd k) = Inr (fips_sha1 (block f (fst k)))" "fst k < 256" "length (block f (fst k)) = BT_CHUNK_SIZE"
    if "k \<in> set ks" for k
    using getfile(2) [OF that] by (auto simp: names_chunk_def block_def min_def)
  have scan: "scan_lines vars (chunk_text ks) = Inr (line_values ks (snd vars))" using scan_lines_text lines(1) vars by blast
  obtain h where w2: "fold_result want_chunk (line_values ks (snd vars)) w1 =
      Inr (w1\<lparr>chunk_heap := h, chunk_top := chunk_top l + length ks, missing_chunks := rev ?cs, wanted_chunks := rev ?cs\<rparr>)"
    (is "_ = Inr ?w2") and h: "map h ?cs = map wanted_chunk ks"
    using want_lines [of w1 ks "snd vars"] lines(1) b by (auto simp: w1_def blank_def)
  have hn: "h (chunk_top l + j) = wanted_chunk (ks ! j)" if "j < length ks" for j
    using arg_cong [OF h, of "\<lambda>xs. xs ! j"] that by simp
  have new: "bin_hash (wanted_chunk k) = fips_sha1 (block f (fst k))" "unfetched (block f (fst k)) (wanted_chunk k)"
    "chunk_peer (wanted_chunk k) = []" "unat (chunk_id (wanted_chunk k)) = fst k" if "k \<in> set ks" for k
    using lines [OF that] by (simp_all add: wanted_chunk_def chunk_of_line_def zero_chunk_def unfetched_def unat_of_nat)
  have "map (\<lambda>c. bin_hash (h c)) ?cs = map (\<lambda>k. fips_sha1 (block f (fst k))) ks"
    using hn new(1) by (intro nth_equalityI) simp_all
  then have hashes: "map (\<lambda>c. bin_hash (h c)) (rev ?cs) = hashes_of ?todo" by (simp add: todo_list_simps(2) rev_map [symmetric])
  define w3 where "w3 = send_to_others config (whohas_all ?todo) (config_peers config) ?w2"
  have "length (bin_hash (h c)) = BIN_HASH_SIZE" if "c \<in> set ?cs" for c
  proof -
    have c: "c - chunk_top l < length ks" "chunk_top l + (c - chunk_top l) = c" using that by auto
    then show ?thesis using hn [OF c(1)] new(1) [OF nth_mem [OF c(1)]] by (simp add: length_fips_sha1)
  qed
  then have whohas: "send_WHOHAS config ?w2 = Inr w3"
    using send_WHOHAS_batch [of ?w2 config] ks hashes by (simp add: w3_def whohas_all_def)
  have get: "process_get vars ?getf (string_of_bytes outf) config l = Inr w3"
    using getfile(1) want_loop_scan [OF scan, of w1] w2 whohas ks(1)
    by (simp add: process_get_def create_wanted_missing_list_def Let_def check_all_received_def w1_def)
  have turn: "peer_turn config vars (Ready None (Some (typed_get getf outf))) (create_userbuf, l) = Inr (create_userbuf, w3)"
    using peer_turn_lines [of "[]" "typed_get getf outf" config vars None l] typed_line [OF names] get
    by (simp add: create_userbuf_holding)
  have "map line_hash (line_values ks (snd vars)) = map (\<lambda>k. fips_sha1 (block f (fst k))) ks"
    by (rule line_hashes) (use lines in simp)
  then have "fresh_file vars ?getf l"
    using b getfile(1) scan ks(3) by (auto simp: fresh_file_def fresh_request_def blank_def)
  then have ok: "peer_ok w3" using process_get_ok [OF _ _ get] b by (simp add: blank_def)
  have core: "same_core ?w2 w3" "chunk_heap w3 = h"
    unfolding w3_def using send_to_others_core send_to_others_peers by (blast, simp)
  have lists: "missing_chunks w3 = rev ?cs" "wanted_chunks w3 = rev ?cs" "client_transfers w3 = []"
    "user_output_filename w3 = Some (string_of_bytes outf)"
    using core(1) b by (simp_all add: same_core_def w1_def blank_def)
  have "recipients config ?w2 = [a]" using peers by (simp add: recipients_def w1_def)
  then have "sent w3 = [(a, whohas_all ?todo)]"
    unfolding w3_def send_to_others_recipients using b by (simp add: w1_def blank_def)
  moreover have "asking_all ?todo w3"
    using ok lists core(2) hn new by (auto simp: asking_all_def todo_list_simps todo_list_nth)
  moreover have "all_missing ?todo w3"
    unfolding all_missing_def positions_ok_def
  proof (intro conjI)
    have "inj_on (\<lambda>k. fips_sha1 (block f (fst k))) (set ks)" "distinct ks" using ks(3) by (simp_all add: distinct_map)
    then have "distinct (map fst ks)" by (auto simp: distinct_map inj_on_def)
    moreover have "map (\<lambda>c. unat (chunk_id (chunk_heap w3 c))) (wanted_chunks w3) = rev (map fst ks)"
      unfolding lists core(2) rev_map [symmetric] using hn new(4) by (intro arg_cong [of _ _ rev] nth_equalityI) simp_all
    ultimately show "distinct (map (\<lambda>c. unat (chunk_id (chunk_heap w3 c))) (wanted_chunks w3))" by simp
    show "fst ` set ?todo \<subseteq> set (wanted_chunks w3)" unfolding lists set_map [symmetric] todo_list_simps by simp
    show "\<forall>c \<in> set (wanted_chunks w3). unat (chunk_id (chunk_heap w3 c)) < 8192"
    proof
      fix c assume "c \<in> set (wanted_chunks w3)"
      then have c: "c - chunk_top l < length ks" "chunk_top l + (c - chunk_top l) = c" by (auto simp: lists)
      then show "unat (chunk_id (chunk_heap w3 c)) < 8192"
        using hn [OF c(1)] new(4) lines(3) [OF nth_mem [OF c(1)]] unfolding core(2) by simp
    qed
  qed
  moreover have "peer_addr (peer_heap w3 p) = peer_addr (peer_heap l p) \<and> available (peer_heap w3 p) = available (peer_heap l p)" for p
    unfolding w3_def using send_to_others_peers send_to_others_flags by (simp add: w1_def)
  ultimately show ?thesis using turn lists hn new(4) core(2) by (intro exI [of _ w3]) simp
qed

section \<open>Start-up of the two peers\<close>

text \<open>A peer before start-up whose files describe the chunks \<open>ls\<close> of its data file \<open>f\<close>.\<close>

definition stocked :: "(string \<Rightarrow> bool) \<Rightarrow> bt_config_t \<Rightarrow> byte list \<Rightarrow> (nat \<times> byte list) list \<Rightarrow> world \<Rightarrow> bool" where
  "stocked read_fails config f ls w \<longleftrightarrow>
     idle w \<and> sent w = [] \<and> files w (has_chunk_file config) = Some (chunk_text ls) \<and> (\<forall>l \<in> set ls. names_chunk f l) \<and>
     (\<exists>name rest. files w (chunk_file config) = Some (master_text name rest) \<and> files w (string_of_bytes name) = Some f \<and>
        \<not> read_fails (string_of_bytes name) \<and> name \<noteq> [] \<and> (\<forall>b \<in> set name. \<not> isspace b \<and> b \<noteq> 0) \<and> length name < PATH_LEN)"

lemma stocked_setup:
  assumes "stocked read_fails config f ls w" and "length buf = PATH_LEN" and "HEX_HASH_SIZE < length (snd vars)"
  shows "\<exists>h. peer_setup read_fails vars buf config w =
      Inr (w\<lparr>chunk_heap := h, chunk_top := chunk_top w + length ls, have_chunks := rev [chunk_top w..<chunk_top w + length ls],
        clock_pos := Suc (clock_pos w), start_time := now_of w\<rparr>) \<and>
    (\<forall>j < length ls. h (chunk_top w + j) = loaded f (chunk_of_line (ls ! j))) \<and>
    peer_ok (w\<lparr>chunk_heap := h, chunk_top := chunk_top w + length ls, have_chunks := rev [chunk_top w..<chunk_top w + length ls],
        clock_pos := Suc (clock_pos w), start_time := now_of w\<rparr>)"
proof -
  obtain name rest where d: "idle w" "files w (has_chunk_file config) = Some (chunk_text ls)" "\<And>l. l \<in> set ls \<Longrightarrow> names_chunk f l"
    "files w (chunk_file config) = Some (master_text name rest)" "files w (string_of_bytes name) = Some f"
    "\<not> read_fails (string_of_bytes name)" "name \<noteq> []" "\<And>b. b \<in> set name \<Longrightarrow> \<not> isspace b \<and> b \<noteq> 0" "length name < PATH_LEN"
    using assms(1) unfolding stocked_def by blast
  obtain h where h: "peer_setup read_fails vars buf config w =
      Inr (w\<lparr>chunk_heap := h, chunk_top := chunk_top w + length ls, have_chunks := rev [chunk_top w..<chunk_top w + length ls],
        clock_pos := Suc (clock_pos w), start_time := now_of w\<rparr>)"
    and m: "map h [chunk_top w..<chunk_top w + length ls] = map (\<lambda>l. loaded f (chunk_of_line l)) ls"
    using peer_setup_result [where read_fails = read_fails, OF d assms(2,3)] by blast
  obtain w' where "peer_setup read_fails vars buf config w = Inr w'" "peer_ok w'"
    using peer_setup_ok [where read_fails = read_fails, OF d assms(2,3)] by blast
  moreover have "h (chunk_top w + j) = loaded f (chunk_of_line (ls ! j))" if "j < length ls" for j
    using arg_cong [OF m, of "\<lambda>xs. xs ! j"] that by simp
  ultimately show ?thesis using h by auto
qed

lemma filter_one: "distinct (map g xs) \<Longrightarrow> x \<in> set xs \<Longrightarrow> filter (\<lambda>y. g y = g x) xs = [x]"
  by (induction xs) (auto simp: filter_empty_conv, metis image_eqI)

text \<open>A peer that starts with chunks of its own can serve any list of them.\<close>

lemma stocked_at_rest:
  assumes s: "stocked read_fails config f ls w" and "length buf = PATH_LEN" "HEX_HASH_SIZE < length (snd vars)"
    and dist: "distinct (map (\<lambda>l. fips_sha1 (block f (fst l))) ls)" and st: "steady w"
  shows "\<exists>w'. peer_setup read_fails vars buf config w = Inr w' \<and> at_rest w' w' \<and> sent w' = [] \<and> peer_heap w' = peer_heap w \<and>
           (\<forall>todo. snd ` set todo \<subseteq> (\<lambda>l. block f (fst l)) ` set ls \<longrightarrow> stocks todo w')"
proof -
  let ?cs = "[chunk_top w..<chunk_top w + length ls]"
  obtain h where r: "peer_setup read_fails vars buf config w =
      Inr (w\<lparr>chunk_heap := h, chunk_top := chunk_top w + length ls, have_chunks := rev ?cs, clock_pos := Suc (clock_pos w), start_time := now_of w\<rparr>)"
    and h: "\<And>j. j < length ls \<Longrightarrow> h (chunk_top w + j) = loaded f (chunk_of_line (ls ! j))"
    and ok: "peer_ok (w\<lparr>chunk_heap := h, chunk_top := chunk_top w + length ls, have_chunks := rev ?cs, clock_pos := Suc (clock_pos w), start_time := now_of w\<rparr>)"
    using stocked_setup [OF assms(1-3)] by blast
  let ?w = "w\<lparr>chunk_heap := h, chunk_top := chunk_top w + length ls, have_chunks := rev ?cs, clock_pos := Suc (clock_pos w), start_time := now_of w\<rparr>"
  have nm: "names_chunk f k" if "k \<in> set ls" for k using s that by (simp add: stocked_def)
  have "map (\<lambda>x. bin_hash (h x)) ?cs = map (\<lambda>l. fips_sha1 (block f (fst l))) ls"
    using h names_chunk_loaded(4) [OF nm] by (intro nth_equalityI) simp_all
  then have dh: "distinct (map (\<lambda>x. bin_hash (h x)) (rev ?cs))" using dist by (simp add: rev_map [symmetric])
  have own: "length d = BT_CHUNK_SIZE \<and> (\<exists>c. filter (\<lambda>x. bin_hash (h x) = fips_sha1 d) (rev ?cs) = [c] \<and> chunk_data (h c) = d)"
    if d: "d \<in> (\<lambda>l. block f (fst l)) ` set ls" for d
  proof -
    obtain l where l: "l \<in> set ls" "d = block f (fst l)" using d by blast
    obtain j where j: "j < length ls" "ls ! j = l" using l(1) by (auto simp: in_set_conv_nth)
    let ?c = "chunk_top w + j"
    have data: "chunk_data (h ?c) = d" "bin_hash (h ?c) = fips_sha1 d"
      using names_chunk_loaded(4,5) [OF nm [OF l(1)]] h j l(2) by simp_all
    have "filter (\<lambda>x. bin_hash (h x) = bin_hash (h ?c)) (rev ?cs) = [?c]" by (rule filter_one [OF dh]) (use j in simp)
    moreover have "length d = BT_CHUNK_SIZE" using nm [OF l(1)] l(2) by (auto simp: names_chunk_def block_def min_def)
    ultimately show ?thesis using data by auto
  qed
  have none: "server_transfers w = []" "sent w = []" using s by (simp_all add: stocked_def idle_def)
  have "at_rest ?w ?w" using ok st none by (simp add: at_rest_def peer_ok_def steady_def)
  moreover have "stocks todo ?w" if t: "snd ` set todo \<subseteq> (\<lambda>l. block f (fst l)) ` set ls" for todo
  proof -
    have "length d = BT_CHUNK_SIZE \<and> (\<exists>c. filter (\<lambda>x. bin_hash (chunk_heap ?w x) = fips_sha1 d) (have_chunks ?w) = [c] \<and>
        chunk_data (chunk_heap ?w c) = d)" if d: "(x, d) \<in> set todo" for x d
    proof -
      have "d \<in> (\<lambda>l. block f (fst l)) ` set ls" using t d by force
      from own [OF this] show ?thesis by simp
    qed
    then show ?thesis using none(1) unfolding stocks_def by auto
  qed
  ultimately show ?thesis using r none by (intro exI [of _ ?w]) simp
qed

lemma stocked_blank:
  assumes "stocked read_fails config f [] w" and "length buf = PATH_LEN" "HEX_HASH_SIZE < length (snd vars)"
  shows "\<exists>w'. peer_setup read_fails vars buf config w = Inr w' \<and> blank w' \<and> peer_heap w' = peer_heap w \<and> files w' = files w"
  using stocked_setup [OF assms] assms(1) by (auto simp: stocked_def idle_def blank_def)

section \<open>Properties\<close>

text \<open>
  Claim C2. Two peers start on their disks, the first one with a data file and a has-chunk file that
  lists chunks of it with different hashes and numbers below 256 (\<open>create_chunk\<close> keeps eight bits of a
  number), the second one with an empty has-chunk file. The user of the second peer types \<open>GET\<close>, the
  name of a file with at least one and at most 74 lines of that list, each once, and the name of an
  output file, both of 1 to 120 characters. Then start-up, the request and every delivery succeed, and
  after enough turns of both directions of a network that loses nothing the output file exists,
  nothing is missing, and the block of every requested chunk is the block of the first peer's data
  file.

  This holds under these conditions: each peer knows the other by its address, the second peer has
  exactly one other peer in its table, which is available, the first peer serves at least one
  connection (\<open>max_conn\<close> is positive), the clock of the first peer never wraps or runs backwards, the
  data files can be read and have names without white space that fit the 128 bytes of their buffer, and the stack of
  either peer has at least one more byte behind the declared 40 bytes of each array \<open>hash\<close>, since the
  NUL of every line is written there, out of the bounds of the array.
\<close>

theorem typed_request_is_downloaded:
  assumes seeder: "stocked read_fails (seeder_config adr) f ls s0" "distinct (map (\<lambda>l. fips_sha1 (block f (fst l))) ls)"
      "steady s0" "0 < max_conn (seeder_config adr)"
    and request: "set ks \<subseteq> set ls" "distinct ks" "ks \<noteq> []" "length ks \<le> MAX_HASH_IN_PACKET"
    and leecher: "stocked read_fails (leecher_config adr) g [] l0" "files l0 (string_of_bytes getf) = Some (chunk_text ks)"
      "recipients (leecher_config adr) l0 = [a]" "available (peer_heap l0 ps) = 1"
    and "route adr pl ps s0 l0" and names: "typable getf" "typable outf"
    and "length buf = PATH_LEN" and "HEX_HASH_SIZE < length (snd vars)"
    and fair: "\<And>r dir. r \<in> set rounds \<Longrightarrow> dir \<in> set r" "2 + 1051 * length ks \<le> length rounds"
  shows "\<exists>s l b l' n file. peer_setup read_fails vars buf (seeder_config adr) s0 = Inr s \<and>
     peer_setup read_fails vars buf (leecher_config adr) l0 = Inr l \<and>
     peer_run (leecher_config adr) vars [Ready None (Some (typed_get getf outf))] l = Inr (b, l') \<and>
     fold_result (deliver adr) (concat rounds) (start s l') = Inr n \<and> missing_chunks (leecher n) = [] \<and>
     files (leecher n) (string_of_bytes outf) = Some file \<and> (\<forall>(i, hex) \<in> set ks. block file i = block f i)"
proof -
  have nm: "names_chunk f k" if "k \<in> set ks" for k using seeder(1) request(1) that by (auto simp: stocked_def)
  have dk: "distinct (map (\<lambda>k. fips_sha1 (block f (fst k))) ks)"
    using seeder(2) request(1,2) by (auto simp: distinct_map intro: inj_on_subset)
  obtain s where s: "peer_setup read_fails vars buf (seeder_config adr) s0 = Inr s" "at_rest s s" "sent s = []"
    "peer_heap s = peer_heap s0" "\<And>todo. snd ` set todo \<subseteq> (\<lambda>l. block f (fst l)) ` set ls \<Longrightarrow> stocks todo s"
    using stocked_at_rest [OF seeder(1) assms(16,17) seeder(2,3)] by blast
  obtain l where l: "peer_setup read_fails vars buf (leecher_config adr) l0 = Inr l" "blank l" "peer_heap l = peer_heap l0"
    "files l = files l0"
    using stocked_blank [OF leecher(1) assms(16,17)] by blast
  let ?todo = "todo_list (chunk_top l) f ks"
  have "files l (string_of_bytes getf) = Some (chunk_text ks)" "recipients (leecher_config adr) l = [a]"
    using leecher(2,3) l(3,4) by (simp_all add: recipients_def)
  from typed_request [OF l(2) names assms(17) this(1) nm request(3,4) dk this(2)] obtain l' where
    l': "peer_turn (leecher_config adr) vars (Ready None (Some (typed_get getf outf))) (create_userbuf, l) = Inr (create_userbuf, l')"
    "asking_all ?todo l'" "all_missing ?todo l'" "map snd (sent l') = [whohas_all ?todo]"
    "user_output_filename l' = Some (string_of_bytes outf)"
    "\<And>j. j < length ks \<Longrightarrow> unat (chunk_id (chunk_heap l' (chunk_top l + j))) = fst (ks ! j)"
    and p: "\<And>p. peer_addr (peer_heap l' p) = peer_addr (peer_heap l p)" "\<And>p. available (peer_heap l' p) = available (peer_heap l p)"
    by auto
  have rt: "route adr pl ps s l'" using assms(13) by (rule route_addr) (simp_all add: s(4) l(3) p)
  have av: "available (peer_heap l' ps) = 1" using leecher(4) p l(3) by simp
  have "stocks ?todo s" by (rule s(5)) (use request(1) nth_mem in \<open>fastforce simp: todo_list_nth\<close>)
  then have sv: "servable adr ?todo s"
    using request(3,4) seeder(4) todo_list_simps(3) [of "chunk_top l" f ks] by (auto simp: servable_def simp flip: length_greater_0_conv)
  obtain n where n: "fold_result (deliver adr) (concat rounds) (start s l') = Inr n" "file_downloaded ?todo l' (leecher n)"
    using file_session_completes [OF file_session_start [OF rt s(2) sv s(3) l'(2) av l'(4,3)] fair(1)] fair(2)
    by (auto simp: todo_list_simps(3))
  obtain out where out: "files (leecher n) (string_of_bytes outf) = Some out" "missing_chunks (leecher n) = []"
    "\<And>c d. (c, d) \<in> set ?todo \<Longrightarrow> block out (unat (chunk_id (chunk_heap l' c))) = d"
    using n(2) l'(5) unfolding file_downloaded_def by fastforce
  have "block out i = block f i" if ih: "(i, hex) \<in> set ks" for i hex
  proof -
    obtain j where j: "j < length ks" "ks ! j = (i, hex)" using ih by (auto simp: in_set_conv_nth)
    then have "(chunk_top l + j, block f i) \<in> set ?todo" by (force simp: todo_list_nth)
    then show ?thesis using out(3) l'(6) [OF j(1)] j(2) by fastforce
  qed
  moreover have "peer_run (leecher_config adr) vars [Ready None (Some (typed_get getf outf))] l = Inr (create_userbuf, l')"
    using l'(1) by (simp add: peer_run_def)
  ultimately show ?thesis using s(1) l(1) n(1) out(1,2) by blast
qed

text \<open>Peer 1 with the data file of one chunk of zeros, and peer 2 with the names of nothing but that chunk.\<close>

definition demo_setting :: addresses where
  "demo_setting = (let config = (testing_defaults bt_init)\<lparr>config_peers := [1, 2], max_conn := 4\<rparr> in
     \<lparr>seeder_config = config\<lparr>identity := 1\<rparr>, leecher_config = config\<lparr>identity := 2\<rparr>,
      seeder_addr = \<lparr>sin_family = 2, sin_port = 1, sin_addr = 0x0100007f\<rparr>,
      leecher_addr = \<lparr>sin_family = 2, sin_port = 2, sin_addr = 0x0100007f\<rparr>, fill = (\<lambda>_. [])\<rparr>)"

definition demo_customer :: world where
  "demo_customer = initial_world\<lparr>files :=
     [''haschunks'' \<mapsto> chunk_text [], ''chunkfile'' \<mapsto> master_text [68] [], ''D'' \<mapsto> [], ''get'' \<mapsto> chunk_text demo_lines]\<rparr>"

lemma demo_stocked:
  "stocked (\<lambda>_. False) (seeder_config demo_setting) (replicate BT_CHUNK_SIZE 0) demo_lines demo_disk"
  "stocked (\<lambda>_. False) (leecher_config demo_setting) [] [] demo_customer"
proof -
  have d: "string_of_bytes [68] = ''D''" by code_simp
  have c: "has_chunk_file (seeder_config demo_setting) = ''haschunks''" "chunk_file (seeder_config demo_setting) = ''chunkfile''"
    "has_chunk_file (leecher_config demo_setting) = ''haschunks''" "chunk_file (leecher_config demo_setting) = ''chunkfile''"
    by (simp_all add: demo_setting_def testing_defaults_def Let_def)
  have name: "[68 :: byte] \<noteq> []" "\<forall>b \<in> set [68 :: byte]. \<not> isspace b \<and> b \<noteq> 0" "length [68 :: byte] < PATH_LEN"
    by (simp_all add: isspace_def PATH_LEN_def)
  have "sent demo_disk = []" by (simp add: demo_disk_def initial_world_def)
  then show "stocked (\<lambda>_. False) (seeder_config demo_setting) (replicate BT_CHUNK_SIZE 0) demo_lines demo_disk"
    unfolding stocked_def c using demo_disk_facts(1-5) name
    by (intro conjI exI [where x = "[68]"] exI [where x = "[]"]) (auto simp: testing_defaults_def)
  show "stocked (\<lambda>_. False) (leecher_config demo_setting) [] [] demo_customer"
    unfolding stocked_def c using name d
    by (intro conjI exI [where x = "[68]"] exI [where x = "[]"])
       (auto simp: demo_customer_def idle_def initial_world_def packet_arrays_def zero_packet_def)
qed

theorem typed_request_is_downloaded_witness:
  "\<exists>s l b l' n file. peer_setup (\<lambda>_. False) (0, replicate 48 0) (replicate 128 0) (seeder_config demo_setting) demo_disk = Inr s \<and>
     peer_setup (\<lambda>_. False) (0, replicate 48 0) (replicate 128 0) (leecher_config demo_setting) demo_customer = Inr l \<and>
     peer_run (leecher_config demo_setting) (0, replicate 48 0)
       [Ready None (Some (typed_get (bytes_of_string ''get'') (bytes_of_string ''out'')))] l = Inr (b, l') \<and>
     fold_result (deliver demo_setting) (concat (replicate 1053 [To_Leecher, To_Seeder])) (start s l') = Inr n \<and>
     files (leecher n) ''out'' = Some file \<and> block file 0 = replicate BT_CHUNK_SIZE 0"
proof -
  have str: "string_of_bytes (bytes_of_string ''get'') = ''get''" "string_of_bytes (bytes_of_string ''out'') = ''out''" by code_simp+
  have typable: "typable (bytes_of_string ''get'')" "typable (bytes_of_string ''out'')" by code_simp+
  have lines: "distinct (map (\<lambda>l. fips_sha1 (block (replicate BT_CHUNK_SIZE 0) (fst l))) demo_lines)"
    "set demo_lines \<subseteq> set demo_lines" "distinct demo_lines" "demo_lines \<noteq> []" "length demo_lines \<le> MAX_HASH_IN_PACKET"
    by (simp_all add: demo_lines_def packet_consts chunk_consts)
  have seeder: "steady demo_disk" "0 < max_conn (seeder_config demo_setting)"
    by (simp_all add: steady_def demo_disk_def initial_world_def demo_setting_def Let_def)
  have get: "files demo_customer (string_of_bytes (bytes_of_string ''get'')) =
      Some (chunk_text demo_lines)"
    unfolding str by (simp add: demo_customer_def)
  have peers: "recipients (leecher_config demo_setting) demo_customer = [\<lparr>sin_family = 2, sin_port = 1, sin_addr = 0x0100007f\<rparr>]"
    "available (peer_heap demo_customer 1) = 1" "route demo_setting 2 1 demo_disk demo_customer"
    by (simp_all add: recipients_def route_def find_peer_find demo_setting_def Let_def demo_customer_def demo_disk_def initial_world_def)
  have arrays: "length (replicate 128 (0 :: byte)) = PATH_LEN" "HEX_HASH_SIZE < length (snd (0 :: u32, replicate 48 (0 :: byte)))"
    by (simp_all add: PATH_LEN_def HEX_HASH_SIZE_def)
  have fair: "dir \<in> set r" if "r \<in> set (replicate 1053 [To_Leecher, To_Seeder])" for r dir
    using that by (cases dir) auto
  have rounds: "2 + 1051 * length demo_lines \<le> length (replicate 1053 [To_Leecher, To_Seeder])" by (simp add: demo_lines_def)
  have "block (replicate BT_CHUNK_SIZE (0 :: byte)) 0 = replicate BT_CHUNK_SIZE 0" by (simp add: block_def)
  moreover have "\<exists>s l b l' n F. peer_setup (\<lambda>_. False) (0, replicate 48 0) (replicate 128 0) (seeder_config demo_setting) demo_disk = Inr s \<and>
     peer_setup (\<lambda>_. False) (0, replicate 48 0) (replicate 128 0) (leecher_config demo_setting) demo_customer = Inr l \<and>
     peer_run (leecher_config demo_setting) (0, replicate 48 0)
       [Ready None (Some (typed_get (bytes_of_string ''get'') (bytes_of_string ''out'')))] l = Inr (b, l') \<and>
     fold_result (deliver demo_setting) (concat (replicate 1053 [To_Leecher, To_Seeder])) (start s l') = Inr n \<and>
     missing_chunks (leecher n) = [] \<and> files (leecher n) (string_of_bytes (bytes_of_string ''out'')) = Some F \<and>
     (\<forall>(i, hex) \<in> set demo_lines. block F i = block (replicate BT_CHUNK_SIZE 0) i)"
    by (rule typed_request_is_downloaded [where rounds = "replicate 1053 [To_Leecher, To_Seeder]",
        OF demo_stocked(1) lines(1) seeder lines(2-5) demo_stocked(2) get peers typable arrays, OF fair rounds])
  ultimately show ?thesis unfolding str demo_lines_def by force
qed

end
