(* ===== verification/Robustness.thy ===== *)
theory Robustness
  imports Datagrams
begin

text \<open>
  Which datagrams cannot crash a peer. The handlers trust what they receive, and several fields of a
  packet can drive them out of their arrays; \<open>acceptable\<close> collects the conditions under which
  none does, packet type by packet type. Every acknowledgement, data packet and answer that a peer of
  this program sends meets them in every state of the receiver, so a run of such messages and of
  time-outs reaches its end.
\<close>

section \<open>Packets that are safe to handle\<close>

text \<open>
  A request is answered only for a chunk the peer owns and while it may open a transfer: otherwise it
  tries to refuse, and \<open>send_DENIED\<close> overflows. An answer to \<open>WHOHAS\<close> has room for 74 hashes.
\<close>

definition acceptable :: "bt_config_t \<Rightarrow> world \<Rightarrow> Packet \<Rightarrow> bool" where
  "acceptable config w q \<longleftrightarrow>
     packet_arrays q \<and> unat (hash_num q) \<le> MAX_HASH_IN_PACKET \<and>
     (case ptype q of
        WHOHAS \<Rightarrow> length (concat (map (owned w) (take (unat (hash_num q)) (hash_list q)))) \<le> MAX_HASH_IN_PACKET
      | GET \<Rightarrow> int (length (server_transfers w)) < max_conn config \<and>
          (\<exists>c \<in> set (have_chunks w). compare_chunk_by_bin_hash (chunk_heap w c) (hash_list q ! 0))
      | DATA \<Rightarrow> header_len q = 16 \<and> 16 \<le> packet_len q \<and> unat (packet_len q) \<le> 16 + DATA_SIZE \<and>
          1 \<le> unat (seq_num q) \<and> unat (seq_num q) \<le> MAX_SEQ_NUM \<and>
          (unat (seq_num q) - 1) * DATA_SIZE + (unat (packet_len q) - 16) \<le> BT_CHUNK_SIZE
      | INVALID b \<Rightarrow> False
      | _ \<Rightarrow> True)"

lemma receive_WHOHAS_total:
  assumes ok: "server_ok w" and a: "acceptable config w q" and t: "ptype q = WHOHAS"
  shows "\<exists>w'. receive_WHOHAS q p w = Inr w'"
  using a t ok receive_WHOHAS_reply [of w q p]
  by (auto simp: acceptable_def packet_arrays_def server_ok_def have_sized_def Let_def)

lemma receive_GET_total:
  assumes ok: "server_ok w" and a: "acceptable config w q" and t: "ptype q = GET"
  shows "\<exists>w'. receive_GET q p (max_conn config) w = Inr w'"
proof -
  let ?h = "hash_list q ! 0"
  obtain c where c: "find (\<lambda>c. compare_chunk_by_bin_hash (chunk_heap w c) ?h) (have_chunks w) = Some c"
    using a t by (cases "find (\<lambda>c. compare_chunk_by_bin_hash (chunk_heap w c) ?h) (have_chunks w)")
      (auto simp: acceptable_def find_None_iff)
  then have d: "length (chunk_data (chunk_heap w c)) = BT_CHUNK_SIZE"
    using ok by (auto simp: find_Some_iff server_ok_def have_sized_def)
  have h: "length (hash_list q) = MAX_HASH_IN_PACKET" and room: "int (length (server_transfers w)) < max_conn config"
    using a t by (auto simp: acceptable_def packet_arrays_def)
  show ?thesis
  proof (cases "find_by_chunk_hash w (server_transfers w) ?h")
    case None
    with receive_GET_new [OF h c room _ d] show ?thesis by blast
  next
    case (Some t)
    then show ?thesis using h c room
      by (simp add: receive_GET_def array_get_def packet_consts chunk_consts)
  qed
qed

section \<open>Data packets\<close>

lemma data_store_total:
  assumes a: "acceptable config v q" and t: "ptype q = DATA" and sz: "chunk_sized (transfer_chunk w t)"
  shows "\<exists>w'. data_store q t w = Inr w'" and "\<exists>b. data_already_stored q t w = Inr b"
proof -
  let ?s = "unat (seq_num q)" and ?n = "unat (packet_len q) - 16"
  have q: "packet_arrays q" "header_len q = 16" "16 \<le> packet_len q" "?n \<le> DATA_SIZE" "1 \<le> ?s" "?s \<le> 525"
    "(?s - 1) * 1000 + ?n \<le> 524288"
    using a t by (auto simp: acceptable_def chunk_consts)
  have s: "unat (seq_num q - 1) = ?s - 1" using q(5) by (subst unat_sub) (simp_all add: word_le_nat_alt)
  have off: "unat ((seq_num q - 1) * of_nat DATA_SIZE) = (?s - 1) * DATA_SIZE"
    using s q(6) by (subst unat_mult_lem [THEN iffD1]) (simp_all add: DATA_SIZE_def)
  have "payload_size q = Inr ?n" using q(2,3) by (simp add: payload_size_def not_less)
  moreover have "mem_read (pdata q) 0 ?n = Inr (take ?n (pdata q))"
    using q(1,4) by (simp add: mem_read_def packet_arrays_def)
  moreover have len: "length (take ?n (pdata q)) = ?n" using q(1,4) by (simp add: packet_arrays_def)
  moreover have "\<exists>d. mem_write (chunk_data (transfer_chunk w t)) ((?s - 1) * DATA_SIZE) (take ?n (pdata q)) = Inr d"
    using sz q(7) len by (simp add: mem_write_def chunk_sized_def chunk_consts)
  moreover have bit: "?s - 1 < length (bits (transfer_chunk w t))"
    using sz q(5,6) by (simp add: chunk_sized_def chunk_consts)
  ultimately show "\<exists>w'. data_store q t w = Inr w'"
    by (auto simp: data_store_def Let_def off s array_set_def)
  show "\<exists>b. data_already_stored q t w = Inr b"
    using bit by (simp add: data_already_stored_def array_get_def s)
qed

lemma finish_chunk_total:
  assumes ok: "peer_ok w" and t: "t \<in> set (client_transfers w)"
  shows "\<exists>w'. finish_chunk t w = Inr w'"
proof -
  let ?c = "tr_chunk (transfer_heap w t)"
  let ?f = "\<lambda>x. x\<lparr>chunk_data := replicate BT_CHUNK_SIZE 0, bits := replicate MAX_SEQ_NUM 0, bits_count := 0\<rparr>"
  let ?v = "w\<lparr>missing_chunks := remove1 ?c (missing_chunks w), have_chunks := ?c # have_chunks w\<rparr>"
  note vc = validate_chunk_eq [OF ok t]
  have c: "?c \<in> set (missing_chunks w)" by (rule peer_ok_parts(4) [OF ok t])
  show ?thesis
  proof (cases "verified (chunk_heap w ?c)")
    case True
    obtain out getf where "user_output_filename w = Some out" "user_get_chunk_file w = Some getf"
      using ok c by (auto simp: peer_ok_def request_ok_def)
    then have "\<exists>v. check_all_received ?v = Inr v"
      by (simp add: check_all_received_def construct_data_def Let_def)
    then obtain v where v: "check_all_received ?v = Inr v" ..
    then have "peer_ok (delete_client_transfer t v)" by (rule complete_ok [OF ok t refl True])
    then obtain x w' where "init_data_transfer (delete_client_transfer t v) = Inr (x, w')"
      using init_data_transfer_total by blast
    then show ?thesis using True v by (simp add: finish_chunk_def vc)
  next
    case False
    have "chunk_sized (chunk_heap w ?c)" using ok c by (auto simp: peer_ok_def chunks_ok_def)
    then have "peer_ok (upd_chunk ?c ?f w)"
      by (intro peer_ok_upd_missing [OF ok c]) (auto simp: chunk_sized_def bits_counted_def)
    then obtain x w' where "init_data_transfer (delete_client_transfer t (upd_chunk ?c ?f w)) = Inr (x, w')"
      using init_data_transfer_total delete_client_ok by blast
    then show ?thesis using False by (simp add: finish_chunk_def vc)
  qed
qed

lemma receive_DATA_total:
  assumes ok: "peer_ok w" and a: "acceptable config v q" and ty: "ptype q = DATA"
  shows "\<exists>w'. receive_DATA q p w = Inr w'"
proof (cases "find_by_peer w (client_transfers w) p")
  case (Some t)
  then have t: "t \<in> set (client_transfers w)" by (auto dest: find_by_peer_SomeD)
  have "chunk_sized (transfer_chunk w t)"
    using ok peer_ok_parts(4) [OF ok t] by (auto simp: peer_ok_def chunks_ok_def)
  note st = data_store_total [OF a ty this]
  obtain stored where s: "data_already_stored q t w = Inr stored" using st(2) by blast
  obtain w1 where w1: "(if \<not> stored then data_store q t w else Inr w) = Inr w1" using st(1) by (cases stored) auto
  have ok1: "peer_ok w1" using s w1 ok data_store_ok [OF ok t] by (auto split: if_splits)
  have same: "client_transfers w1 = client_transfers w"
    using w1 by (auto simp: data_store_def bind_result_eq_Inr upd_chunk_def Let_def split: if_splits)
  obtain w2 where w2: "send_ACK p (data_find_largest_consec_seq t w1) w1 = Inr w2"
    using send_ACK_total [OF peer_ok_parts(2) [OF ok1]] by blast
  have ok2: "peer_ok w2" using send_ACK_ok [OF ok1 w2] by simp
  have "t \<in> set (client_transfers w2)" using send_ACK_local [OF w2] t by (auto simp: same local_toD)
  from finish_chunk_total [OF ok2 this] show ?thesis using Some s w1 w2 by (simp add: receive_DATA_def)
qed (simp add: receive_DATA_def)

section \<open>Every acceptable packet is handled\<close>

lemma dispatch_total:
  assumes ok: "peer_ok w" and a: "acceptable config w q"
  shows "\<exists>w'. dispatch config from p q w = Inr w'"
proof (cases "ptype q")
  case WHOHAS
  then show ?thesis using receive_WHOHAS_total [OF peer_ok_parts(1) [OF ok] a] by (simp add: dispatch_def)
next
  case IHAVE
  have "unat (hash_num q) \<le> length (hash_list q)" using a by (simp add: acceptable_def packet_arrays_def)
  from receive_IHAVE_total [OF ok this] show ?thesis using IHAVE by (auto simp: dispatch_def)
next
  case GET
  then show ?thesis using receive_GET_total [OF peer_ok_parts(1) [OF ok] a] by (simp add: dispatch_def)
next
  case DATA
  then show ?thesis using receive_DATA_total [OF ok a] by (simp add: dispatch_def)
next
  case ACK
  then show ?thesis using receive_ACK_ok [OF peer_ok_parts(1) [OF ok]] by (auto simp: dispatch_def)
next
  case DENIED
  then show ?thesis by (auto simp: dispatch_def receive_DENIED_def split: option.splits)
next
  case (INVALID b)
  then show ?thesis using a by (simp add: acceptable_def)
qed

lemma process_inbound_total:
  assumes ok: "peer_ok w" and d: "deserialize_packet buf = Inr (Some q)" and a: "\<And>v. acceptable config v q"
  shows "\<exists>w'. process_inbound_udp config from buf w = Inr w'"
proof (cases "find_peer (peer_heap w) config from")
  case (Some p)
  have "peer_ok (upd_peer p (\<lambda>p. p\<lparr>peer_timer := now_of w, peer_timeout_count := 0\<rparr>) (snd (millitime w)))"
    by (rule peer_ok_touch [OF ok])
  from dispatch_total [OF this a] show ?thesis
    using Some d by (simp add: process_inbound_udp_def Let_def millitime_def)
qed (simp add: process_inbound_udp_def)

section \<open>Messages of the program\<close>

text \<open>Messages that no state of the receiver makes dangerous.\<close>

definition reply :: "packet_type \<Rightarrow> bool" where
  "reply t \<longleftrightarrow> t = IHAVE \<or> t = DATA \<or> t = ACK"

lemma received_arrays: "packet_arrays p \<Longrightarrow> packet_arrays (received p)"
  by (auto simp: received_def packet_arrays_def zero_packet_def Let_def dest: in_set_takeD in_set_dropD)

lemma received_acceptable:
  assumes p: "protocol_message p" and t: "reply (ptype p)"
  shows "acceptable config w (received p)"
proof -
  have wp: "wire_packet p" and arr: "packet_arrays p" using p by (simp_all add: protocol_message_def wire_packet_def)
  have "ptype (received p) = ptype p" "header_len (received p) = 16" "packet_len (received p) = packet_len p"
    "seq_num (received p) = seq_num p" "hash_num (received p) = (if has_hashes (ptype p) then hash_num p else 0)"
    using wp by (auto simp: received_def Let_def wire_packet_def zero_packet_def)
  moreover have "has_hashes IHAVE" by (simp add: has_hashes_def)
  ultimately show ?thesis
    using p t received_arrays [OF arr]
    by (auto simp: acceptable_def protocol_message_def wire_packet_def reply_def has_hashes_def chunk_consts split: if_splits)
qed

fun harmless :: "peer_event \<Rightarrow> bool" where
  "harmless Timeout = True"
| "harmless (Datagram _ buf) =
     (\<exists>p m junk. protocol_message p \<and> reply (ptype p) \<and> serialize_packet p = Inr m \<and> buf = m @ junk)"

lemma peer_step_total:
  assumes ok: "peer_ok w" and e: "harmless e"
  shows "\<exists>w'. peer_step config e w = Inr w'"
proof (cases e)
  case (Datagram a buf)
  then obtain p m junk where p: "protocol_message p" "reply (ptype p)" "serialize_packet p = Inr m" and b: "buf = m @ junk"
    using e by auto
  have "wire_packet p" using p(1) by (simp add: protocol_message_def)
  then have "deserialize_packet buf = Inr (Some (received p))" using wire_roundtrip p(3) b by fastforce
  from process_inbound_total [OF ok this received_acceptable [OF p(1,2)]] show ?thesis by (simp add: Datagram)
next
  case Timeout
  then show ?thesis using handle_timeout_total [OF ok, of config] by auto
qed

interpretation robust: total_machine "peer_step config" peer_ok "\<lambda>e w. harmless e" for config
  by unfold_locales (rule peer_step_total)

section \<open>Properties\<close>

text \<open>
  Claim C8. Peers do not crash each other with what they answer: a peer in order survives every run of
  time-outs and of \<open>IHAVE\<close>, \<open>DATA\<close> and \<open>ACK\<close> messages of the program, from whomever and in whatever
  order and number they arrive, and everything it sends itself on the way is a message again.
\<close>

theorem replies_do_not_crash:
  assumes "peer_ok w" and "\<And>e. e \<in> set es \<Longrightarrow> harmless e"
  shows "\<exists>w'. fold_result (peer_step config) es w = Inr w' \<and> peer_ok w' \<and>
    (\<exists>ms. sent w' = sent w @ ms \<and> (\<forall>(to, m) \<in> set ms. \<exists>p. protocol_message p \<and> serialize_packet p = Inr m))"
proof -
  obtain w' where r: "fold_result (peer_step config) es w = Inr w'" "peer_ok w'"
    using robust.run_total [OF assms(1)] assms(2) by blast
  have "sends w w'"
    by (rule peer.run_keeps [OF r(1) assms(1), where P = "sends w"])
       (auto intro: sends_trans peer_step_sends sends_nothing)
  then show ?thesis using r by (auto simp: sends_def message_def case_prod_unfold)
qed

theorem replies_do_not_crash_witness:
  "\<exists>w'. fold_result (peer_step demo_config)
       [Timeout, Datagram (peer_addr (peer_heap demo_seeker 3)) (data_bytes (replicate BT_CHUNK_SIZE 0) 524 @ replicate 7 9)]
       demo_seeker = Inr w' \<and> peer_ok w'"
proof -
  let ?d = "replicate BT_CHUNK_SIZE 0 :: byte list"
  have "protocol_message (data_packet ?d 524)" by (rule data_packet_message) (simp_all add: chunk_consts)
  moreover have "reply (ptype (data_packet ?d 524))" by (simp add: reply_def data_packet_def)
  ultimately have "harmless (Datagram a (data_bytes ?d 524 @ replicate 7 9))" for a
    using serialize_data_packet by (auto simp: harmless.simps)
  then have "harmless e"
    if "e \<in> set [Timeout, Datagram (peer_addr (peer_heap demo_seeker 3)) (data_bytes ?d 524 @ replicate 7 9)]" for e
    using that by (auto simp del: harmless.simps(2))
  moreover have "peer_ok demo_seeker" unfolding demo_seeker_def by (rule delete_client_ok [OF demo_client_ok])
  ultimately show ?thesis using replies_do_not_crash by blast
qed

end
