(* ===== verification/Test_Programs.thy ===== *)
theory Test_Programs
  imports Make_Chunks Input_Buffer
begin

text \<open>
  The test drivers that come with the sources: the \<open>main\<close> of \<^verbatim>\<open>src/code/sha.c\<close> under
  \<open>SHA1_TEST\<close>, the \<open>main\<close> of \<^verbatim>\<open>src/code/chunk.c\<close> under \<open>_TEST_CHUNK_C_\<close> and
  \<^verbatim>\<open>src/code/test_input_buffer.c\<close>. They use the components as a client does, and what they
  print is a consequence of the components' properties: the digests of the standard, the same hash
  twice, and every line that was typed.

  The result of a driver is the text it prints. Local variables that are not initialised are
  parameters.
\<close>

section \<open>SHA-1\<close>

text \<open>\<open>printf ("%02x", hash[i++]); if (!(i % 4)) printf (" ");\<close> and the newline after the loop.\<close>

definition print_byte :: "byte list \<Rightarrow> nat \<Rightarrow> byte list \<Rightarrow> byte list result" where
  "print_byte hash i out =
     bind_result (array_get hash i) (\<lambda>b.
       Inr (out @ [hex_char (drop_bit 4 b), hex_char (b AND 15)] @ (if Suc i mod 4 = 0 then [32] else [])))"

definition print_digest :: "byte list \<Rightarrow> byte list \<Rightarrow> byte list result" where
  "print_digest hash out =
     bind_result (fold_result (print_byte hash) [0..<20] out) (\<lambda>out. Inr (out @ [10]))"

text \<open>One message: \<open>SHA1Init\<close>, the calls of \<open>SHA1Update\<close>, \<open>SHA1Final\<close> and the digest.\<close>

definition test_digest :: "byte list list \<Rightarrow> SHA1Context \<times> byte list \<Rightarrow> (SHA1Context \<times> byte list) result" where
  "test_digest parts st =
     (case st of (foo, out) \<Rightarrow>
        bind_result (fold_result (\<lambda>piece sc. SHA1Update sc piece) parts (SHA1Init foo)) (\<lambda>foo.
        bind_result (SHA1Final foo) (\<lambda>(foo, hash).
        bind_result (print_digest hash out) (\<lambda>out. Inr (foo, out)))))"

definition sha1_test_main :: "SHA1Context \<Rightarrow> byte list result" where
  "sha1_test_main foo =
     bind_result (test_digest [bytes_of_string ''abc''] (foo, [])) (\<lambda>st.
     bind_result (test_digest [bytes_of_string ''abcdbcdecdefdefgefghfghighijhijkijkljklmklmnlmnomnopnopq''] st) (\<lambda>st.
     bind_result (test_digest (replicate 1000 (replicate 1000 97)) st) (\<lambda>st. Inr (snd st))))"

section \<open>Hexadecimal text\<close>

definition test_chunk_main :: "byte list result" where
  "test_chunk_main =
     bind_result (shahash (bytes_of_string ''dash'')) (\<lambda>hash.
     bind_result (mem_write (replicate 41 0) 0 (binary2hex hash)) (\<lambda>ascii.
     let out = c_string ascii @ [10] in
     if length (c_string ascii) \<noteq> 40 then Inl Assertion_Failed
     else
       bind_result (hex2binary (c_string ascii)) (\<lambda>bin.
       bind_result (mem_write (replicate 20 0) 0 bin) (\<lambda>hash1.
       bind_result (mem_write ascii 0 (binary2hex hash1)) (\<lambda>ascii.
         Inr (out @ c_string ascii @ [10]))))))"

section \<open>Lines\<close>

definition printline :: "byte list \<Rightarrow> byte list \<Rightarrow> byte list \<Rightarrow> byte list result" where
  "printline cbdata line out =
     Inr (out @ bytes_of_string ''LINE:  '' @ line @ [10] @ bytes_of_string ''CBDATA:  '' @ cbdata @ [10])"

text \<open>
  One turn of the endless loop: \<open>arrived\<close> is what was typed since the last turn, the first component of
  the state what \<open>read\<close> left on standard input.
\<close>

definition read_turn :: "(byte list \<Rightarrow> 's \<Rightarrow> 's result) \<Rightarrow> byte list \<Rightarrow> byte list \<times> user_iobuf \<times> 's \<Rightarrow> (byte list \<times> user_iobuf \<times> 's) result" where
  "read_turn handle_line arrived st = (case st of (fd, u, s) \<Rightarrow> process_user_input handle_line (fd @ arrived) u s)"

definition test_input_buffer_main :: "byte list list \<Rightarrow> byte list result" where
  "test_input_buffer_main arrivals =
     bind_result (fold_result (read_turn (printline (bytes_of_string ''Cows moo!''))) arrivals ([], create_userbuf, []))
       (\<lambda>(fd, u, out). Inr out)"

section \<open>What they print\<close>

text \<open>The digits of a digest in groups of four bytes.\<close>

definition digest_text :: "byte list \<Rightarrow> byte list" where
  "digest_text hash = concat (map (\<lambda>i. butlast (binary2hex (take 4 (drop (4 * i) hash))) @ [32]) [0..<5]) @ [10]"

lemma print_bytes:
  "set is \<subseteq> {..<length hash} \<Longrightarrow> fold_result (print_byte hash) is out =
     Inr (out @ concat (map (\<lambda>i. [hex_char (drop_bit 4 (hash ! i)), hex_char (hash ! i AND 15)] @ (if Suc i mod 4 = 0 then [32] else [])) is))"
  by (induction "is" arbitrary: out) (simp_all add: print_byte_def array_get_def)

lemma digest_group:
  assumes "length hash = 20" and "i < 5"
  shows "butlast (binary2hex (take 4 (drop (4 * i) hash))) @ [32] =
    concat (map (\<lambda>i. [hex_char (drop_bit 4 (hash ! i)), hex_char (hash ! i AND 15)] @ (if Suc i mod 4 = 0 then [32] else [])) [4 * i..<4 * i + 4])"
proof -
  have "take 4 (drop (4 * i) hash) = map ((!) hash) [4 * i..<4 * i + 4]"
    using assms by (intro nth_equalityI) auto
  moreover have "[4 * i..<4 * i + 4] = [4 * i, 4 * i + 1, 4 * i + 2, 4 * i + 3]"
    by (simp add: upt_rec numeral_eq_Suc)
  ultimately show ?thesis by (simp add: binary2hex_def mod_Suc)
qed

lemma concat_groups: "concat (map t [0..<4 * n]) = concat (map (\<lambda>i. concat (map t [4 * i..<4 * i + 4])) [0..<n])"
proof (induction n)
  case (Suc n)
  have "[0..<4 * Suc n] = [0..<4 * n] @ [4 * n..<4 * n + 4]" using upt_add_eq_append [of 0 "4 * n" 4] by (simp add: add.commute)
  then show ?case using Suc by simp
qed simp

lemma print_digest_text:
  assumes "length hash = 20"
  shows "print_digest hash out = Inr (out @ digest_text hash)"
proof -
  define t where "t = (\<lambda>i. [hex_char (drop_bit 4 (hash ! i)), hex_char (hash ! i AND 15)] @ (if Suc i mod 4 = 0 then [32] else []))"
  have "fold_result (print_byte hash) [0..<20] out = Inr (out @ concat (map t [0..<20]))"
    using assms by (subst print_bytes) (auto simp: t_def)
  also have "concat (map t [0..<20]) = concat (map (\<lambda>i. concat (map t [4 * i..<4 * i + 4])) [0..<5])"
    using concat_groups [of t 5] by simp
  also have "\<dots> = concat (map (\<lambda>i. butlast (binary2hex (take 4 (drop (4 * i) hash))) @ [32]) [0..<5])"
    using digest_group [OF assms] by (intro arg_cong [where f = concat] map_cong) (auto simp: t_def)
  finally show ?thesis by (simp add: print_digest_def digest_text_def)
qed

lemma SHA1Update_buffer: "SHA1Update sc d = Inr sc' \<Longrightarrow> length (sha_buffer sc') = length (sha_buffer sc)"
proof (induction sc d rule: SHA1Update.induct)
  case (1 sc d)
  show ?case
  proof (cases "d = []")
    case True
    then show ?thesis using "1.prems" by (subst (asm) SHA1Update.simps) simp
  next
    case False
    let ?n = "min (unat (64 - bufferLength sc)) (length d)"
    from False "1.prems" obtain buf where buf: "mem_write (sha_buffer sc) (unat (bufferLength sc)) (take ?n d) = Inr buf"
      by (subst (asm) SHA1Update.simps) (auto simp: Let_def bind_result_eq_Inr)
    define sc1 where "sc1 = sc\<lparr>sha_buffer := buf, totalLength := totalLength sc + of_nat ?n * 8,
        bufferLength := bufferLength sc + of_nat ?n\<rparr>"
    define sc2 where "sc2 = (if bufferLength sc1 = 64
        then (SHA1Guts sc1 (words_of_buffer (sha_buffer sc1)))\<lparr>bufferLength := 0\<rparr> else sc1)"
    have "SHA1Update sc2 (drop ?n d) = Inr sc'"
      using False "1.prems" buf by (subst (asm) SHA1Update.simps) (auto simp: Let_def sc1_def sc2_def split: if_splits)
    from "1.IH" [OF False refl refl buf sc1_def sc2_def this]
    show ?thesis using mem_write_length [OF buf] by (simp add: sc2_def sc1_def SHA1Guts_fips)
  qed
qed

lemma SHA1Final_buffer: "SHA1Final sc = Inr (sc', h) \<Longrightarrow> length (sha_buffer sc') = length (sha_buffer sc)"
  by (auto simp: SHA1Final_def final_pad_def bind_result_eq_Inr Let_def dest!: SHA1Update_buffer)

lemma test_digest_text:
  assumes "length (sha_buffer foo) = 64"
  shows "\<exists>foo'. test_digest parts (foo, out) = Inr (foo', out @ digest_text (fips_sha1 (concat parts))) \<and> length (sha_buffer foo') = 64"
proof -
  obtain sc sc' where sc: "fold_result (\<lambda>piece sc. SHA1Update sc piece) parts (SHA1Init foo) = Inr sc" "absorbed sc (concat parts)"
    and f: "SHA1Final sc = Inr (sc', fips_sha1 (concat parts))"
    using standard.feed [OF absorbed_init [OF assms], of parts] SHA1Final_absorbed by fastforce
  have "length (sha_buffer sc') = 64" using SHA1Final_buffer [OF f] sc(2) by (auto simp: absorbed_def)
  then show ?thesis using sc(1) f by (simp add: test_digest_def print_digest_text length_fips_sha1 BIN_HASH_SIZE_def)
qed

text \<open>Reading in several turns hands on the lines of all the text that arrived.\<close>

lemma split_lines_append:
  "split_lines (p @ q) = (fst (split_lines p) @ fst (split_lines (snd (split_lines p) @ q)), snd (split_lines (snd (split_lines p) @ q)))"
proof (induction p rule: split_lines.induct)
  case (1 p)
  show ?case
  proof (cases "10 \<in> set p")
    case True
    then obtain l r where p: "p = l @ 10 # r" and l: "10 \<notin> set l" using split_list_first by fast
    have "drop (Suc (length (takeWhile (\<lambda>b. b \<noteq> 10) p))) p = r" by (simp add: p takeWhile_tail takeWhile_absent l)
    then show ?thesis using "1.IH" [OF True refl] by (simp add: p split_lines_line [OF l])
  qed (simp add: split_lines_rest)
qed

lemma split_lines_size: "length (snd (split_lines p)) \<le> length p \<and> set (snd (split_lines p)) \<subseteq> set p"
proof (induction p rule: split_lines.induct)
  case (1 p)
  show ?case
  proof (cases "10 \<in> set p")
    case True
    then obtain l r where p: "p = l @ 10 # r" and l: "10 \<notin> set l" using split_list_first by fast
    have "drop (Suc (length (takeWhile (\<lambda>b. b \<noteq> 10) p))) p = r" by (simp add: p takeWhile_tail takeWhile_absent l)
    then show ?thesis using "1.IH" [OF True refl] by (auto simp: p split_lines_line [OF l])
  qed (simp add: split_lines_rest)
qed

lemma read_turns_lines:
  assumes "length p + length (concat arrivals) \<le> 4096" and "0 \<notin> set (p @ concat arrivals)"
  shows "fold_result (read_turn handle_line) arrivals ([], holding p, s) =
    (let ls = split_lines (p @ concat arrivals)
     in bind_result (fold_result handle_line (if arrivals = [] then [] else fst ls) s)
          (\<lambda>s. Inr ([], holding (if arrivals = [] then p else snd ls), s)))"
  using assms
proof (induction arrivals arbitrary: p s)
  case (Cons a as)
  let ?r = "snd (split_lines (p @ a))"
  have r: "length ?r \<le> length p + length a" "0 \<notin> set ?r" using split_lines_size [of "p @ a"] Cons.prems by auto
  have step: "read_turn handle_line a ([], holding p, s) =
      bind_result (fold_result handle_line (fst (split_lines (p @ a))) s) (\<lambda>s. Inr ([], holding ?r, s))"
    using Cons.prems by (simp add: read_turn_def process_user_input_lines)
  have "fold_result (read_turn handle_line) as ([], holding ?r, s') =
      bind_result (fold_result handle_line (fst (split_lines (?r @ concat as))) s')
        (\<lambda>s. Inr ([], holding (snd (split_lines (?r @ concat as))), s))" for s'
  proof (cases "as = []")
    case True
    have "split_lines ?r = ([], ?r)" using split_lines_append [of "p @ a" "[]"] by (simp add: prod_eq_iff)
    then show ?thesis using True by simp
  next
    case False
    then show ?thesis using Cons.IH [of ?r s'] Cons.prems r by (simp add: Let_def)
  qed
  then show ?case
    using step split_lines_append [of "p @ a" "concat as"]
    by (simp add: fold_result_append bind_result_def split: sum.splits)
qed simp

section \<open>The drivers\<close>

text \<open>
  The test program of \<open>sha.c\<close> prints the digests that the standard defines for its three messages,
  the last of which is fed to \<open>SHA1Update\<close> in a thousand pieces of a thousand bytes, whatever the
  context on the stack held before.
\<close>

lemma sha1_test_prints_digests:
  assumes "length (sha_buffer foo) = 64"
  shows "sha1_test_main foo = Inr (digest_text (fips_sha1 (bytes_of_string ''abc'')) @
    digest_text (fips_sha1 (bytes_of_string ''abcdbcdecdefdefgefghfghighijhijkijkljklmklmnlmnomnopnopq'')) @
    digest_text (fips_sha1 (replicate 1000000 97)))"
proof -
  have million: "concat (replicate n (replicate m x)) = replicate (n * m) x" for n m and x :: byte
    by (induction n) (simp_all add: replicate_add)
  define m2 where "m2 = bytes_of_string ''abcdbcdecdefdefgefghfghighijhijkijkljklmklmnlmnomnopnopq''"
  define t1 where "t1 = digest_text (fips_sha1 (bytes_of_string ''abc''))"
  define t2 where "t2 = t1 @ digest_text (fips_sha1 m2)"
  obtain f1 where f1: "test_digest [bytes_of_string ''abc''] (foo, []) = Inr (f1, t1)" and b1: "length (sha_buffer f1) = 64"
    using test_digest_text [OF assms, of "[bytes_of_string ''abc'']" "[]"] by (auto simp: t1_def)
  obtain f2 where f2: "test_digest [m2] (f1, t1) = Inr (f2, t2)" and b2: "length (sha_buffer f2) = 64"
    using test_digest_text [OF b1, of "[m2]" t1] by (auto simp: t2_def)
  obtain f3 where "test_digest (replicate 1000 (replicate 1000 97)) (f2, t2) = Inr (f3, t2 @ digest_text (fips_sha1 (replicate 1000000 97)))"
    using test_digest_text [OF b2, of "replicate 1000 (replicate 1000 97)" t2] by (auto simp: million)
  then show ?thesis using f1 f2 by (simp add: sha1_test_main_def m2_def [symmetric] t1_def [symmetric]) (simp add: t2_def)
qed

text \<open>
  The test program of \<open>chunk.c\<close> prints the same 40 digits twice: its assertion holds and the text is
  read back to the bytes it was written from.
\<close>

lemma chunk_test_prints_twice:
  "let line = butlast (binary2hex (fips_sha1 (bytes_of_string ''dash''))) @ [10]
   in test_chunk_main = Inr (line @ line) \<and> length line = 41"
proof -
  let ?h = "fips_sha1 (bytes_of_string ''dash'')" let ?t = "butlast (binary2hex ?h)"
  have h: "length ?h = 20" by (simp add: length_fips_sha1 BIN_HASH_SIZE_def)
  have t: "length (binary2hex ?h) = 41" "length ?t = 40" by (simp_all add: length_binary2hex h)
  have full: "mem_write a 0 (binary2hex ?h) = Inr (binary2hex ?h)" if "length a = 41" for a
    using that t by (simp add: mem_write_def)
  have "mem_write (replicate 20 0) 0 ?h = Inr ?h" using h by (simp add: mem_write_def)
  then show ?thesis
    using t full hex2binary_binary2hex [of ?h]
    by (simp add: test_chunk_main_def shahash_fips c_string_binary2hex Let_def)
qed

text \<open>
  The test program of the input buffer prints every line that is typed, once and in order, however the
  text is divided among the calls of \<open>read\<close>, for up to 4096 characters.
\<close>

lemma input_test_prints_lines:
  assumes "length (concat arrivals) \<le> 4096" and "0 \<notin> set (concat arrivals)"
  shows "test_input_buffer_main arrivals =
    Inr (concat (map (\<lambda>l. bytes_of_string ''LINE:  '' @ l @ [10] @ bytes_of_string ''CBDATA:  Cows moo!'' @ [10])
      (fst (split_lines (concat arrivals)))))"
proof -
  have print: "fold_result (printline (bytes_of_string ''Cows moo!'')) ls out =
      Inr (out @ concat (map (\<lambda>l. bytes_of_string ''LINE:  '' @ l @ [10] @ bytes_of_string ''CBDATA:  Cows moo!'' @ [10]) ls))" for ls out
    by (induction ls arbitrary: out) (simp_all add: printline_def bytes_of_string_def)
  have "split_lines [] = ([], [])" by (simp add: split_lines_rest)
  then show ?thesis
    using read_turns_lines [of "[]" arrivals "printline (bytes_of_string ''Cows moo!'')" "[]"] assms
    by (cases "arrivals = []") (simp_all add: test_input_buffer_main_def create_userbuf_holding print Let_def)
qed

end
