(* ===== verification/Proxy_Parse.thy ===== *)
theory Proxy_Parse
  imports Text_Io
begin

text \<open>
  Message framing and socket lists of the streaming proxy: \<^verbatim>\<open>src/code/parse.c\<close> with the
  structure of \<^verbatim>\<open>src/code/buffer.h\<close>.

  The proxy collects the bytes of each direction in \<open>recv_buf\<close>, waits for a complete HTTP message and
  moves it to \<open>send_buf\<close>. A pointer into a buffer is an index. \<open>strstr\<close> works on a string, so a buffer
  without a NUL behind the place where the search begins is a fault; an order comparison or a
  difference with a null pointer is undefined. Allocation of a sensible size does not fail.
\<close>

section \<open>Strings in buffers\<close>

text \<open>The first occurrence of a string in a list of bytes.\<close>

fun find_sub :: "byte list \<Rightarrow> byte list \<Rightarrow> nat option" where
  "find_sub needle [] = (if needle = [] then Some 0 else None)"
| "find_sub needle (b # bs) =
     (if take (length needle) (b # bs) = needle then Some 0 else map_option Suc (find_sub needle bs))"

definition strstr :: "byte list \<Rightarrow> nat \<Rightarrow> byte list \<Rightarrow> nat option result" where
  "strstr buf start needle =
     (if 0 \<notin> set (drop start buf) then Inl Out_Of_Bounds
      else Inr (map_option (\<lambda>i. start + i) (find_sub needle (c_string (drop start buf)))))"

definition CRLF :: "byte list" where "CRLF = [13, 10]"
definition content_length_field :: "byte list" where "content_length_field = bytes_of_string ''Content-Length: ''"

definition LINE_SIZE :: nat where "LINE_SIZE = 128"
definition MAX_SOCK_NUM :: nat where "MAX_SOCK_NUM = 64"

text \<open>From \<open>begin_loc\<close> to \<open>end_loc\<close>, which may be null, into an array of \<open>LINE_SIZE\<close> bytes.\<close>

definition extract_string :: "byte list \<Rightarrow> nat \<Rightarrow> nat option \<Rightarrow> byte list result" where
  "extract_string buf begin_loc end_loc =
     (case end_loc of
        None \<Rightarrow> Inl Undefined
      | Some e \<Rightarrow>
          bind_result (mem_read buf begin_loc (e - begin_loc)) (\<lambda>s.
            mem_write (replicate LINE_SIZE 0) 0 (s @ [0])))"

definition extract_data_from_header :: "byte list \<Rightarrow> byte list \<Rightarrow> byte list \<Rightarrow> byte list option result" where
  "extract_data_from_header buffer field_name data_end =
     bind_result (strstr buffer 0 field_name) (\<lambda>field_name_begin.
     bind_result (strstr buffer 0 (CRLF @ CRLF)) (\<lambda>first_header_end.
       case field_name_begin of
         None \<Rightarrow> Inr None
       | Some b \<Rightarrow>
           case first_header_end of
             None \<Rightarrow> Inl Undefined
           | Some h \<Rightarrow>
               if h < b then Inr None
               else
                 bind_result (strstr buffer b data_end) (\<lambda>e.
                 bind_result (extract_string buffer (b + length field_name) e) (\<lambda>data. Inr (Some data)))))"

section \<open>Framing\<close>

record Buffer =
  recv_buf :: "byte list"
  send_buf :: "byte list"
  recv_len :: int
  send_len :: int

text \<open>The \<open>int\<close> that \<open>atoi\<close> returns.\<close>

definition first_body_length :: "byte list \<Rightarrow> int result" where
  "first_body_length buffer =
     bind_result (extract_data_from_header buffer content_length_field CRLF) (\<lambda>content_len_data.
       case content_len_data of
         None \<Rightarrow> Inr 0
       | Some data \<Rightarrow> bind_result (atoi (c_string data)) (\<lambda>n. Inr (sint n)))"

definition first_message_length :: "byte list \<Rightarrow> int result" where
  "first_message_length buffer =
     bind_result (strstr buffer 0 (CRLF @ CRLF)) (\<lambda>first_header_end.
       case first_header_end of
         None \<Rightarrow> Inl Undefined
       | Some h \<Rightarrow>
           bind_result (first_body_length buffer) (\<lambda>body.
           bind_result (int_value (int (h + length (CRLF @ CRLF)) + body)) (\<lambda>n. Inr (sint n))))"

definition complete_body_received :: "Buffer \<Rightarrow> bool result" where
  "complete_body_received b =
     bind_result (first_message_length (recv_buf b)) (\<lambda>complete_message_len. Inr (complete_message_len \<le> recv_len b))"

text \<open>\<open>memmove\<close> of the bytes from \<open>start\<close> on to the front of the receive buffer.\<close>

definition shift_recv_buf :: "nat \<Rightarrow> Buffer \<Rightarrow> Buffer result" where
  "shift_recv_buf start b =
     bind_result (mem_read (recv_buf b) start (nat (recv_len b))) (\<lambda>rest.
     bind_result (mem_write (recv_buf b) 0 rest) (\<lambda>buf. Inr (b\<lparr>recv_buf := buf\<rparr>)))"

text \<open>The loop that erases empty lines in front of a header.\<close>

function erase_CRLFs :: "Buffer \<Rightarrow> Buffer result" where
  "erase_CRLFs b =
     bind_result (strstr (recv_buf b) 0 CRLF) (\<lambda>first_CRLF.
       if first_CRLF = Some 0 \<and> 2 \<le> recv_len b then
         bind_result (shift_recv_buf 2 (b\<lparr>recv_len := recv_len b - 2\<rparr>)) erase_CRLFs
       else Inr b)"
  by pat_completeness auto
termination
  by (relation "measure (\<lambda>b. nat (recv_len b))") (auto simp: shift_recv_buf_def result_simps)

declare erase_CRLFs.simps [simp del]

definition complete_header_received :: "Buffer \<Rightarrow> (bool \<times> Buffer) result" where
  "complete_header_received b =
     bind_result (erase_CRLFs b) (\<lambda>b.
       if recv_len b < 2 then Inr (False, b)
       else
         bind_result (strstr (recv_buf b) 0 (CRLF @ CRLF)) (\<lambda>header_end.
           Inr (header_end \<noteq> None, b)))"

text \<open>\<open>calloc\<close> of a negative number of bytes returns a null pointer, and the copy that follows uses it.\<close>

definition move_data_from_recv_to_send :: "Buffer \<Rightarrow> Buffer result" where
  "move_data_from_recv_to_send b =
     bind_result (first_message_length (recv_buf b)) (\<lambda>message_len.
       if message_len < 0 then Inl Invalid_Pointer
       else
         bind_result (mem_read (recv_buf b) 0 (nat message_len)) (\<lambda>msg.
           let b = b\<lparr>send_buf := msg, recv_len := recv_len b - message_len\<rparr>
           in if recv_len b < 0 then Inl Assertion_Failed
              else shift_recv_buf (nat message_len) (b\<lparr>send_len := message_len\<rparr>)))"

text \<open>The part of \<open>parse_data\<close> that takes one message: whether there is one, and the buffer.\<close>

definition take_message :: "Buffer \<Rightarrow> (bool \<times> Buffer) result" where
  "take_message b =
     bind_result (complete_header_received b) (\<lambda>(ready, b).
       if \<not> ready then Inr (False, b)
       else
         bind_result (complete_body_received b) (\<lambda>ready.
           if \<not> ready then Inr (False, b)
           else bind_result (move_data_from_recv_to_send b) (\<lambda>b. Inr (True, b))))"

section \<open>Socket lists\<close>

record sock_lists =
  server_socks :: "int list"
  browser_socks :: "int list"
  server_socks_count :: nat
  browser_socks_count :: nat

definition init_sock_lists :: sock_lists where
  "init_sock_lists = \<lparr>server_socks = replicate MAX_SOCK_NUM 0, browser_socks = replicate MAX_SOCK_NUM 0,
     server_socks_count = 0, browser_socks_count = 0\<rparr>"

text \<open>The loop both lookups share.\<close>

function sock_in :: "int list \<Rightarrow> nat \<Rightarrow> nat \<Rightarrow> int \<Rightarrow> bool result" where
  "sock_in socks i count sock =
     (if i < count then
        bind_result (array_get socks i) (\<lambda>s. if s = sock then Inr True else sock_in socks (Suc i) count sock)
      else Inr False)"
  by pat_completeness auto
termination by (relation "measure (\<lambda>(socks, i, count, sock). count - i)") auto

declare sock_in.simps [simp del]

definition is_browser :: "int \<Rightarrow> sock_lists \<Rightarrow> bool result" where
  "is_browser sock l = sock_in (browser_socks l) 0 (browser_socks_count l) sock"

definition is_server :: "int \<Rightarrow> sock_lists \<Rightarrow> bool result" where
  "is_server sock l = sock_in (server_socks l) 0 (server_socks_count l) sock"

definition add_browser_sock_to_list :: "int \<Rightarrow> sock_lists \<Rightarrow> sock_lists result" where
  "add_browser_sock_to_list sock l =
     bind_result (is_browser sock l) (\<lambda>browser.
     bind_result (if browser then Inr False else bind_result (is_server sock l) (\<lambda>server. Inr (\<not> server))) (\<lambda>unseen.
       if unseen then
         bind_result (array_set (browser_socks l) (browser_socks_count l) sock) (\<lambda>socks.
           Inr (l\<lparr>browser_socks := socks, browser_socks_count := Suc (browser_socks_count l)\<rparr>))
       else Inr l))"

definition add_server_sock_to_list :: "int \<Rightarrow> sock_lists \<Rightarrow> sock_lists result" where
  "add_server_sock_to_list sock l =
     bind_result (is_server sock l) (\<lambda>server.
       if \<not> server then
         bind_result (array_set (server_socks l) (server_socks_count l) sock) (\<lambda>socks.
           Inr (l\<lparr>server_socks := socks, server_socks_count := Suc (server_socks_count l)\<rparr>))
       else Inr l)"

section \<open>First occurrences\<close>

definition occurs :: "byte list \<Rightarrow> byte list \<Rightarrow> nat \<Rightarrow> bool" where
  "occurs needle s i \<longleftrightarrow> take (length needle) (drop i s) = needle"

lemma occurs_length:
  assumes "occurs needle s i" and "needle \<noteq> []"
  shows "i + length needle \<le> length s"
proof -
  have "min (length s - i) (length needle) = length needle"
    using arg_cong [OF assms(1) [unfolded occurs_def], of length] by simp
  moreover have "0 < length needle" using assms(2) by simp
  ultimately show ?thesis by linarith
qed

lemma find_sub_Some: "needle \<noteq> [] \<Longrightarrow> find_sub needle s = Some i \<longleftrightarrow> occurs needle s i \<and> (\<forall>j < i. \<not> occurs needle s j)"
proof (induction s arbitrary: i)
  case Nil
  then show ?case by (simp add: occurs_def)
next
  case (Cons b s)
  then show ?case by (cases i) (auto simp: occurs_def All_less_Suc2 split: if_splits)
qed

lemma find_sub_None: "needle \<noteq> [] \<Longrightarrow> find_sub needle s = None \<longleftrightarrow> (\<forall>j. \<not> occurs needle s j)"
proof (induction s)
  case (Cons b s)
  have "(\<forall>j. \<not> occurs needle (b # s) j) \<longleftrightarrow> \<not> occurs needle (b # s) 0 \<and> (\<forall>j. \<not> occurs needle (b # s) (Suc j))"
    by (metis not0_implies_Suc)
  with Cons show ?case by (auto simp: occurs_def)
qed (simp add: occurs_def)

lemma occurs_append: "i + length needle \<le> length s \<Longrightarrow> occurs needle (s @ t) i \<longleftrightarrow> occurs needle s i"
  by (simp add: occurs_def)

lemma occurs_nth: "occurs needle s i \<Longrightarrow> k < length needle \<Longrightarrow> s ! (i + k) = needle ! k"
  using occurs_length [of needle s i] by (auto simp: occurs_def) (metis nth_drop nth_take add_leD1 gr_implies_not0 list.size(3))

lemma find_sub_append:
  assumes "needle \<noteq> []" and "find_sub needle s = Some i"
  shows "find_sub needle (s @ t) = Some i"
proof -
  have i: "occurs needle s i" "\<forall>j < i. \<not> occurs needle s j" using assms by (auto simp: find_sub_Some)
  then have "i + length needle \<le> length s" using assms(1) occurs_length by blast
  then show ?thesis using i assms(1) by (auto simp: find_sub_Some occurs_append)
qed

text \<open>A string none of whose bytes is \<open>x\<close> does not occur across an \<open>x\<close>.\<close>

lemma occurs_before:
  assumes "occurs needle (s @ x # t) j" and "x \<notin> set needle" and "j \<le> length s" and "needle \<noteq> []"
  shows "occurs needle s j"
proof (cases "j + length needle \<le> length s")
  case True
  then show ?thesis using assms(1) occurs_append by blast
next
  case False
  then have k: "length s - j < length needle" using assms(3) by simp
  then have "needle ! (length s - j) = (s @ x # t) ! (j + (length s - j))" using occurs_nth [OF assms(1)] by simp
  then have "x = needle ! (length s - j)" using assms(3) by simp
  with k assms(2) show ?thesis by simp
qed

section \<open>Headers\<close>

lemmas proxy_consts = CRLF_def LINE_SIZE_def MAX_SOCK_NUM_def

lemma CRLF_nonempty [simp]: "CRLF \<noteq> []" "CRLF @ CRLF \<noteq> []" "length CRLF = 2"
  by (simp_all add: CRLF_def)

lemma content_length_field_facts [simp]:
  "content_length_field \<noteq> []" "13 \<notin> set content_length_field" "0 \<notin> set content_length_field" "length content_length_field = 16"
  by code_simp+

lemma c_string_append: "0 \<notin> set s \<Longrightarrow> c_string (s @ t) = s @ c_string t"
  unfolding c_string_def by (rule takeWhile_append2) auto

lemma strstr_found:
  "0 \<notin> set s \<Longrightarrow> 0 \<in> set t \<Longrightarrow> needle \<noteq> [] \<Longrightarrow> find_sub needle s = Some i \<Longrightarrow> strstr (s @ t) 0 needle = Inr (Some i)"
  by (simp add: strstr_def c_string_append find_sub_append)

text \<open>A complete header that does not begin with an empty line, and the text of its length field.\<close>

definition header_ok :: "byte list \<Rightarrow> bool" where
  "header_ok h \<longleftrightarrow> 4 \<le> length h \<and> find_sub (CRLF @ CRLF) h = Some (length h - 4) \<and> 0 \<notin> set h \<and> take 2 h \<noteq> CRLF"

definition length_field :: "byte list \<Rightarrow> byte list \<Rightarrow> bool" where
  "length_field h txt \<longleftrightarrow>
     (\<exists>pre post. h = pre @ content_length_field @ txt @ CRLF @ post \<and> find_sub content_length_field h = Some (length pre))"

text \<open>The header announces a body of \<open>n\<close> bytes.\<close>

definition announces :: "byte list \<Rightarrow> nat \<Rightarrow> bool" where
  "announces h n \<longleftrightarrow> length_field h (dec_bytes n) \<or> find_sub content_length_field h = None \<and> n = 0"

lemma header_end:
  assumes "header_ok h"
  shows "\<exists>g. h = g @ 13 # [10, 13, 10]"
proof -
  have "take 4 (drop (length h - 4) h) = CRLF @ CRLF" "4 \<le> length h"
    using assms find_sub_Some [of "CRLF @ CRLF" h] by (auto simp: header_ok_def occurs_def)
  then have "h = take (length h - 4) h @ 13 # [10, 13, 10]"
    by (metis CRLF_def append_Cons append_Nil append_take_drop_id diff_diff_cancel length_drop order_refl take_all)
  then show ?thesis ..
qed

lemma strstr_header_end:
  "header_ok h \<Longrightarrow> 0 \<in> set t \<Longrightarrow> strstr (h @ t) 0 (CRLF @ CRLF) = Inr (Some (length h - 4))"
  by (rule strstr_found) (simp_all add: header_ok_def)

lemma extract_length_field:
  assumes "header_ok h" and "length_field h txt" and "13 \<notin> set txt" and "length txt < LINE_SIZE" and "0 \<in> set t"
  shows "\<exists>z. extract_data_from_header (h @ t) content_length_field CRLF = Inr (Some (txt @ 0 # z))"
proof -
  obtain pre post where h: "h = pre @ content_length_field @ txt @ CRLF @ post"
    and first: "find_sub content_length_field h = Some (length pre)"
    using assms(2) by (auto simp: length_field_def)
  let ?f = "content_length_field @ txt @ CRLF"
  have nz: "0 \<notin> set h" "0 \<notin> set txt" using assms(1) h by (auto simp: header_ok_def)
  have "occurs CRLF ?f (length (content_length_field @ txt))" by (simp add: occurs_def)
  moreover have "\<not> occurs CRLF ?f j" if "j < length (content_length_field @ txt)" for j
  proof
    assume "occurs CRLF ?f j"
    then have "?f ! (j + 0) = CRLF ! 0" by (rule occurs_nth) simp
    then have "((content_length_field @ txt) @ CRLF) ! j = 13" by (simp add: CRLF_def)
    then have "13 \<in> set (content_length_field @ txt)" using that by (metis nth_append nth_mem)
    then show False using assms(3) by simp
  qed
  ultimately have "find_sub CRLF ?f = Some (length (content_length_field @ txt))" by (simp add: find_sub_Some)
  then have "find_sub CRLF (?f @ c_string (post @ t)) = Some (16 + length txt)" using find_sub_append [OF CRLF_nonempty(1)] by fastforce
  moreover have "c_string (?f @ post @ t) = ?f @ c_string (post @ t)" by (rule c_string_append) (use nz in \<open>auto simp: CRLF_def\<close>)
  ultimately have e: "strstr (h @ t) (length pre) CRLF = Inr (Some (length pre + (16 + length txt)))"
    using assms(5) by (simp add: strstr_def h)
  have b: "strstr (h @ t) 0 content_length_field = Inr (Some (length pre))"
    using nz assms(5) first by (intro strstr_found) auto
  obtain g where "h = g @ 13 # [10, 13, 10]" using header_end [OF assms(1)] by blast
  have "length pre \<le> length h - 4"
    using h by simp
  moreover have "extract_string (h @ t) (length pre + 16) (Some (length pre + (16 + length txt))) =
      Inr (txt @ 0 # replicate (LINE_SIZE - Suc (length txt)) 0)"
    using assms(4) by (simp add: extract_string_def mem_read_def h mem_write_zeros)
  ultimately show ?thesis
    using e b strstr_header_end [OF assms(1,5)] by (simp add: extract_data_from_header_def)
qed

lemma extract_no_length_field:
  assumes "header_ok h" and "find_sub content_length_field h = None" and "0 \<in> set t"
  shows "extract_data_from_header (h @ t) content_length_field CRLF = Inr None"
proof -
  obtain g where g: "h = g @ 13 # [10, 13, 10]" using header_end [OF assms(1)] by blast
  have nz: "0 \<notin> set h" using assms(1) by (auto simp: header_ok_def)
  then have s: "strstr (h @ t) 0 content_length_field = Inr (find_sub content_length_field (h @ c_string t))"
    using assms(3) by (cases "find_sub content_length_field (h @ c_string t)") (simp_all add: strstr_def c_string_append)
  have "length h - 4 < b" if "find_sub content_length_field (h @ c_string t) = Some b" for b
  proof (rule ccontr)
    assume "\<not> length h - 4 < b"
    then have "b \<le> length g" using g by simp
    moreover have "occurs content_length_field (g @ 13 # [10, 13, 10] @ c_string t) b"
      using that g by (simp add: find_sub_Some)
    ultimately have "occurs content_length_field g b" using occurs_before by fastforce
    then have "occurs content_length_field h b" using occurs_length [of content_length_field g b] g by (simp add: occurs_append)
    then show False using assms(2) by (simp add: find_sub_None)
  qed
  then show ?thesis
    using s strstr_header_end [OF assms(1,3)] by (auto simp: extract_data_from_header_def split: option.splits)
qed

section \<open>Messages\<close>

lemma sint_int_value: "int_value i = Inr w \<Longrightarrow> sint w = i"
  by (auto simp: int_value_def signed_of_int take_bit_int_eq_self signed_take_bit_int_eq_self split: if_splits)

lemma c_string_text: "0 \<notin> set txt \<Longrightarrow> c_string (txt @ 0 # z) = txt"
  by (simp add: c_string_append) (simp add: c_string_def)

lemma body_length_field:
  assumes "header_ok h" and "length_field h txt" and "13 \<notin> set txt" and "length txt < LINE_SIZE" and "0 \<in> set t"
    and "scan_int txt = Some (i, [])" and "- (2 ^ 31) \<le> i" and "i < 2 ^ 31"
  shows "first_body_length (h @ t) = Inr i"
proof -
  have nz: "0 \<notin> set txt" using assms(1,2) by (auto simp: header_ok_def length_field_def)
  obtain w where w: "int_value i = Inr w" using assms(7,8) by (simp add: int_value_def)
  obtain z where "extract_data_from_header (h @ t) content_length_field CRLF = Inr (Some (txt @ 0 # z))"
    using extract_length_field [OF assms(1-5)] by blast
  then show ?thesis
    using assms(6) nz w sint_int_value [OF w] by (simp add: first_body_length_def c_string_text atoi_def)
qed

lemma message_length_body:
  assumes "header_ok h" and "0 \<in> set t" and "first_body_length (h @ t) = Inr n"
    and "- (2 ^ 31) \<le> int (length h) + n" and "int (length h) + n < 2 ^ 31"
  shows "first_message_length (h @ t) = Inr (int (length h) + n)"
proof -
  obtain w where w: "int_value (int (length h) + n) = Inr w" using assms(4,5) by (simp add: int_value_def)
  have "length h - 4 + length (CRLF @ CRLF) = length h" using assms(1) by (simp add: header_ok_def)
  then show ?thesis
    using strstr_header_end [OF assms(1,2)] assms(3) w sint_int_value [OF w]
    by (simp add: first_message_length_def)
qed

lemma dec_bytes_text: "13 \<notin> set (dec_bytes n)" "n < 2 ^ 31 \<Longrightarrow> length (dec_bytes n) < LINE_SIZE"
proof -
  show "13 \<notin> set (dec_bytes n)"
    using dec_bytes_digits [of 13 n] by (auto simp: isdigit_def word_le_nat_alt)
  show "length (dec_bytes n) < LINE_SIZE" if "n < 2 ^ 31"
    using length_dec_bytes [of n 10] that by (simp add: LINE_SIZE_def)
qed

lemma message_length_announced:
  assumes "header_ok h" and "announces h n" and "0 \<in> set t" and "length h + n < 2 ^ 31"
  shows "first_message_length (h @ t) = Inr (int (length h + n))"
proof -
  have n: "n < 2 ^ 31" using assms(4) by simp
  have scan: "scan_int (dec_bytes n) = Some (int n, [])" using scan_int_dec_bytes [of "[]" n] by simp
  have "first_body_length (h @ t) = Inr (int n)" if "length_field h (dec_bytes n)"
    by (rule body_length_field [OF assms(1) that dec_bytes_text(1) dec_bytes_text(2) [OF n] assms(3) scan]) (use n in auto)
  moreover have "first_body_length (h @ t) = Inr (int n)" if "find_sub content_length_field h = None" "n = 0"
    using extract_no_length_field [OF assms(1) that(1) assms(3)] that(2) by (simp add: first_body_length_def)
  ultimately have "first_body_length (h @ t) = Inr (int n)" using assms(2) by (auto simp: announces_def)
  then show ?thesis using message_length_body [OF assms(1,3)] assms(4) by simp
qed

text \<open>Empty lines in front of a header are erased; what is behind the received bytes changes, but a NUL stays.\<close>

lemma erase_CRLFs_header:
  assumes "header_ok h" and "0 \<in> set (u @ t)"
    and "recv_buf b = concat (replicate k CRLF) @ h @ u @ t" and "recv_len b = int (2 * k + length h + length u)"
  shows "\<exists>t'. erase_CRLFs b = Inr (b\<lparr>recv_buf := h @ u @ t', recv_len := int (length h + length u)\<rparr>) \<and> 0 \<in> set (u @ t')"
  using assms(2-4)
proof (induction k arbitrary: b t)
  case 0
  have "find_sub CRLF (h @ c_string (u @ t)) \<noteq> Some 0"
    using assms(1) by (auto simp: find_sub_Some occurs_def header_ok_def)
  moreover have "c_string (h @ u @ t) = h @ c_string (u @ t)" using assms(1) by (simp add: c_string_append header_ok_def)
  ultimately have "erase_CRLFs b = Inr b"
    using 0 by (subst erase_CRLFs.simps) (auto simp: strstr_def split: option.splits)
  moreover have "b = b\<lparr>recv_buf := h @ u @ t, recv_len := int (length h + length u)\<rparr>" using 0 by simp
  ultimately show ?case using 0(1) by metis
next
  case (Suc k)
  let ?m = "concat (replicate k CRLF) @ h @ u"
  have len: "length ?m = 2 * k + length h + length u"
    by (induction k) simp_all
  have buf: "recv_buf b = CRLF @ ?m @ t" using Suc.prems(2) by simp
  have "c_string (CRLF @ ?m @ t) = CRLF @ c_string (?m @ t)" by (rule c_string_append) (simp add: CRLF_def)
  moreover have "find_sub CRLF (CRLF @ c_string (?m @ t)) = Some 0" by (simp add: find_sub_Some occurs_def)
  ultimately have first: "strstr (recv_buf b) 0 CRLF = Inr (Some 0)"
    using Suc.prems(1) by (simp add: strstr_def buf)
  let ?t = "drop (length ?m) (CRLF @ ?m) @ t"
  let ?b = "b\<lparr>recv_buf := ?m @ ?t, recv_len := int (2 * k + length h + length u)\<rparr>"
  have "shift_recv_buf 2 (b\<lparr>recv_len := recv_len b - 2\<rparr>) = Inr ?b"
    using len Suc.prems(3) by (simp add: shift_recv_buf_def mem_read_def mem_write_def buf)
  then have step: "erase_CRLFs b = erase_CRLFs ?b"
    using first Suc.prems(3) by (subst erase_CRLFs.simps) simp
  have "0 \<in> set (u @ ?t)" using Suc.prems(1) by auto
  then obtain t' where "erase_CRLFs ?b = Inr (?b\<lparr>recv_buf := h @ u @ t', recv_len := int (length h + length u)\<rparr>)" "0 \<in> set (u @ t')"
    using Suc.IH [of ?t ?b] by auto
  then show ?case using step by auto
qed

lemma complete_header_ok:
  assumes "header_ok h" and "0 \<in> set (u @ t)"
    and "recv_buf b = concat (replicate k CRLF) @ h @ u @ t" and "recv_len b = int (2 * k + length h + length u)"
  shows "\<exists>t'. complete_header_received b = Inr (True, b\<lparr>recv_buf := h @ u @ t', recv_len := int (length h + length u)\<rparr>) \<and>
           0 \<in> set (u @ t')"
proof -
  obtain t' where t': "erase_CRLFs b = Inr (b\<lparr>recv_buf := h @ u @ t', recv_len := int (length h + length u)\<rparr>)" "0 \<in> set (u @ t')"
    using erase_CRLFs_header [OF assms] by blast
  moreover have "4 \<le> length h" using assms(1) by (simp add: header_ok_def)
  ultimately show ?thesis
    using strstr_header_end [OF assms(1) t'(2)]
    by (intro exI [of _ t']) (simp add: complete_header_received_def)
qed

lemma move_message:
  assumes "header_ok h" and "announces h (length body)" and "0 \<in> set (body @ rest @ t)"
    and "length h + length body < 2 ^ 31" and "recv_buf b = h @ body @ rest @ t"
    and "recv_len b = int (length h + length body + length rest)"
  shows "\<exists>t'. move_data_from_recv_to_send b =
           Inr (b\<lparr>send_buf := h @ body, recv_buf := rest @ t', recv_len := int (length rest), send_len := int (length (h @ body))\<rparr>)"
proof -
  have "first_message_length (recv_buf b) = Inr (int (length h + length body))"
    unfolding assms(5) by (rule message_length_announced [OF assms(1-4)])
  then show ?thesis
    by (intro exI [of _ "drop (length rest) (h @ body @ rest) @ t"])
       (simp add: move_data_from_recv_to_send_def shift_recv_buf_def mem_read_def mem_write_def assms(5,6) nat_int_add)
qed

lemma take_message_ok:
  assumes "header_ok h" and "announces h (length body)" and "length h + length body < 2 ^ 31"
    and "recv_buf b = concat (replicate k CRLF) @ h @ body @ rest @ tail" and "0 \<in> set (body @ rest @ tail)"
    and "recv_len b = int (2 * k + length (h @ body @ rest))"
  shows "\<exists>b'. take_message b = Inr (True, b') \<and> send_buf b' = h @ body \<and> send_len b' = int (length (h @ body)) \<and>
           recv_len b' = int (length rest) \<and> take (length rest) (recv_buf b') = rest"
proof -
  obtain t where head: "complete_header_received b =
      Inr (True, b\<lparr>recv_buf := h @ (body @ rest) @ t, recv_len := int (length h + length (body @ rest))\<rparr>)"
    and nul: "0 \<in> set ((body @ rest) @ t)"
    using complete_header_ok [of h "body @ rest" tail b k] assms by auto
  let ?b = "b\<lparr>recv_buf := h @ (body @ rest) @ t, recv_len := int (length h + length (body @ rest))\<rparr>"
  have "complete_body_received ?b = Inr True"
    using message_length_announced [OF assms(1,2) nul assms(3)] by (simp add: complete_body_received_def)
  moreover obtain t' where "move_data_from_recv_to_send ?b =
      Inr (?b\<lparr>send_buf := h @ body, recv_buf := rest @ t', recv_len := int (length rest), send_len := int (length (h @ body))\<rparr>)"
    using move_message [OF assms(1,2) _ assms(3), of rest t ?b] nul by auto
  ultimately show ?thesis using head by (simp add: take_message_def)
qed

section \<open>Socket lists as sets\<close>

definition servers :: "sock_lists \<Rightarrow> int list" where "servers l = take (server_socks_count l) (server_socks l)"
definition browsers :: "sock_lists \<Rightarrow> int list" where "browsers l = take (browser_socks_count l) (browser_socks l)"

definition socks_ok :: "sock_lists \<Rightarrow> bool" where
  "socks_ok l \<longleftrightarrow> length (server_socks l) = MAX_SOCK_NUM \<and> length (browser_socks l) = MAX_SOCK_NUM \<and>
     server_socks_count l \<le> MAX_SOCK_NUM \<and> browser_socks_count l \<le> MAX_SOCK_NUM \<and>
     distinct (servers l) \<and> distinct (browsers l)"

lemma sock_in_eq: "count \<le> length socks \<Longrightarrow> sock_in socks i count sock = Inr (sock \<in> set (drop i (take count socks)))"
proof (induction "count - i" arbitrary: i)
  case 0
  then show ?case by (subst sock_in.simps) simp
next
  case (Suc n)
  then have "drop i (take count socks) = socks ! i # drop (Suc i) (take count socks)"
    by (subst Cons_nth_drop_Suc [symmetric]) auto
  with Suc show ?case by (subst sock_in.simps) (auto simp: array_get_def)
qed

lemma is_browser_eq: "socks_ok l \<Longrightarrow> is_browser sock l = Inr (sock \<in> set (browsers l))"
  by (simp add: is_browser_def sock_in_eq socks_ok_def browsers_def)

lemma is_server_eq: "socks_ok l \<Longrightarrow> is_server sock l = Inr (sock \<in> set (servers l))"
  by (simp add: is_server_def sock_in_eq socks_ok_def servers_def)

lemma take_array_snoc: "n < length xs \<Longrightarrow> take (Suc n) (xs[n := x]) = take n xs @ [x]"
  by (simp add: take_Suc_conv_app_nth)

datatype sock_event = Browser_Sock int | Server_Sock int

fun sock_step :: "sock_event \<Rightarrow> sock_lists \<Rightarrow> sock_lists result" where
  "sock_step (Browser_Sock s) = add_browser_sock_to_list s"
| "sock_step (Server_Sock s) = add_server_sock_to_list s"

text \<open>The same on two lists without a limit.\<close>

fun sock_spec :: "sock_event \<Rightarrow> int list \<times> int list \<Rightarrow> int list \<times> int list" where
  "sock_spec (Browser_Sock s) (bs, ss) = (if s \<in> set bs \<or> s \<in> set ss then bs else bs @ [s], ss)"
| "sock_spec (Server_Sock s) (bs, ss) = (bs, if s \<in> set ss then ss else ss @ [s])"

lemma sock_step_spec:
  assumes "socks_ok l"
  shows "case sock_spec e (browsers l, servers l) of (bs, ss) \<Rightarrow>
     if length bs \<le> MAX_SOCK_NUM \<and> length ss \<le> MAX_SOCK_NUM
     then \<exists>l'. sock_step e l = Inr l' \<and> socks_ok l' \<and> browsers l' = bs \<and> servers l' = ss
     else sock_step e l = Inl Out_Of_Bounds"
proof (cases e)
  case (Browser_Sock s)
  show ?thesis
    using assms is_browser_eq [OF assms, of s] is_server_eq [OF assms, of s] Browser_Sock
    by (auto simp: add_browser_sock_to_list_def array_set_def socks_ok_def browsers_def servers_def take_array_snoc)
next
  case (Server_Sock s)
  show ?thesis
    using assms is_server_eq [OF assms, of s] Server_Sock
    by (auto simp: add_server_sock_to_list_def array_set_def socks_ok_def browsers_def servers_def take_array_snoc)
qed

interpretation socks: machine sock_step socks_ok
proof
  show "socks_ok l'" if "socks_ok l" "sock_step e l = Inr l'" for l e l'
    using sock_step_spec [OF that(1), of e] that(2) by (auto split: prod.splits if_splits)
qed

lemma socks_ok_init: "socks_ok init_sock_lists" "browsers init_sock_lists = []" "servers init_sock_lists = []"
  by (simp_all add: socks_ok_def init_sock_lists_def browsers_def servers_def)

lemma sock_spec_grows: "length (fst st) \<le> length (fst (sock_spec e st)) \<and> length (snd st) \<le> length (snd (sock_spec e st))"
  by (cases e; cases st) auto

lemma sock_specs_grow:
  "length (fst st) \<le> length (fst (fold sock_spec es st)) \<and> length (snd st) \<le> length (snd (fold sock_spec es st))"
proof (induction es arbitrary: st)
  case (Cons e es)
  show ?case using Cons.IH [of "sock_spec e st"] sock_spec_grows [of st e] by simp
qed simp

lemma sock_run_spec:
  assumes "socks_ok l"
  shows "case fold sock_spec es (browsers l, servers l) of (bs, ss) \<Rightarrow>
     if length bs \<le> MAX_SOCK_NUM \<and> length ss \<le> MAX_SOCK_NUM
     then \<exists>l'. fold_result sock_step es l = Inr l' \<and> socks_ok l' \<and> browsers l' = bs \<and> servers l' = ss
     else fold_result sock_step es l = Inl Out_Of_Bounds"
  using assms
proof (induction es arbitrary: l)
  case Nil
  then show ?case by (auto simp: socks_ok_def browsers_def servers_def)
next
  case (Cons e es)
  obtain bs ss where one: "sock_spec e (browsers l, servers l) = (bs, ss)" by force
  show ?case
  proof (cases "length bs \<le> MAX_SOCK_NUM \<and> length ss \<le> MAX_SOCK_NUM")
    case True
    then obtain l' where l': "sock_step e l = Inr l'" "socks_ok l'" "browsers l' = bs" "servers l' = ss"
      using sock_step_spec [OF Cons.prems, of e] one by auto
    show ?thesis using Cons.IH [OF l'(2)] l' one by (auto split: prod.splits)
  next
    case False
    then have "sock_step e l = Inl Out_Of_Bounds" using sock_step_spec [OF Cons.prems, of e] one by simp
    then show ?thesis using one False sock_specs_grow [of "(bs, ss)" es] by (auto split: prod.splits)
  qed
qed

section \<open>Properties\<close>

text \<open>
  Claim C31. The proxy takes exactly one message from the bytes it received: empty lines in front of the
  header are dropped, the header and the announced number of bytes after it become the message to
  send, and the bytes of the next message stay at the front of the receive buffer. A NUL must follow
  the header in the buffer, and the message is shorter than \<open>2^31\<close> bytes.
\<close>

theorem message_is_taken:
  assumes "header_ok h" and "announces h (length body)" and "length h + length body < 2 ^ 31"
    and "recv_buf b = concat (replicate k CRLF) @ h @ body @ rest @ tail" and "0 \<in> set (body @ rest @ tail)"
    and "recv_len b = int (2 * k + length (h @ body @ rest))"
  shows "\<exists>b'. take_message b = Inr (True, b') \<and> send_buf b' = h @ body \<and> send_len b' = int (length (h @ body)) \<and>
           recv_len b' = int (length rest) \<and> take (length rest) (recv_buf b') = rest"
  using assms by (rule take_message_ok)

definition demo_header :: "byte list" where
  "demo_header = bytes_of_string ''POST /'' @ CRLF @ content_length_field @ [50] @ CRLF @ CRLF"

definition demo_buffer :: Buffer where
  "demo_buffer = \<lparr>recv_buf = CRLF @ demo_header @ [65, 0] @ [71, 69], send_buf = [], recv_len = 35, send_len = 0\<rparr>"

lemma demo_header_facts: "header_ok demo_header" "announces demo_header (Suc (Suc 0))" "length demo_header = 29"
proof -
  show "header_ok demo_header" by code_simp
  have "demo_header = (bytes_of_string ''POST /'' @ CRLF) @ content_length_field @ dec_bytes (Suc (Suc 0)) @ CRLF @ CRLF" by code_simp
  moreover have "find_sub content_length_field demo_header = Some (length (bytes_of_string ''POST /'' @ CRLF))" by code_simp
  ultimately show "announces demo_header (Suc (Suc 0))" unfolding announces_def length_field_def by blast
  show "length demo_header = 29" by code_simp
qed

theorem message_is_taken_witness:
  "\<exists>b'. take_message demo_buffer = Inr (True, b') \<and> send_buf b' = demo_header @ [65, 0] \<and> send_len b' = 31 \<and>
     recv_len b' = 2 \<and> take 2 (recv_buf b') = [71, 69]"
  using message_is_taken [of demo_header "[65, 0]" demo_buffer 1 "[71, 69]" "[]"] demo_header_facts
  by (simp add: demo_buffer_def) (simp add: numeral_2_eq_2)

text \<open>
  A negative \<open>Content-Length\<close> whose amount exceeds the length of the header crashes the proxy:
  the message counts as complete, the allocation of a negative number of bytes yields a null
  pointer, and the copy writes through it.
\<close>

lemma negative_length_crashes:
  assumes "header_ok h" and "length_field h (45 # dec_bytes n)" and "length h < n" and "n \<le> 2 ^ 31"
    and "recv_buf b = h @ u @ tail" and "0 \<in> set (u @ tail)" and "recv_len b = int (length (h @ u))"
  shows "take_message b = Inl Invalid_Pointer"
proof -
  have scan: "scan_int (45 # dec_bytes n) = Some (- int n, [])"
    using dec_bytes_digits [of _ n] digits_value_dec_bytes [of n]
    by (auto simp: scan_int_def scan_space_def isspace_def Let_def takeWhile_eq_all_conv [THEN iffD2])
  have "length (dec_bytes n) \<le> 10" using length_dec_bytes [of n 10] assms(4) by simp
  then have val: "13 \<notin> set (45 # dec_bytes n)" "length (45 # dec_bytes n) < LINE_SIZE"
    using dec_bytes_text(1) by (simp_all add: LINE_SIZE_def)
  obtain t where head: "complete_header_received b =
      Inr (True, b\<lparr>recv_buf := h @ u @ t, recv_len := int (length h + length u)\<rparr>)" and nul: "0 \<in> set (u @ t)"
    using complete_header_ok [of h u tail b 0] assms by auto
  have "first_body_length (h @ u @ t) = Inr (- int n)"
    by (rule body_length_field [OF assms(1,2) val nul scan]) (use assms(4) in auto)
  then have "first_message_length (h @ u @ t) = Inr (int (length h) + - int n)"
    by (rule message_length_body [OF assms(1) nul]) (use assms(3,4) in auto)
  then show ?thesis
    using head assms(3) by (simp add: take_message_def complete_body_received_def move_data_from_recv_to_send_def)
qed

definition demo_negative :: "byte list" where
  "demo_negative = content_length_field @ [45, 57, 57] @ CRLF @ CRLF"

text \<open>
  Claim C33. The socket lists implement two lists without duplicates, for every sequence of additions: a
  browser socket is recorded if it is in neither list, a server socket if it is not in the list of
  servers. Nothing limits the additions, so the sequence overflows an array exactly if one of the
  lists gets a sixty-fifth element.
\<close>

theorem socket_lists_refine:
  "case fold sock_spec es ([], []) of (bs, ss) \<Rightarrow>
     if length bs \<le> MAX_SOCK_NUM \<and> length ss \<le> MAX_SOCK_NUM
     then \<exists>l. fold_result sock_step es init_sock_lists = Inr l \<and> socks_ok l \<and> browsers l = bs \<and> servers l = ss
     else fold_result sock_step es init_sock_lists = Inl Out_Of_Bounds"
  using sock_run_spec [OF socks_ok_init(1), of es] by (simp add: socks_ok_init)

end
