(* ===== verification/Proxy_Stream.thy ===== *)
theory Proxy_Stream
  imports Proxy_Parse "HOL-Library.Signed_Division"
begin

text \<open>
  Streams of the proxy: the bit rates of \<^verbatim>\<open>src/code/bitrate.c\<close>, the requests that are
  rewritten to ask for another bit rate or for another manifest, and the handling of received data by
  \<open>parse_request\<close> and \<open>parse_data\<close> of \<^verbatim>\<open>src/code/parse.c\<close>, on the structure of
  \<^verbatim>\<open>src/code/stream.h\<close>.

  \<open>parse_response\<close> and what it calls use a structure \<open>proxy_config\<close> that no file declares, treat a
  \<open>char *\<close> as a structure and name undeclared variables; it is a parameter of \<open>parse_data\<close>. The
  variable \<open>server_sock\<close> of \<open>parse_request\<close> and \<open>init_stream\<close> is never assigned; its value is a parameter.
\<close>

section \<open>Bit rates\<close>

definition MAX_BITRATES_NUM :: nat where "MAX_BITRATES_NUM = 32"

record Stream =
  t_start :: u64
  t_final :: u64
  bitrates :: "int list"
  bitrates_count :: nat
  throughput :: int
  request_buffer :: Buffer
  response_buffer :: Buffer

definition create_stream :: Stream where
  "create_stream =
     (let buffer = \<lparr>recv_buf = [], send_buf = [], recv_len = 0, send_len = 0\<rparr>
      in \<lparr>t_start = 0, t_final = 0, bitrates = replicate MAX_BITRATES_NUM 0, bitrates_count = 0, throughput = 0,
          request_buffer = buffer, response_buffer = buffer\<rparr>)"

definition lowest_bitrate :: "Stream \<Rightarrow> int result" where
  "lowest_bitrate st =
     bind_result (array_get (bitrates st) 0)
       (fold_result (\<lambda>i lowest. bind_result (array_get (bitrates st) i) (\<lambda>x. Inr (if x < lowest then x else lowest)))
          [0..<bitrates_count st])"

definition highest_bitrate_under :: "Stream \<Rightarrow> int \<Rightarrow> int result" where
  "highest_bitrate_under st bitrate =
     bind_result (lowest_bitrate st)
       (fold_result (\<lambda>i highest. bind_result (array_get (bitrates st) i) (\<lambda>x.
            Inr (if x \<le> bitrate \<and> highest < x then x else highest)))
          [0..<bitrates_count st])"

text \<open>The array of \<open>LINE_SIZE\<close> bytes with the number; \<open>/\<close> rounds towards zero.\<close>

definition choose_bitrate :: "Stream \<Rightarrow> byte list result" where
  "choose_bitrate st =
     (let bitrate = 2 * (throughput st sdiv 3)
      in bind_result (highest_bitrate_under st (bitrate sdiv 1000)) (\<lambda>highest_matched_bitrate.
           mem_write (replicate LINE_SIZE 0) 0 (print_int highest_matched_bitrate @ [0])))"

section \<open>Rewriting a request\<close>

text \<open>
  The loop that looks for a slash from \<open>i\<close> downwards. It tests the byte before the bound, so without a
  slash it reads in front of the buffer.
\<close>

fun back_to_slash :: "byte list \<Rightarrow> nat \<Rightarrow> nat result" where
  "back_to_slash buf i =
     bind_result (array_get buf i) (\<lambda>x.
       if x = 47 then Inr i
       else case i of 0 \<Rightarrow> Inl Out_Of_Bounds | Suc j \<Rightarrow> back_to_slash buf j)"

declare back_to_slash.simps [simp del]

text \<open>
  A new buffer of \<open>new_len\<close> bytes with the first part of the old one, an insertion, and \<open>last_part_len\<close>
  bytes from \<open>end_loc\<close> on. A negative length is converted to a huge size.
\<close>

definition splice_request :: "byte list \<Rightarrow> int \<Rightarrow> nat \<Rightarrow> byte list \<Rightarrow> nat \<Rightarrow> int \<Rightarrow> byte list result" where
  "splice_request buf new_len first_part_len ins end_loc last_part_len =
     (if new_len < 0 \<or> last_part_len < 0 then Inl Out_Of_Bounds
      else
        bind_result (mem_read buf 0 first_part_len) (\<lambda>p.
        bind_result (mem_write (replicate (nat new_len) 0) 0 p) (\<lambda>new.
        bind_result (mem_write new first_part_len ins) (\<lambda>new.
        bind_result (mem_read buf end_loc (nat last_part_len)) (\<lambda>q.
          mem_write new (first_part_len + length ins) q)))))"

definition modfiy_bitrate :: "Stream \<Rightarrow> Buffer \<Rightarrow> Buffer result" where
  "modfiy_bitrate st b =
     bind_result (strstr (send_buf b) 0 (bytes_of_string ''Seq'')) (\<lambda>end_loc.
       case end_loc of
         None \<Rightarrow> Inl Assertion_Failed
       | Some end_loc \<Rightarrow>
           bind_result (back_to_slash (send_buf b) end_loc) (\<lambda>slash.
           bind_result (choose_bitrate st) (\<lambda>tmp.
             let bitrate = c_string tmp;
                 first_part_len = slash + 1;
                 last_part_len = send_len b - int end_loc;
                 new_len = int first_part_len + int (length bitrate) + last_part_len
             in bind_result (splice_request (send_buf b) new_len first_part_len bitrate end_loc last_part_len) (\<lambda>new_send_buf.
                  Inr (b\<lparr>send_len := new_len, send_buf := new_send_buf\<rparr>)))))"

definition normal_to_nolist_manifest :: "Buffer \<Rightarrow> Buffer result" where
  "normal_to_nolist_manifest b =
     bind_result (strstr (send_buf b) 0 (bytes_of_string ''.f4m'')) (\<lambda>insert_loc.
       case insert_loc of
         None \<Rightarrow> Inl Assertion_Failed
       | Some insert_loc \<Rightarrow>
           let new_len = send_len b + int (length ''_nolist'');
               last_part_len = new_len - int (length ''_nolist'') - int insert_loc
           in bind_result (splice_request (send_buf b) new_len insert_loc (bytes_of_string ''_nolist'') insert_loc last_part_len)
                (\<lambda>new_send_buf. Inr (b\<lparr>send_len := new_len, send_buf := new_send_buf\<rparr>)))"

section \<open>Received data\<close>

text \<open>
  \<open>time(current_steam->t_start)\<close> passes the stored time as a pointer. It is zero, a null pointer for
  which \<open>time\<close> stores nothing, as long as nothing else is stored there. A freed buffer is empty.
\<close>

definition parse_request :: "int \<Rightarrow> Stream \<times> sock_lists \<Rightarrow> (Stream \<times> sock_lists) result" where
  "parse_request server_sock state =
     (case state of (st, socks) \<Rightarrow>
        let b = request_buffer st
        in if t_start st \<noteq> 0 then Inl Invalid_Pointer
           else
             bind_result (extract_data_from_header (send_buf b) (bytes_of_string ''Seq'') (bytes_of_string ''-'')) (\<lambda>seq_num.
             bind_result (extract_data_from_header (send_buf b) (bytes_of_string ''Frag'') (bytes_of_string '' '')) (\<lambda>frag_num.
               if (seq_num = None) \<noteq> (frag_num = None) then Inl Assertion_Failed
               else
                 bind_result (strstr (send_buf b) 0 (bytes_of_string ''f4m'')) (\<lambda>f4m.
                 bind_result
                   (if f4m \<noteq> None then normal_to_nolist_manifest b
                    else if seq_num \<noteq> None \<and> frag_num \<noteq> None then modfiy_bitrate st b
                    else Inr b) (\<lambda>b.
                 bind_result (add_server_sock_to_list server_sock socks) (\<lambda>socks.
                   Inr (st\<lparr>request_buffer := b\<lparr>send_buf := [], send_len := 0\<rparr>\<rparr>, socks)))))))"

definition parse_data ::
  "(int \<Rightarrow> Stream \<times> sock_lists \<Rightarrow> (Stream \<times> sock_lists) result) \<Rightarrow> int \<Rightarrow> int \<Rightarrow> Stream \<times> sock_lists \<Rightarrow>
     (Stream \<times> sock_lists) result" where
  "parse_data parse_response server_sock sock state =
     (case state of (st, socks) \<Rightarrow>
        bind_result (is_browser sock socks) (\<lambda>browser.
        bind_result (if browser then Inr True else is_server sock socks) (\<lambda>known.
          if \<not> known then Inl Assertion_Failed
          else
            bind_result (take_message (if browser then request_buffer st else response_buffer st)) (\<lambda>(ready, b).
              let st = (if browser then st\<lparr>request_buffer := b\<rparr> else st\<lparr>response_buffer := b\<rparr>)
              in if \<not> ready then Inr (st, socks)
                 else if browser then parse_request server_sock (st, socks)
                 else parse_response sock (st, socks)))))"

definition init_stream :: "int \<Rightarrow> int \<Rightarrow> Stream option \<times> sock_lists \<Rightarrow> (Stream option \<times> sock_lists) result" where
  "init_stream server_sock sock state =
     (case (case fst state of None \<Rightarrow> (create_stream, init_sock_lists) | Some st \<Rightarrow> (st, snd state)) of (st, socks) \<Rightarrow>
        if sock = server_sock then
          bind_result (add_server_sock_to_list server_sock socks) (\<lambda>socks. Inr (Some st, socks))
        else Inl Assertion_Failed)"

section \<open>The best rate\<close>

definition rates :: "Stream \<Rightarrow> int list" where
  "rates st = take (bitrates_count st) (bitrates st)"

lemma fold_result_total: "fold_result (\<lambda>x s. Inr (f x s)) xs s = Inr (fold f xs s)"
  by (induction xs arbitrary: s) simp_all

lemma fold_lower: "fold (\<lambda>x low. if x < low then x else low) xs m = Min (insert m (set xs))" for m :: int
proof (induction xs arbitrary: m)
  case (Cons x xs)
  have "insert (if x < m then x else m) (set xs) = insert (min m x) (set xs)" by (simp add: min_def)
  moreover have "Min (insert (min m x) (set xs)) = Min (insert m (insert x (set xs)))"
    by (cases "xs = []") (simp_all add: min.assoc)
  ultimately show ?case by (simp add: Cons)
qed simp

lemma Max_insert_max: "finite S \<Longrightarrow> Max (insert (max m x) S) = Max (insert m (insert x S))" for m :: int
  by (cases "S = {}") (simp_all add: max.assoc)

lemma fold_upper:
  "fold (\<lambda>x high. if x \<le> r \<and> high < x then x else high) xs m = Max (insert m {x \<in> set xs. x \<le> r})" for m :: int
proof (induction xs arbitrary: m)
  case (Cons x xs)
  have e: "{y \<in> set (x # xs). y \<le> r} = (if x \<le> r then insert x {y \<in> set xs. y \<le> r} else {y \<in> set xs. y \<le> r})" by auto
  show ?case
  proof (cases "x \<le> r")
    case True
    have "Max (insert (max m x) {y \<in> set xs. y \<le> r}) = Max (insert m (insert x {y \<in> set xs. y \<le> r}))"
      by (rule Max_insert_max) simp
    then show ?thesis unfolding e using True Cons [of "max m x"] by (auto simp: max_def)
  next
    case False
    then show ?thesis unfolding e using Cons [of m] by simp
  qed
qed simp

lemma lowest_bitrate_eq:
  assumes "bitrates_count st \<le> length (bitrates st)" and "0 < bitrates_count st"
  shows "lowest_bitrate st = Inr (Min (set (rates st)))"
proof -
  have "bitrates st ! 0 \<in> set (rates st)"
    using assms by (metis length_take min.absorb2 nth_mem nth_take rates_def)
  moreover have "bitrates st \<noteq> []" using assms by auto
  ultimately show ?thesis
    using assms fold_result_array [OF assms(1), of "\<lambda>x low. Inr (if x < low then x else low)"]
    by (simp add: lowest_bitrate_def array_get_def fold_result_total fold_lower rates_def insert_absorb)
qed

lemma highest_bitrate_eq:
  assumes "bitrates_count st \<le> length (bitrates st)" and "0 < bitrates_count st"
  shows "highest_bitrate_under st r = Inr (Max (insert (Min (set (rates st))) {x \<in> set (rates st). x \<le> r}))"
  using fold_result_array [OF assms(1), of "\<lambda>x high. Inr (if x \<le> r \<and> high < x then x else high)"]
  by (simp add: highest_bitrate_under_def lowest_bitrate_eq [OF assms] fold_result_total fold_upper rates_def)

section \<open>The new request\<close>

lemma length_find_sub: "needle \<noteq> [] \<Longrightarrow> find_sub needle s = Some i \<Longrightarrow> i + length needle \<le> length s"
  by (auto simp: find_sub_Some dest: occurs_length)

text \<open>Splicing into a buffer that is cut in three.\<close>

lemma splice_request_parts:
  assumes "buf = p @ mid @ q" and "first_part_len = length p" and "end_loc = length p + length mid"
    and "last_part_len = int (length q)" and "new_len = int (length (p @ ins @ q))"
  shows "splice_request buf new_len first_part_len ins end_loc last_part_len = Inr (p @ ins @ q)"
proof -
  have "nat new_len = length p + length ins + length q" "\<not> new_len < 0"
    unfolding assms(5) by (simp_all flip: of_nat_add)
  then show ?thesis using assms(1-4) by (simp add: splice_request_def mem_read_def mem_write_def)
qed

lemma back_to_slash_here: "i < length buf \<Longrightarrow> buf ! i = 47 \<Longrightarrow> back_to_slash buf i = Inr i"
  by (simp add: back_to_slash.simps array_get_def)

lemma back_to_slash_found:
  assumes "47 \<notin> set old" and "rest \<noteq> []" and "hd rest \<noteq> 47"
  shows "back_to_slash (pre @ 47 # old @ rest) (length pre + 1 + length old) = Inr (length pre)"
  using assms
proof (induction old arbitrary: rest rule: rev_induct)
  case Nil
  have "back_to_slash (pre @ 47 # rest) (length pre) = Inr (length pre)"
    by (rule back_to_slash_here) simp_all
  with Nil show ?case
    by (subst back_to_slash.simps) (auto simp: array_get_def nth_append neq_Nil_conv)
next
  case (snoc x old)
  have "back_to_slash (pre @ 47 # old @ (x # rest)) (length pre + 1 + length old) = Inr (length pre)"
    using snoc.prems(1) by (intro snoc.IH) auto
  with snoc.prems(2,3) show ?case
    by (subst back_to_slash.simps) (auto simp: array_get_def nth_append neq_Nil_conv)
qed

lemma print_int_text: "0 \<notin> set (print_int i)"
  using dec_bytes_digits [of 0] by (auto simp: print_int_def isdigit_def)

lemma print_int_short: "- (2 ^ 31) \<le> i \<Longrightarrow> i < 2 ^ 31 \<Longrightarrow> length (print_int i) < LINE_SIZE"
proof -
  assume "- (2 ^ 31) \<le> i" "i < 2 ^ 31"
  then have "nat (- i) < 10 ^ 10" "nat i < 10 ^ 10" by (simp_all add: nat_less_iff)
  then have "length (dec_bytes (nat (- i))) \<le> 10" "length (dec_bytes (nat i)) \<le> 10"
    using length_dec_bytes by simp_all
  then show ?thesis by (simp add: print_int_def LINE_SIZE_def)
qed

text \<open>The bit rate the current throughput allows.\<close>

definition best_rate :: "Stream \<Rightarrow> int" where
  "best_rate st =
     Max (insert (Min (set (rates st))) {x \<in> set (rates st). x \<le> (2 * (throughput st sdiv 3)) sdiv 1000})"

definition rates_ok :: "Stream \<Rightarrow> bool" where
  "rates_ok st \<longleftrightarrow> 0 < bitrates_count st \<and> bitrates_count st \<le> length (bitrates st) \<and>
     (\<forall>x \<in> set (rates st). - (2 ^ 31) \<le> x \<and> x < 2 ^ 31)"

lemma best_rate_in: "rates_ok st \<Longrightarrow> best_rate st \<in> set (rates st)"
proof -
  assume ok: "rates_ok st"
  then have ne: "rates st \<noteq> []" by (auto simp: rates_ok_def rates_def)
  let ?A = "insert (Min (set (rates st))) {x \<in> set (rates st). x \<le> (2 * (throughput st sdiv 3)) sdiv 1000}"
  have "Max ?A \<in> ?A" by (rule Max_in) auto
  moreover have "Min (set (rates st)) \<in> set (rates st)" using ne by (intro Min_in) auto
  ultimately show ?thesis unfolding best_rate_def by (metis (no_types, lifting) insert_iff mem_Collect_eq)
qed

lemma choose_bitrate_eq:
  assumes "rates_ok st"
  shows "\<exists>z. choose_bitrate st = Inr (print_int (best_rate st) @ 0 # z)"
proof -
  have "length (print_int (best_rate st)) < LINE_SIZE"
    using best_rate_in [OF assms] assms by (intro print_int_short) (auto simp: rates_ok_def)
  moreover have "highest_bitrate_under st ((2 * (throughput st sdiv 3)) sdiv 1000) = Inr (best_rate st)"
    using assms highest_bitrate_eq [of st] by (simp add: rates_ok_def best_rate_def)
  ultimately show ?thesis by (simp add: choose_bitrate_def mem_write_zeros)
qed

lemma strstr_at:
  assumes "0 \<notin> set (pre @ needle)" and "find_sub needle (pre @ needle) = Some (length pre)" and "needle \<noteq> []" and "0 \<in> set post"
  shows "strstr (pre @ needle @ post) 0 needle = Inr (Some (length pre))"
  using strstr_found [OF assms(1,4,3,2)] by simp

lemma Seq_facts: "bytes_of_string ''Seq'' \<noteq> []" "hd (bytes_of_string ''Seq'') \<noteq> 47" "0 \<notin> set (bytes_of_string ''Seq'')"
  by code_simp+

lemma f4m_facts: "bytes_of_string ''.f4m'' \<noteq> []" "0 \<notin> set (bytes_of_string ''.f4m'')" "length (bytes_of_string ''_nolist'') = 7"
  by code_simp+

section \<open>Properties\<close>

text \<open>
  A request for a video fragment asks for the best bit rate: what stands between the last slash and
  the first \<open>Seq\<close> is replaced by the highest available rate that is at most two thirds of the
  throughput (in kilobits), or the lowest available one if there is none; the rest of the request and
  its length are kept. This is the behaviour on a buffer in which a NUL follows \<open>Seq\<close>, so that the
  search ends; \<open>move_data_from_recv_to_send\<close> makes no such buffer of a request without NUL, as the
  last property of this theory says.
\<close>

lemma fragment_request_rewritten:
  assumes "rates_ok st" and "0 \<notin> set (pre @ 47 # old)" and "47 \<notin> set old"
    and "find_sub (bytes_of_string ''Seq'') (pre @ 47 # old @ bytes_of_string ''Seq'') = Some (length (pre @ 47 # old))"
    and "send_buf b = pre @ 47 # old @ bytes_of_string ''Seq'' @ post" and "0 \<in> set post" and "send_len b = int (length (send_buf b))"
  shows "modfiy_bitrate st b =
           Inr (b\<lparr>send_len := int (length (pre @ 47 # print_int (best_rate st) @ bytes_of_string ''Seq'' @ post)),
                  send_buf := pre @ 47 # print_int (best_rate st) @ bytes_of_string ''Seq'' @ post\<rparr>)"
proof -
  let ?s = "bytes_of_string ''Seq''"
  let ?r = "print_int (best_rate st)"
  obtain z where z: "choose_bitrate st = Inr (?r @ 0 # z)" using choose_bitrate_eq [OF assms(1)] by blast
  have r: "c_string (?r @ 0 # z) = ?r" by (rule c_string_text [OF print_int_text])
  have find: "strstr (send_buf b) 0 ?s = Inr (Some (length pre + 1 + length old))"
    using strstr_at [of "pre @ 47 # old" ?s post] assms(2,4-6) Seq_facts by simp
  have slash: "back_to_slash (send_buf b) (length pre + 1 + length old) = Inr (length pre)"
    unfolding assms(5) using assms(3) Seq_facts by (intro back_to_slash_found) auto
  let ?last = "send_len b - int (length pre + 1 + length old)"
  have last: "?last = int (length (?s @ post))" using assms(5,7) by simp
  have "splice_request (send_buf b) (1 + (int (length pre) + (int (length ?r) + (int (length ?s) + int (length post))))) (Suc (length pre)) ?r
      (Suc (length pre + length old)) (int (length ?s) + int (length post)) = Inr ((pre @ [47]) @ ?r @ ?s @ post)"
    by (rule splice_request_parts [where mid = old]) (simp_all add: assms(5))
  then show ?thesis
    using find slash z r last by (simp add: modfiy_bitrate_def Let_def add.assoc)
qed

definition demo_text :: "byte list" where
  "demo_text = bytes_of_string ''GET / HTTP/1.0'' @ CRLF @ CRLF"

text \<open>
  A request for a manifest asks for its version without a list: \<open>_nolist\<close> is inserted in front
  of the first \<open>.f4m\<close>, nothing else changes, and the length counts the insertion.
\<close>

lemma manifest_request_rewritten:
  assumes "0 \<notin> set pre" and "find_sub (bytes_of_string ''.f4m'') (pre @ bytes_of_string ''.f4m'') = Some (length pre)"
    and "send_buf b = pre @ bytes_of_string ''.f4m'' @ post" and "0 \<in> set post" and "send_len b = int (length (send_buf b))"
  shows "normal_to_nolist_manifest b =
           Inr (b\<lparr>send_len := int (length (pre @ bytes_of_string ''_nolist'' @ bytes_of_string ''.f4m'' @ post)),
                  send_buf := pre @ bytes_of_string ''_nolist'' @ bytes_of_string ''.f4m'' @ post\<rparr>)"
proof -
  let ?f = "bytes_of_string ''.f4m''" and ?n = "bytes_of_string ''_nolist''"
  have find: "strstr (send_buf b) 0 ?f = Inr (Some (length pre))"
    using strstr_at [of pre ?f post] assms f4m_facts by simp
  have "splice_request (send_buf b) (send_len b + 7) (length pre) ?n (length pre) (send_len b + 7 - 7 - int (length pre)) =
      Inr (pre @ ?n @ ?f @ post)"
    by (rule splice_request_parts [where mid = "[]"]) (simp_all add: assms(3,5) f4m_facts(3))
  then show ?thesis using find assms(3,5) f4m_facts(3) by (simp add: normal_to_nolist_manifest_def)
qed

text \<open>
  Claim C40. The proxy cannot handle a request made of text: once the request of a browser is complete,
  \<open>move_data_from_recv_to_send\<close> allocates exactly the message with no NUL behind it, and the first
  \<open>strstr\<close> of \<open>parse_request\<close> leaves the buffer, whatever follows the request and however the
  response side behaves.
\<close>

theorem request_text_overruns:
  assumes "socks_ok socks" and "sock \<in> set (browsers socks)" and "t_start st = 0"
    and "header_ok h" and "announces h (length body)" and "length h + length body < 2 ^ 31" and "0 \<notin> set body"
    and "recv_buf (request_buffer st) = concat (replicate k CRLF) @ h @ body @ rest @ tail" and "0 \<in> set (body @ rest @ tail)"
    and "recv_len (request_buffer st) = int (2 * k + length (h @ body @ rest))"
  shows "parse_data parse_response server_sock sock (st, socks) = Inl Out_Of_Bounds"
proof -
  obtain b where b: "take_message (request_buffer st) = Inr (True, b)" "send_buf b = h @ body"
    using take_message_ok [OF assms(4-6,8-10)] by blast
  have "0 \<notin> set (send_buf b)" using assms(4,7) b(2) by (simp add: header_ok_def)
  then show ?thesis
    using is_browser_eq [OF assms(1), of sock] assms(2,3) b(1)
    by (simp add: parse_data_def parse_request_def extract_data_from_header_def strstr_def)
qed

theorem request_text_overruns_witness:
  "parse_data (\<lambda>_. Inr) 5 4
     (create_stream\<lparr>request_buffer := \<lparr>recv_buf = demo_text @ [0], send_buf = [], recv_len = 18, send_len = 0\<rparr>\<rparr>,
      init_sock_lists\<lparr>browser_socks := (replicate MAX_SOCK_NUM 0)[0 := 4], browser_socks_count := 1\<rparr>) = Inl Out_Of_Bounds"
proof -
  let ?socks = "init_sock_lists\<lparr>browser_socks := (replicate MAX_SOCK_NUM 0)[0 := 4], browser_socks_count := 1\<rparr>"
  let ?st = "create_stream\<lparr>request_buffer := \<lparr>recv_buf = demo_text @ [0], send_buf = [], recv_len = 18, send_len = 0\<rparr>\<rparr>"
  have "socks_ok ?socks" "4 \<in> set (browsers ?socks)"
    by (simp_all add: socks_ok_def browsers_def servers_def init_sock_lists_def MAX_SOCK_NUM_def numeral_eq_Suc)
  moreover have "t_start ?st = 0" by (simp add: create_stream_def Let_def)
  moreover have "header_ok demo_text" "length demo_text = 18" "find_sub content_length_field demo_text = None" by code_simp+
  ultimately show ?thesis
    using request_text_overruns [of ?socks 4 ?st demo_text "[]" 0 "[]" "[0]" "\<lambda>_. Inr" 5] by (simp add: announces_def)
qed

end
