(* ===== verification/Console.thy ===== *)
theory Console
  imports Bt_Parse Debug
begin

text \<open>
  What a peer prints: \<open>log_printf\<close> and \<open>app_errno\<close> of \<^verbatim>\<open>src/code/log.c\<close>, the help texts and
  the dump of the configuration of \<^verbatim>\<open>src/code/bt_parse.c\<close>, the list of debug values of
  \<^verbatim>\<open>src/code/debug.c\<close> and its test driver. The state is the text of the standard streams
  and the log file.
\<close>

section \<open>Formatted output\<close>

text \<open>The arguments of \<open>printf\<close>: an \<open>int\<close> or \<open>unsigned\<close>, a \<open>long\<close>, and a pointer to a text.\<close>

datatype c_arg = Int_Arg u32 | Long_Arg u64 | Text_Arg "byte list"

text \<open>
  One conversion after the percent sign: its text, the rest of the format, the remaining arguments.
  An argument of another type than the conversion expects is undefined. The sources use \<open>d\<close>, \<open>u\<close>, \<open>s\<close>,
  \<open>lu\<close> and \<open>5d\<close>.
\<close>

definition convert :: "byte list \<Rightarrow> c_arg list \<Rightarrow> (byte list \<times> byte list \<times> c_arg list) result" where
  "convert fmt args =
     (case args of
        [] \<Rightarrow> Inl Undefined
      | Int_Arg i # rest \<Rightarrow>
          if fmt \<noteq> [] \<and> hd fmt = 100 then Inr (print_int (sint i), tl fmt, rest)
          else if fmt \<noteq> [] \<and> hd fmt = 117 then Inr (dec_bytes (unat i), tl fmt, rest)
          else if take 2 fmt = [53, 100] then
            Inr (replicate (5 - length (print_int (sint i))) 32 @ print_int (sint i), drop 2 fmt, rest)
          else Inl Undefined
      | Long_Arg i # rest \<Rightarrow> if take 2 fmt = [108, 117] then Inr (dec_bytes (unat i), drop 2 fmt, rest) else Inl Undefined
      | Text_Arg s # rest \<Rightarrow> if fmt \<noteq> [] \<and> hd fmt = 115 then Inr (s, tl fmt, rest) else Inl Undefined)"

lemma convert_shorter: "convert fmt args = Inr (s, fmt', args') \<Longrightarrow> length fmt' < length fmt"
  by (cases fmt) (auto simp: convert_def split: list.splits c_arg.splits if_splits)

function format_text :: "byte list \<Rightarrow> c_arg list \<Rightarrow> byte list result" where
  "format_text fmt args =
     (case fmt of
        [] \<Rightarrow> Inr []
      | b # fmt \<Rightarrow>
          if b \<noteq> 37 then bind_result (format_text fmt args) (\<lambda>s. Inr (b # s))
          else bind_result (convert fmt args) (\<lambda>(txt, fmt, args).
               bind_result (format_text fmt args) (\<lambda>s. Inr (txt @ s))))"
  by pat_completeness auto
termination
  by (relation "measure (\<lambda>(fmt, args). length fmt)") (auto dest: convert_shorter)

declare format_text.simps [simp del]

text \<open>Plain text is printed as it is.\<close>

lemma format_plain: "37 \<notin> set s \<Longrightarrow> format_text (s @ fmt) args = bind_result (format_text fmt args) (\<lambda>r. Inr (s @ r))"
  by (induction s) (auto simp: format_text.simps [of "_ # _"] bind_result_def split: sum.splits)

lemma format_nil [simp]: "format_text [] args = Inr []"
  by (simp add: format_text.simps)

lemma format_only_plain: "37 \<notin> set s \<Longrightarrow> format_text s args = Inr s"
  using format_plain [of s "[]" args] by simp

lemma format_percent: "format_text (37 # fmt) args =
    bind_result (convert fmt args) (\<lambda>(txt, fmt, args). bind_result (format_text fmt args) (\<lambda>s. Inr (txt @ s)))"
  by (simp add: format_text.simps [of "37 # fmt"])

lemma convert_simps [simp]:
  "convert (100 # fmt) (Int_Arg i # args) = Inr (print_int (sint i), fmt, args)"
  "convert (117 # fmt) (Int_Arg i # args) = Inr (dec_bytes (unat i), fmt, args)"
  "convert (115 # fmt) (Text_Arg s # args) = Inr (s, fmt, args)"
  "convert (108 # 117 # fmt) (Long_Arg l # args) = Inr (dec_bytes (unat l), fmt, args)"
  "convert (53 # 100 # fmt) (Int_Arg i # args) = Inr (replicate (5 - length (print_int (sint i))) 32 @ print_int (sint i), fmt, args)"
  "convert (100 # fmt) (Text_Arg s # args) = Inl Undefined"
  by (simp_all add: convert_def)

section \<open>The streams\<close>

record console =
  out_text :: "byte list"                     \<comment> \<open>\<open>stdout\<close>\<close>
  err_text :: "byte list"                     \<comment> \<open>\<open>stderr\<close>\<close>
  log_file :: "string option"                 \<comment> \<open>\<open>None\<close> is the null pointer\<close>
  log_disk :: "string \<rightharpoonup> byte list"

definition print_out :: "byte list \<Rightarrow> console \<Rightarrow> console" where
  "print_out s con = con\<lparr>out_text := out_text con @ s\<rparr>"

definition print_err :: "byte list \<Rightarrow> console \<Rightarrow> console" where
  "print_err s con = con\<lparr>err_text := err_text con @ s\<rparr>"

definition print_log :: "byte list \<Rightarrow> console \<Rightarrow> console" where
  "print_log s con =
     (case log_file con of
        None \<Rightarrow> print_err s con
      | Some f \<Rightarrow> con\<lparr>log_disk := (log_disk con)(f \<mapsto> (case log_disk con f of None \<Rightarrow> [] | Some t \<Rightarrow> t) @ s)\<rparr>)"

text \<open>\<open>func\<close> and \<open>line\<close> are \<open>__func__\<close> and \<open>__LINE__\<close> of the macro \<open>LOG\<close>, and \<open>NULL\<close> and 0 of the macro \<open>GRAPH\<close>.\<close>

definition log_printf :: "byte list option \<Rightarrow> u32 \<Rightarrow> byte list \<Rightarrow> c_arg list \<Rightarrow> console \<Rightarrow> console result" where
  "log_printf func line fmt args con =
     bind_result
       (case func of
          None \<Rightarrow> Inr con
        | Some f \<Rightarrow>
            bind_result (format_text (bytes_of_string ''[%s (%d)]'' @ [9]) [Text_Arg f, Int_Arg line]) (\<lambda>s. Inr (print_log s con))) (\<lambda>con.
       bind_result (format_text fmt args) (\<lambda>s. Inr (print_log s con)))"

text \<open>\<open>msg\<close> is the first argument, and the format starts with a number.\<close>

definition app_errno :: "u32 \<Rightarrow> byte list \<Rightarrow> u32 \<Rightarrow> byte list \<Rightarrow> console \<Rightarrow> console result" where
  "app_errno line msg errno error_text con =
     log_printf (Some (bytes_of_string ''app_errno'')) line (bytes_of_string ''(%d) %s'' @ [10])
       [Text_Arg msg, Int_Arg errno, Text_Arg error_text] con"

text \<open>\<open>setup_logging\<close> with the line it writes; \<open>line\<close> is where the call of \<open>LOG\<close> is.\<close>

definition setup_logging_text :: "(string \<Rightarrow> bool) \<Rightarrow> u32 \<Rightarrow> bt_config_t \<Rightarrow> console \<Rightarrow> console result" where
  "setup_logging_text can_open line config con =
     bind_result (setup_logging can_open (sint (identity config)) (log_disk con)) (\<lambda>(log, disk).
       let con = con\<lparr>log_file := log, log_disk := disk\<rparr>; func = Some (bytes_of_string ''setup_logging'')
       in if log = None then log_printf func line (bytes_of_string ''Fail to open log file.'' @ [10]) [] con
          else log_printf func line (bytes_of_string ''I am peer (%d) @ %u'' @ [10, 10])
                 [Int_Arg (scast (identity config)), Int_Arg (ucast (myport config))] con)"

text \<open>A line of the graph of window sizes: the peer, the milliseconds since the start, the window.\<close>

definition print_graph :: "16 word \<times> u64 \<times> u32 \<Rightarrow> console \<Rightarrow> console result" where
  "print_graph entry con =
     (case entry of (peer, time, wind) \<Rightarrow>
        log_printf None 0 (bytes_of_string ''T%u'' @ [9] @ bytes_of_string ''%lu'' @ [9] @ bytes_of_string ''%u'' @ [10])
          [Int_Arg (scast peer), Long_Arg time, Int_Arg wind] con)"

section \<open>Help, configuration and debug values\<close>

definition bt_usage :: "console \<Rightarrow> console" where
  "bt_usage = print_err
     (bytes_of_string ''usage:  peer [-h] [-d <debug>] -p <peerfile> -c <chunkfile> -m <maxconn>'' @ [10] @
      bytes_of_string ''            -f <master-chunk-file> -i <identity>'' @ [10])"

definition bt_help :: "console \<Rightarrow> console" where
  "bt_help con = print_err
     (bytes_of_string ''         -h                help (this message)'' @ [10] @
      bytes_of_string ''         -p <peerfile>     The list of all peers'' @ [10] @
      bytes_of_string ''         -c <chunkfile>    The list of chunks'' @ [10] @
      bytes_of_string ''         -m <maxconn>      Max # of downloads'' @ [10] @
      [9] @ bytes_of_string ''    -f <master-chunk> The master chunk file'' @ [10] @
      bytes_of_string ''         -i <identity>     Which peer # am I?'' @ [10]) (bt_usage con)"

definition printf_out :: "byte list \<Rightarrow> c_arg list \<Rightarrow> console \<Rightarrow> console result" where
  "printf_out fmt args con = bind_result (format_text fmt args) (\<lambda>s. Inr (print_out s con))"

text \<open>A line of the dump: a label, a conversion, a newline.\<close>

definition dump_line :: "string \<Rightarrow> c_arg \<Rightarrow> console \<Rightarrow> console result" where
  "dump_line label arg = printf_out (bytes_of_string label @ [10]) [arg]"

fun dump_peers :: "peer_heap \<Rightarrow> pptr list \<Rightarrow> console \<Rightarrow> console result" where
  "dump_peers h [] con = Inr con"
| "dump_peers h (p # ps) con =
     (let (s, buf) = inet_ntoa (sin_addr (peer_addr (h p))) []
      in bind_result (printf_out (bytes_of_string ''  peer %d: %s:%d'' @ [10])
           [Int_Arg (scast (peer_id (h p))), Text_Arg (bytes_of_string (read_string buf s)), Int_Arg (ucast (ntohs (sin_port (peer_addr (h p)))))] con)
           (dump_peers h ps))"

definition bt_dump_config :: "peer_heap \<Rightarrow> bt_config_t \<Rightarrow> console \<Rightarrow> console result" where
  "bt_dump_config h config con =
     bind_result (printf_out (bytes_of_string ''15-441 PROJECT 2 PEER'' @ [10, 10]) [] con) (\<lambda>con.
     bind_result (dump_line ''chunk-file:     %s'' (Text_Arg (bytes_of_string (chunk_file config))) con) (\<lambda>con.
     bind_result (dump_line ''has-chunk-file: %s'' (Text_Arg (bytes_of_string (has_chunk_file config))) con) (\<lambda>con.
     bind_result (dump_line ''max-conn:       %d'' (Int_Arg (word_of_int (max_conn config))) con) (\<lambda>con.
     bind_result (dump_line ''peer-identity:  %d'' (Int_Arg (scast (identity config))) con) (\<lambda>con.
     bind_result (dump_line ''peer-list-file: %s'' (Text_Arg (bytes_of_string (peer_list_file config))) con) (\<lambda>con.
       dump_peers h (config_peers config) con))))))"

text \<open>The table of \<^verbatim>\<open>debug-text.h\<close>, with the end marker of \<^verbatim>\<open>debug.c\<close>.\<close>

definition debugs :: "(u32 \<times> byte list option) list" where
  "debugs = map (\<lambda>(v, s). (v, Some (bytes_of_string s)))
       [(DEBUG_NONE, ''No debugging''), (DEBUG_ERRS, ''Verbose error reporting''), (DEBUG_INIT, ''Debug initialization''),
        (DEBUG_SOCKETS, ''Debug socket operations''), (DEBUG_PROCESSES, ''Debug processes (fork/reap/etc)''),
        (DEBUG_SPIFFY, ''Debug the spiffy sending code'')] @ [(0, None)]"

fun print_debugs :: "(u32 \<times> byte list option) list \<Rightarrow> console \<Rightarrow> console result" where
  "print_debugs [] con = Inl Out_Of_Bounds"
| "print_debugs ((v, s) # ds) con =
     (case s of
        None \<Rightarrow> Inr con
      | Some s \<Rightarrow>
          bind_result (format_text (bytes_of_string ''%5d  %s'' @ [10]) [Int_Arg v, Text_Arg s]) (\<lambda>txt.
          print_debugs ds (print_err txt con)))"

text \<open>\<open>set_debug\<close> with what it prints, and the test driver, which passes its first argument on.\<close>

definition set_debug_text :: "byte list option \<Rightarrow> u32 \<Rightarrow> console \<Rightarrow> (int \<times> u32 \<times> console) result" where
  "set_debug_text arg debug con =
     bind_result (set_debug arg debug) (\<lambda>(r, debug).
       case arg of
         Some s \<Rightarrow>
           if s \<noteq> [] \<and> (hd s = 63 \<or> s = bytes_of_string ''list'') then
             bind_result (print_debugs debugs
                 (print_err (bytes_of_string ''Debug values and definitions'' @ [10] @ bytes_of_string ''----------------------------'' @ [10]) con))
               (\<lambda>con. Inr (r, debug, con))
           else Inr (r, debug, con)
       | None \<Rightarrow> Inr (r, debug, con))"

text \<open>The status of the driver and the final state; \<open>args\<close> are the arguments after the name of the program.\<close>

definition test_debug_main :: "byte list list \<Rightarrow> console \<Rightarrow> (u32 \<times> console) result" where
  "test_debug_main args con =
     bind_result
       (if length args < 1 then bind_result (set_debug_text (Some [63]) 0 con) (\<lambda>(r, d, con). Inr (r \<noteq> - 1, d, con)) else Inr (False, 0, con))
       (\<lambda>(wrong, debug, con).
         if wrong then Inr (debug, print_err (bytes_of_string ''set_debug('' @ [34] @ bytes_of_string ''?'' @ [34] @ bytes_of_string '') returned wrong result code'' @ [10]) con)
         else bind_result (set_debug_text (case args of [] \<Rightarrow> None | a # _ \<Rightarrow> Some a) debug con) (\<lambda>(r, debug, con). Inr (debug, con)))"

section \<open>What is printed\<close>

text \<open>\<open>app_errno\<close> passes its message where its format expects a number: every call of it is undefined.\<close>

lemma format_bytes: "37 \<notin> set (bytes_of_string s) \<Longrightarrow>
    format_text (bytes_of_string s @ fmt) args = bind_result (format_text fmt args) (\<lambda>r. Inr (bytes_of_string s @ r))"
  by (rule format_plain)

lemmas format_step = format_percent format_text.simps [of "_ # _"] bytes_of_string_def

lemma log_prefix: "format_text (bytes_of_string ''[%s (%d)]'' @ [9]) [Text_Arg f, Int_Arg line] =
    Inr (bytes_of_string ''['' @ f @ bytes_of_string '' ('' @ print_int (sint line) @ bytes_of_string '')]'' @ [9])"
  by (simp add: format_step)

lemma app_errno_undefined: "app_errno line msg errno error_text con = Inl Undefined"
  by (simp add: app_errno_def log_printf_def log_prefix) (simp add: format_step convert_def)

lemma graph_line:
  "print_graph (peer, time, wind) con =
     Inr (print_log (84 # dec_bytes (unat (scast peer :: u32)) @ 9 # dec_bytes (unat time) @ 9 # dec_bytes (unat wind) @ [10]) con)"
  by (simp add: print_graph_def log_printf_def format_step)

lemma wide_values:
  "unat (ucast (x :: u16) :: u32) = unat x" "sint (ucast (x :: u16) :: u32) = int (unat x)" "sint (scast (i :: 16 word) :: u32) = sint i"
proof -
  have u: "uint (ucast x :: u32) = uint x" by (rule uint_up_ucast) (simp add: is_up)
  then show "unat (ucast x :: u32) = unat x" by (simp only: unat_eq_nat_uint)
  have "uint x < 2 ^ 31" using uint_bounded [of x] by simp
  then show "sint (ucast x :: u32) = int (unat x)"
    by (simp add: sint_uint u) (simp add: signed_take_bit_int_eq_self order_trans [OF _ uint_ge_0])
  show "sint (scast i :: u32) = sint i" by (rule sint_up_scast) (simp add: is_up)
qed

text \<open>The first line of the log names the peer and its port.\<close>

lemma log_of_setup:
  assumes "log_filename (sint (identity config)) = Inr filename" and "can_open (string_of_bytes (c_string filename))"
  shows "setup_logging_text can_open line config con =
    Inr (con\<lparr>log_file := Some (string_of_bytes (c_string filename)),
       log_disk := (log_disk con)(string_of_bytes (c_string filename) \<mapsto>
         bytes_of_string ''[setup_logging ('' @ print_int (sint line) @ bytes_of_string '')]'' @ [9] @
         bytes_of_string ''I am peer ('' @ print_int (sint (identity config)) @ bytes_of_string '') @ '' @
         dec_bytes (unat (myport config)) @ [10, 10])\<rparr>)"
  using assms
  by (simp add: setup_logging_text_def setup_logging_def Let_def log_printf_def log_prefix)
    (simp add: format_step print_log_def wide_values)

text \<open>The dump of the configuration always succeeds, and its peers come out in order.\<close>

definition peer_line :: "bt_peer_t \<Rightarrow> byte list" where
  "peer_line p = bytes_of_string ''  peer '' @ print_int (sint (peer_id p)) @ bytes_of_string '': '' @
     bytes_of_string (dotted (sin_addr (peer_addr p))) @ bytes_of_string '':'' @ dec_bytes (unat (ntohs (sin_port (peer_addr p)))) @ [10]"

lemma print_out_twice: "print_out t (print_out s con) = print_out (s @ t) con"
  by (simp add: print_out_def)

lemma print_out_none [simp]: "print_out [] con = con"
  by (simp add: print_out_def)

lemma peer_line_printed:
  "printf_out (bytes_of_string ''  peer %d: %s:%d'' @ [10])
     [Int_Arg (scast i), Text_Arg s, Int_Arg (ucast (n :: u16))] con =
   Inr (print_out (bytes_of_string ''  peer '' @ print_int (sint (i :: 16 word)) @ bytes_of_string '': '' @ s @ bytes_of_string '':'' @
     dec_bytes (unat n) @ [10]) con)"
  by (simp add: printf_out_def) (simp add: format_step print_int_def wide_values)

lemma dump_peers_printed: "dump_peers h ps con = Inr (print_out (concat (map (\<lambda>p. peer_line (h p)) ps)) con)"
proof (induction ps arbitrary: con)
  case (Cons p ps)
  then show ?case by (simp add: inet_ntoa_def read_string_def peer_line_printed peer_line_def [of "h p"] print_out_twice)
qed simp

lemma dump_line_printed:
  "37 \<notin> set (bytes_of_string s) \<Longrightarrow> dump_line (s @ ''%s'') (Text_Arg t) con = Inr (print_out (bytes_of_string s @ t @ [10]) con)"
  "37 \<notin> set (bytes_of_string s) \<Longrightarrow> dump_line (s @ ''%d'') (Int_Arg i) con = Inr (print_out (bytes_of_string s @ print_int (sint i) @ [10]) con)"
proof -
  assume s: "37 \<notin> set (bytes_of_string s)"
  have e: "bytes_of_string (s @ f) @ [10] = bytes_of_string s @ bytes_of_string f @ [10]" for f by (simp add: bytes_of_string_def)
  show "dump_line (s @ ''%s'') (Text_Arg t) con = Inr (print_out (bytes_of_string s @ t @ [10]) con)"
    unfolding dump_line_def printf_out_def e format_bytes [OF s] by (simp add: format_step)
  show "dump_line (s @ ''%d'') (Int_Arg i) con = Inr (print_out (bytes_of_string s @ print_int (sint i) @ [10]) con)"
    unfolding dump_line_def printf_out_def e format_bytes [OF s] by (simp add: format_step)
qed

lemma config_is_dumped:
  "bt_dump_config h config con = Inr (print_out
     (bytes_of_string ''15-441 PROJECT 2 PEER'' @ [10, 10] @
      bytes_of_string ''chunk-file:     '' @ bytes_of_string (chunk_file config) @ [10] @
      bytes_of_string ''has-chunk-file: '' @ bytes_of_string (has_chunk_file config) @ [10] @
      bytes_of_string ''max-conn:       '' @ print_int (sint (word_of_int (max_conn config) :: u32)) @ [10] @
      bytes_of_string ''peer-identity:  '' @ print_int (sint (identity config)) @ [10] @
      bytes_of_string ''peer-list-file: '' @ bytes_of_string (peer_list_file config) @ [10] @
      concat (map (\<lambda>p. peer_line (h p)) (config_peers config))) con)"
proof -
  have "dump_line ''chunk-file:     %s'' (Text_Arg t) con = Inr (print_out (bytes_of_string ''chunk-file:     '' @ t @ [10]) con)"
    "dump_line ''has-chunk-file: %s'' (Text_Arg t) con = Inr (print_out (bytes_of_string ''has-chunk-file: '' @ t @ [10]) con)"
    "dump_line ''peer-list-file: %s'' (Text_Arg t) con = Inr (print_out (bytes_of_string ''peer-list-file: '' @ t @ [10]) con)"
    "dump_line ''max-conn:       %d'' (Int_Arg i) con = Inr (print_out (bytes_of_string ''max-conn:       '' @ print_int (sint i) @ [10]) con)"
    "dump_line ''peer-identity:  %d'' (Int_Arg i) con = Inr (print_out (bytes_of_string ''peer-identity:  '' @ print_int (sint i) @ [10]) con)"
    for t i con
    using dump_line_printed(1) [of "''chunk-file:     ''"] dump_line_printed(1) [of "''has-chunk-file: ''"]
      dump_line_printed(1) [of "''peer-list-file: ''"] dump_line_printed(2) [of "''max-conn:       ''"]
      dump_line_printed(2) [of "''peer-identity:  ''"]
    by (simp_all add: bytes_of_string_def)
  moreover have "printf_out (bytes_of_string ''15-441 PROJECT 2 PEER'' @ [10, 10]) [] con =
      Inr (print_out (bytes_of_string ''15-441 PROJECT 2 PEER'' @ [10, 10]) con)"
    unfolding printf_out_def by (subst format_only_plain) (simp_all add: bytes_of_string_def)
  ultimately show ?thesis
    by (simp only: bt_dump_config_def bind_result_Inr dump_peers_printed print_out_twice wide_values append_assoc)
qed

text \<open>The list of debug values has a line per value, and the end marker ends it.\<close>

definition debug_line :: "u32 \<times> byte list \<Rightarrow> byte list" where
  "debug_line d = replicate (5 - length (print_int (sint (fst d)))) 32 @ print_int (sint (fst d)) @ [32, 32] @ snd d @ [10]"

lemma print_debugs_lines:
  "print_debugs (map (\<lambda>(v, s). (v, Some s)) ds @ [(0, None)]) con = Inr (print_err (concat (map debug_line ds)) con)"
proof (induction ds arbitrary: con)
  case (Cons d ds)
  obtain v s where d: "d = (v, s)" by force
  have "format_text (bytes_of_string ''%5d  %s'' @ [10]) [Int_Arg v, Text_Arg s] = Inr (debug_line d)"
    by (simp add: d debug_line_def) (simp add: format_step)
  then show ?case using Cons by (simp add: d print_err_def)
qed (simp add: print_err_def)

definition debug_values :: "(u32 \<times> string) list" where
  "debug_values = [(0, ''No debugging''), (1, ''Verbose error reporting''), (2, ''Debug initialization''),
     (4, ''Debug socket operations''), (8, ''Debug processes (fork/reap/etc)''), (16, ''Debug the spiffy sending code'')]"

lemma debug_list_printed:
  "print_debugs debugs con = Inr (print_err (concat (map (\<lambda>(v, s). debug_line (v, bytes_of_string s)) debug_values)) con)"
proof -
  have d: "debugs = map (\<lambda>(v, s). (v, Some s)) (map (\<lambda>(v, s). (v, bytes_of_string s)) debug_values) @ [(0, None)]"
    by (simp add: debugs_def debug_values_def DEBUG_NONE_def DEBUG_ERRS_def DEBUG_INIT_def DEBUG_SOCKETS_def DEBUG_PROCESSES_def DEBUG_SPIFFY_def)
  show ?thesis unfolding d print_debugs_lines by (simp add: comp_def case_prod_unfold)
qed

text \<open>The test driver without arguments prints the list, is satisfied with the result, and passes the null pointer on.\<close>

lemma test_debug_lists:
  "test_debug_main [] con = Inr (0, print_err (concat (map (\<lambda>(v, s). debug_line (v, bytes_of_string s)) debug_values))
     (print_err (bytes_of_string ''Debug values and definitions'' @ [10] @ bytes_of_string ''----------------------------'' @ [10]) con))"
  by (simp add: test_debug_main_def set_debug_text_def set_debug_def debug_list_printed)

end
