(* ===== verification/Spec2Isabelle.thy ===== *)
theory Spec2Isabelle
  imports Sha1_Variants Spiffy Seeder Outage End_To_End Robustness Test_Programs Proxy_Stream Console
begin

text \<open>
  A peer-to-peer file transfer program, verified. A file is cut into chunks of 512 KiB, each named by its
  SHA-1 hash. A peer that misses chunks broadcasts their hashes (\<open>WHOHAS\<close>), the owners answer (\<open>IHAVE\<close>),
  and each chunk is fetched from one owner (\<open>GET\<close>) in 525 numbered packets (\<open>DATA\<close>) over UDP, with
  cumulative acknowledgements (\<open>ACK\<close>), a sliding window, congestion control and time-outs. A complete
  chunk whose hash is right goes to the have list; when nothing is missing the output file is written.
  The repository also holds a tool that writes chunk files and parts of a streaming proxy.

  \<^bold>\<open>The components and their theories.\<close> All sources are in \<^verbatim>\<open>src/code\<close>.

  \<^item> \<open>Prelude\<close>: words for the machine integers, \<open>result\<close> for what a call returns or how it faults, arrays
    with checked access, network byte order, and the locales for machines that run on events.
  \<^item> \<open>Text_Io\<close>: \<open>fgets\<close>, \<open>sscanf\<close> and the printing of numbers, as far as the sources use them.
  \<^item> \<open>Linked_List\<close>: \<^verbatim>\<open>linkedlist.c\<close> on a heap of nodes. Its operations are shown to implement the
    operations on HOL lists, and every other theory uses HOL lists in their place.
  \<^item> \<open>Sha1\<close>, \<open>Sha1_Variants\<close>: \<^verbatim>\<open>sha.c\<close>, equal to the Secure Hash Standard for every message and every way
    to feed it, in each build that preprocessor symbols choose.
  \<^item> \<open>Chunk\<close>, \<open>Make_Chunks\<close>: \<^verbatim>\<open>hash.c\<close>, \<^verbatim>\<open>chunk.c\<close> and the program \<^verbatim>\<open>make_chunks.c\<close>.
  \<^item> \<open>Bt_Parse\<close>, \<open>Configuration\<close>, \<open>Debug\<close>, \<open>Console\<close>: \<^verbatim>\<open>bt_parse.c\<close>, \<^verbatim>\<open>debug.c\<close> and \<^verbatim>\<open>log.c\<close>: the peer table,
    the command line, the peer list file, the debug mask, the log file, and what is printed.
  \<^item> \<open>Packet\<close>: \<^verbatim>\<open>packet.c\<close>, packets to bytes and back.
  \<^item> \<open>World\<close>, \<open>Transfers\<close>, \<open>Congestion\<close>: the state of a peer (\<^verbatim>\<open>peer.h\<close>, \<^verbatim>\<open>transfer.h\<close>), \<^verbatim>\<open>mytime.c\<close>,
    \<^verbatim>\<open>transfer.c\<close>, \<^verbatim>\<open>congestion.c\<close>.
  \<^item> \<open>Server\<close>: \<^verbatim>\<open>bt_server.c\<close>. \<open>Client\<close>, \<open>Download\<close>: \<^verbatim>\<open>bt_client.c\<close>, the handlers and their invariant, then
    what they achieve. \<open>Bt_Io\<close>: \<^verbatim>\<open>bt_io.c\<close>. \<open>Input_Buffer\<close>: \<^verbatim>\<open>input_buffer.c\<close>.
  \<^item> \<open>Peer\<close>, \<open>Peer_Main\<close>: \<^verbatim>\<open>peer.c\<close>, the dispatch of datagrams, requests and time-outs; start-up and the
    \<open>select\<close> loop.
  \<^item> \<open>Datagrams\<close>, \<open>Robustness\<close>, \<open>Seeder\<close>: what a peer sends, what cannot crash it, and a peer that only serves.
  \<^item> \<open>Endpoints\<close>, \<open>Session\<close>, \<open>File_Session\<close>, \<open>Outage\<close>, \<open>End_To_End\<close>: two peers and the network between
    them, for one chunk, for many chunks, with losses, and from start-up on.
  \<^item> \<open>Spiffy\<close>: \<^verbatim>\<open>spiffy.c\<close>, the router that datagrams pass on a simulated network.
  \<^item> \<open>Proxy_Parse\<close>, \<open>Proxy_Stream\<close>: \<^verbatim>\<open>parse.c\<close>, \<^verbatim>\<open>bitrate.c\<close> and \<^verbatim>\<open>stream.c\<close> of the streaming proxy.
  \<^item> \<open>Test_Programs\<close>: the test drivers in \<^verbatim>\<open>sha.c\<close>, \<^verbatim>\<open>chunk.c\<close> and \<^verbatim>\<open>test_input_buffer.c\<close>.

  \<^bold>\<open>State.\<close> The global variables of a peer are the record \<open>world\<close>. Chunks, peers and transfers
  are shared between lists, so they live in heaps (functions from addresses), and a list of the
  program is the list of addresses its nodes hold. What a peer does to its environment is recorded in
  the state: \<open>sent\<close> is the log of the datagrams handed to the socket, \<open>files\<close> the disk, \<open>window_graph\<close>
  the lines of the graph file. The clock is any stream of readings of \<open>gettimeofday\<close>; an operation
  that reads it advances \<open>clock_pos\<close>. Operations are named as in the C code and pass the state
  explicitly. An access outside an array, a failed assertion, a use of a null pointer and a call of
  \<open>exit\<close> are faults, values of the left summand of \<open>result\<close>, and every theorem that a call succeeds
  says that it is none of them. C integers are words of their width, or \<open>int\<close> for counters that cannot
  overflow.

  \<^bold>\<open>Parameters.\<close> The model is parametric in what is not in the repository: the options \<open>getopt\<close>
  returns, \<open>gethostbyname\<close> and \<open>inet_aton\<close>, \<open>sendto\<close> and \<open>recvfrom\<close> below the router layer, the
  results of \<open>select\<close> (a list of turns), read errors of the disk, and the content of local arrays
  before they are assigned. Allocation does not fail, and opening and writing the output file
  succeeds. \<open>strstr\<close> and \<open>strchr\<close> need the NUL of their argument: without one they are a fault. The
  network between two peers has two ends: it ignores the destination of a datagram and hands it to the
  other peer. The lengths handed to \<open>SHA1Update\<close> are those a \<open>uint32_t\<close> holds. \<open>spiffy_init\<close> is called
  once: that it cuts the environment variable at its colon is not part of the state.

  The two readers of lines with a number and a hash, \<open>parse_chunkfile\<close> and
  \<open>create_wanted_missing_list\<close>, declare \<open>char hash[HEX_HASH_SIZE]\<close>, which is one byte too short for
  the 40 characters and the NUL that \<open>sscanf\<close> stores. Their array is a parameter: the declared 40
  bytes with as much of the frame behind them as may be written. With exactly 40 bytes every complete
  line is a fault (\<open>Peer_Main\<close>), so every theorem about reading such a file needs, and says that it
  needs, at least one byte more; what the frame loses in that byte is not part of the state.

  \<^bold>\<open>Interfaces.\<close> The locale \<open>machine\<close> (a step and an invariant it keeps) is interpreted by a
  peer, congestion control and the proxy's socket lists, and its extension \<open>total_machine\<close> (a step on
  an admissible event cannot fault) by congestion control and by a peer that receives replies;
  \<open>list_interface\<close> by the heap of nodes; \<open>sha1_update\<close> by both versions of \<open>SHA1Update\<close>; \<open>net_field\<close>
  by the two widths of packet fields; \<open>fair_system\<close> by two peers and a network, for one chunk and for
  a file.

  \<^bold>\<open>What is shown.\<close>

  \<^item> Correct downloads: however a chunk's parts arrive, the output file only ever holds verified chunks at
    their places (\<open>Download\<close>). Two peers over a network that delivers everything finish the download of up
    to 74 chunks (\<open>File_Session\<close>), from start-up and a typed request on (\<open>End_To_End\<close>), and that of one
    chunk also after the loss of a window (\<open>Outage\<close>, which continues a \<open>Session\<close>).
  \<^item> Invariants: \<open>peer_ok\<close> ties the lists, transfers, chunks and bit counts of a peer together; start-up
    establishes it and every datagram, time-out and fresh request keeps it (\<open>Peer\<close>, \<open>Peer_Main\<close>). So a peer
    never owns or serves a chunk with the wrong hash, and one that only serves sends nothing but parts of
    its file and the hashes of its blocks (\<open>Seeder\<close>).
  \<^item> Messages: every datagram sent is a well-formed packet of the protocol (\<open>Datagrams\<close>), and no sequence
    of \<open>IHAVE\<close>, \<open>DATA\<close> and \<open>ACK\<close> messages crashes a peer (\<open>Robustness\<close>).
  \<^item> The server: the window moves as acknowledgements say, the third duplicate retransmits, the
    congestion window follows a specification on natural numbers without overflow, and rounds of time-outs
    end exactly the transfers that stay silent.
  \<^item> Round trips: packets, chunk files, hexadecimal text, the router's header; refinements: linked lists,
    line buffering, congestion control, socket lists; equivalences: SHA-1 and its builds.
  \<^item> Errors: what a datagram, a full line buffer, a refused request, a lost first packet, a chunk file or an HTTP message
    can do to memory, each with the exact fault.

  \<^bold>\<open>Bounds.\<close> A chunk has 525 parts (\<open>MAX_SEQ_NUM\<close>), a packet at most 74 hashes and 1500 bytes.
  Chunk numbers below 8192 have offsets that fit 32 bits, numbers below 256 survive \<open>create_chunk\<close>,
  and \<open>make-chunks\<close> counts fewer than \<open>2^31\<close> chunks in an \<open>int\<close>. In slow start the congestion window
  stays below \<open>2^32\<close>, because the threshold stays at most \<open>2^31\<close>; in congestion avoidance the clock
  must not have wrapped. A session without loss has at most 2 + 1051 datagrams per chunk: \<open>WHOHAS\<close>,
  \<open>IHAVE\<close>, and a \<open>GET\<close>, 525 parts and 525 acknowledgements for every chunk. So as many rounds in which
  each direction gets a turn are enough. The chunks of a session are at most the 74 that one \<open>WHOHAS\<close>
  names, since the answers to a second one would arrive during the transfers. Only loops on a linked
  list may fail to end (on a cyclic list); they are partial functions and their ends are proved for
  lists. No definition uses fuel.

  \<^bold>\<open>Not modelled.\<close> The messages that the macros \<open>LOG\<close> and \<open>DPRINTF\<close> add inside other functions,
  on which no state depends; \<open>burnStack\<close> of \<^verbatim>\<open>sha.c\<close>, which overwrites dead stack memory;
  the branches for a big endian machine; sockets being created and bound. \<open>http_1_to_0\<close> and
  \<open>parse_response\<close> of \<^verbatim>\<open>parse.c\<close>, \<open>extract_bitrates_from_response\<close> and
  \<open>calculate_throughput\<close> of \<^verbatim>\<open>bitrate.c\<close> and \<open>dump_to_stream\<close> of \<^verbatim>\<open>stream.c\<close> do
  not compile: they use undeclared variables and types, so they have no meaning to model. The
  functions of \<^verbatim>\<open>inbound.c\<close> are empty. The Perl scripts are not C.
\<close>

section \<open>Properties that span components\<close>

text \<open>
  Claim C9. A peer that only serves, started on a consistent disk, hands out nothing but the file it was
  started with: after any number of turns of its main loop, with any datagrams from anyone and any
  time-outs, every datagram it has sent is one of the 525 data packets of a block of the file that its
  has-chunk file lists, or an \<open>IHAVE\<close> with hashes of such blocks; and each chunk it owns and each chunk a
  transfer sends still consists of the 512 KiB of such a block, with their SHA-1 hash.

  The has-chunk file lists blocks of the data file with numbers below 256 and their hashes, the data
  file can be read and its name, without white space, fits the buffer of 128 bytes, the user types nothing, no turn faults,
  and the stack of the peer has at least one more byte behind the declared 40 bytes of the array
  \<open>hash\<close> of \<open>parse_chunkfile\<close>, where the NUL of every line is written, out of the bounds of the array.
\<close>

theorem seeder_serves_verified_data:
  assumes "idle w" and "files w (has_chunk_file config) = Some (chunk_text ls)" and "\<And>l. l \<in> set ls \<Longrightarrow> names_chunk f l"
    and "files w (chunk_file config) = Some (master_text name rest)" and "files w (string_of_bytes name) = Some f"
    and "\<not> read_fails (string_of_bytes name)"
    and "name \<noteq> []" and "\<And>b. b \<in> set name \<Longrightarrow> \<not> isspace b \<and> b \<noteq> 0" and "length name < PATH_LEN"
    and "length buf = PATH_LEN" and "HEX_HASH_SIZE < length (snd vars)"
    and "\<And>t. t \<in> set turns \<Longrightarrow> turn_event t \<noteq> None"
    and "bind_result (peer_setup read_fails vars buf config w) (peer_run config vars turns) = Inr (b, w')"
  shows "(\<exists>ms. sent w' = sent w @ ms \<and>
      (\<forall>(to, m) \<in> set ms.
         (\<exists>l \<in> set ls. \<exists>i < MAX_SEQ_NUM. m = data_bytes (block f (fst l)) i) \<or>
         (\<exists>hs. set hs \<subseteq> (\<lambda>l. fips_sha1 (block f (fst l))) ` set ls \<and> m = hash_message IHAVE 0 hs))) \<and>
    (\<forall>c \<in> set (have_chunks w') \<union> (\<lambda>t. tr_chunk (transfer_heap w' t)) ` set (server_transfers w').
       \<exists>l \<in> set ls. chunk_data (chunk_heap w' c) = block f (fst l) \<and> length (block f (fst l)) = BT_CHUNK_SIZE \<and>
         bin_hash (chunk_heap w' c) = fips_sha1 (block f (fst l)))"
proof -
  note run = seeder_run [where read_fails = read_fails, OF assms]
  have "length (block f (fst l)) = BT_CHUNK_SIZE" if "l \<in> set ls" for l
    using assms(3) [OF that] by (auto simp: names_chunk_def block_def min_def)
  moreover have "tr_chunk (transfer_heap w' t) \<in> set (have_chunks w')" if "t \<in> set (server_transfers w')" for t
    using run(1) that by (simp add: peer_ok_def server_ok_def serves_def)
  ultimately have "\<forall>c \<in> set (have_chunks w') \<union> (\<lambda>t. tr_chunk (transfer_heap w' t)) ` set (server_transfers w').
       \<exists>l \<in> set ls. chunk_data (chunk_heap w' c) = block f (fst l) \<and> length (block f (fst l)) = BT_CHUNK_SIZE \<and>
         bin_hash (chunk_heap w' c) = fips_sha1 (block f (fst l))"
    using run(3) by blast
  then show ?thesis using run(2) unfolding says_of_file_def by (simp add: case_prod_unfold)
qed

theorem seeder_serves_verified_data_witness:
  "\<exists>w'. bind_result (peer_setup (\<lambda>_. False) (0, replicate 48 0) (replicate 128 0) (testing_defaults bt_init) demo_disk)
       (peer_run (testing_defaults bt_init) (0, replicate 48 0) [Timed_Out, Ready None None]) = Inr (create_userbuf, w') \<and>
     have_chunks w' = [0] \<and> chunk_data (chunk_heap w' 0) = replicate BT_CHUNK_SIZE 0"
proof -
  let ?turns = "[Timed_Out, Ready None None]"
  obtain h where "peer_setup (\<lambda>_. False) (0, replicate 48 0) (replicate 128 0) (testing_defaults bt_init) demo_disk =
      Inr (demo_disk\<lparr>chunk_heap := h, chunk_top := 1, have_chunks := [0], clock_pos := Suc (clock_pos demo_disk), start_time := now_of demo_disk\<rparr>)"
    using peer_setup_result [where read_fails = "\<lambda>_. False", OF demo_disk_facts]
    by (auto simp: demo_lines_def demo_disk_def initial_world_def)
  moreover have "server_transfers demo_disk = []" "client_transfers demo_disk = []" "missing_chunks demo_disk = []"
    using demo_disk_facts(1) by (simp_all add: idle_def)
  ultimately obtain w' where w': "bind_result (peer_setup (\<lambda>_. False) (0, replicate 48 0) (replicate 128 0) (testing_defaults bt_init) demo_disk)
       (peer_run (testing_defaults bt_init) (0, replicate 48 0) ?turns) = Inr (create_userbuf, w')" and "have_chunks w' = [0]"
    by (simp add: idle_turns)
  moreover have "turn_event t \<noteq> None" if "t \<in> set ?turns" for t using that by auto
  note seeder_serves_verified_data [where read_fails = "\<lambda>_. False" and turns = ?turns, OF demo_disk_facts this w']
  ultimately show ?thesis by (auto simp: demo_lines_def block_def)
qed

end
